(* ===== verification/Cpp_Prelude.thy ===== *)
theory Cpp_Prelude
  imports Main "HOL-Library.Word"
begin

text \<open>
  What the component theories share: the machine integer types of the C++ and C sources, the
  reading of machine operations as arithmetic on their unsigned values (collection
  \<open>unat_simps\<close>), byte strings and their little-endian value, and \<open>std::vector::resize\<close>.

  Conventions used throughout. \<open>uint8_t\<close>, \<open>uint32_t\<close> and \<open>uint64_t\<close> are words of their
  width, so that every wrap-around of the source happens in the model; \<open>size_t\<close> counts of
  containers are naturals, because no container reaches \<open>2^64\<close> elements. A \<open>char\<close> buffer or
  \<open>std::string\<close> of raw data is a list of bytes. The model is of the release build
  (\<open>-DNDEBUG\<close>, set in CMakeLists.txt): an \<open>assert\<close> has no effect, and where the code then
  reads out of range the model returns \<open>None\<close>.
\<close>

unbundle bit_operations_syntax

type_synonym u8 = "8 word"
type_synonym u32 = "32 word"
type_synonym u64 = "64 word"
type_synonym u128 = "128 word"

named_theorems unat_simps \<open>how the unsigned value of a machine operation reads as arithmetic\<close>

lemma unat_bound: "unat (x :: 'a::len word) < 2 ^ LENGTH('a)"
  by simp

lemma unat_shiftr [unat_simps]: "unat (drop_bit n (x :: 'a::len word)) = unat x div 2 ^ n"
  unfolding unat_drop_bit_eq by (simp add: drop_bit_eq_div)

lemma unat_shiftl [unat_simps]:
  "unat (push_bit n (x :: 'a::len word)) = unat x * 2 ^ n mod 2 ^ LENGTH('a)"
  unfolding unsigned_push_bit_eq by (simp add: push_bit_eq_mult take_bit_eq_mod)

lemma unat_and_mask [unat_simps]: "unat (x AND mask n :: 'a::len word) = unat x mod 2 ^ n"
  unfolding take_bit_eq_mask [symmetric] unsigned_take_bit_eq by (simp add: take_bit_eq_mod)

lemma unat_disjoint_or:
  fixes x y :: "'a::len word"
  assumes "x AND y = 0"
  shows "unat (x OR y) = unat x + unat y"
proof -
  have "unat x AND unat y = 0" using assms by (metis unsigned_and_eq unsigned_0)
  then show ?thesis by (simp add: unsigned_or_eq disjunctive_add_eq_or)
qed

lemma shiftl_and_low:
  fixes x y :: "'a::len word"
  assumes "unat y < 2 ^ n"
  shows "push_bit n x AND y = 0"
proof (rule bit_eqI)
  fix i
  have "\<not> bit y i" if "n \<le> i"
  proof
    assume "bit y i"
    then have "bit (unat y) i" by (simp add: bit_unsigned_iff)
    then have "2 ^ i \<le> unat y" by (metis bit_iff_odd div_less even_zero not_le)
    moreover have "(2::nat) ^ n \<le> 2 ^ i" using that by simp
    ultimately show False using assms by linarith
  qed
  then show "bit (push_bit n x AND y) i = bit (0 :: 'a word) i"
    by (auto simp: bit_and_iff bit_push_bit_iff)
qed

lemma unat_shiftl_or:
  fixes x y :: "'a::len word"
  assumes "unat y < 2 ^ n"
  shows "unat (push_bit n x OR y) = unat x * 2 ^ n mod 2 ^ LENGTH('a) + unat y"
  using unat_disjoint_or [OF shiftl_and_low [OF assms]] by (simp only: unat_shiftl)

lemma unat_add_noov [simp]:
  "unat x + unat y < 2 ^ LENGTH('a) \<Longrightarrow> unat (x + y :: 'a::len word) = unat x + unat y"
  by (simp add: unat_word_ariths)

lemma unat_mult_noov [simp]:
  "unat x * unat y < 2 ^ LENGTH('a) \<Longrightarrow> unat (x * y :: 'a::len word) = unat x * unat y"
  by (simp add: unat_word_ariths)

lemma add_carry_iff:
  fixes x y :: "'a::len word"
  shows "x + y < x \<longleftrightarrow> 2 ^ LENGTH('a) \<le> unat x + unat y"
proof (cases "unat x + unat y < 2 ^ LENGTH('a)")
  case True
  then show ?thesis by (simp add: word_less_nat_alt)
next
  case False
  then have "unat (x + y) = unat x + unat y - 2 ^ LENGTH('a)" by (simp add: unat_plus_if')
  then show ?thesis using False unat_bound [of y] unfolding word_less_nat_alt by linarith
qed

lemma unat_add_carry:
  fixes x y :: "'a::len word"
  shows "unat x + unat y = (if x + y < x then 2 ^ LENGTH('a) else 0) + unat (x + y)"
  by (auto simp: add_carry_iff unat_plus_if')

lemma unat_ucast_mod: "unat (ucast (x :: 'a::len word) :: 'b::len word) = unat x mod 2 ^ LENGTH('b)"
  by (simp add: unsigned_ucast_eq take_bit_eq_mod)

lemma unat_ucast_up:
  "LENGTH('a) \<le> LENGTH('b) \<Longrightarrow> unat (ucast (x :: 'a::len word) :: 'b::len word) = unat x"
  unfolding unat_ucast_mod
  by (rule mod_less) (rule less_le_trans [OF unat_bound], simp)

lemma unat_ucast_small:
  "unat x < 2 ^ LENGTH('b) \<Longrightarrow> unat (ucast (x :: 'a::len word) :: 'b::len word) = unat x"
  by (simp add: unat_ucast_mod)

type_synonym bytes = "u8 list"

fun le_nat :: "bytes \<Rightarrow> nat" where
  "le_nat [] = 0"
| "le_nat (b # bs) = unat b + 256 * le_nat bs"

definition load64 :: "bytes \<Rightarrow> nat \<Rightarrow> u64" where
  "load64 bs i = of_nat (le_nat (take 8 (drop (8 * i) bs)))"

definition store64 :: "u64 \<Rightarrow> bytes" where
  "store64 w = map (\<lambda>i. ucast (drop_bit (8 * i) w)) [0..<8]"

definition resize :: "nat \<Rightarrow> 'a \<Rightarrow> 'a list \<Rightarrow> 'a list" where
  "resize n x xs = take n xs @ replicate (n - length xs) x"

lemma length_resize [simp]: "length (resize n x xs) = n"
  by (simp add: resize_def)

lemma resize_shorter [simp]: "n \<le> length xs \<Longrightarrow> resize n x xs = take n xs"
  by (simp add: resize_def)

lemma le_nat_bound: "le_nat bs < 256 ^ length bs"
proof (induction bs)
  case (Cons b bs)
  have "unat b < 256" using unat_bound [of b] by simp
  with Cons.IH show ?case by simp
qed simp

lemma le_nat_append: "le_nat (xs @ ys) = le_nat xs + 256 ^ length xs * le_nat ys"
  by (induction xs) (simp_all add: algebra_simps)

lemma le_nat_zeros [simp]: "le_nat (replicate n 0) = 0"
  by (induction n) auto

lemma unat_load64: "unat (load64 bs i) = le_nat (take 8 (drop (8 * i) bs))"
proof -
  have "le_nat (take 8 (drop (8 * i) bs)) < 256 ^ length (take 8 (drop (8 * i) bs))"
    by (rule le_nat_bound)
  also have "\<dots> \<le> 256 ^ 8" by (rule power_increasing) auto
  finally show ?thesis by (simp add: load64_def unat_of_nat)
qed

lemma le_nat_take_drop: "n \<le> length bs \<Longrightarrow> le_nat bs = le_nat (take n bs) + 256 ^ n * le_nat (drop n bs)"
  using le_nat_append [of "take n bs" "drop n bs"] by simp


lemma unat_max_word: "unat (- 1 :: 'a::len word) = 2 ^ LENGTH('a) - 1"
  by (simp add: unsigned_minus_1_eq_mask mask_eq_exp_minus_1)

lemma max_word_iff: "x = (- 1 :: 'a::len word) \<longleftrightarrow> unat x = 2 ^ LENGTH('a) - 1"
  using unat_max_word by (metis word_unat_eq_iff)

lemma carry_out_iff:
  fixes x y m b :: nat
  assumes "0 < b"
  shows "x + b * y < b * m \<longleftrightarrow> x div b + y < m"
proof -
  have "x + b * y < b * m \<longleftrightarrow> (x + b * y) div b < m"
    unfolding div_less_iff_less_mult [OF assms] by (simp only: mult.commute)
  then show ?thesis using assms by (simp add: add.commute)
qed
lemma length_store64 [simp]: "length (store64 w) = 8"
  by (simp add: store64_def)

lemma le_nat_bytes: "le_nat (map (\<lambda>i. ucast (drop_bit (8 * i) (w :: u64)) :: u8) [0..<n]) = unat w mod 256 ^ n"
proof (induction n)
  case (Suc n)
  have "unat (ucast (drop_bit (8 * n) w) :: u8) = unat w div 256 ^ n mod 256"
    by (simp add: unat_ucast_mod unat_shiftr power_mult)
  then have "le_nat (map (\<lambda>i. ucast (drop_bit (8 * i) w) :: u8) [0..<Suc n]) =
      unat w mod 256 ^ n + 256 ^ n * (unat w div 256 ^ n mod 256)"
    using Suc by (simp add: le_nat_append)
  also have "\<dots> = unat w mod (256 ^ n * 256)" by (simp only: mod_mult2_eq)
  finally show ?case by (simp add: mult.commute)
qed simp

lemma le_nat_store64: "le_nat (store64 w) = unat w"
  using le_nat_bytes [of w 8] unat_bound [of w] by (simp add: store64_def)

lemma le_nat_inj: "length xs = length ys \<Longrightarrow> le_nat xs = le_nat ys \<Longrightarrow> xs = ys"
proof (induction xs ys rule: list_induct2)
  case (Cons x xs y ys)
  have b: "unat x < 256" "unat y < 256" using unat_bound [of x] unat_bound [of y] by simp_all
  have e: "unat x + 256 * le_nat xs = unat y + 256 * le_nat ys" using Cons.prems by simp
  have "unat x = unat y" using arg_cong [OF e, of "\<lambda>n. n mod 256"] b by simp
  then show ?case using e Cons.IH by (simp add: word_unat_eq_iff)
qed simp

lemma store64_load64: "length bs = 8 \<Longrightarrow> store64 (load64 bs 0) = bs"
  by (rule le_nat_inj) (simp_all add: le_nat_store64 unat_load64)

end
