(* ===== verification/Int_Util.thy ===== *)
theory Int_Util
  imports Cpp_Prelude
begin

text \<open>
  Wide integer arithmetic of \<open>contrib/epee/include/int-util.h\<close> and
  \<open>contrib/epee/src/int-util.cpp\<close>: the 64 by 64 to 128 bit multiplication, the 128 by 32 and
  128 by 64 bit divisions and the saturating additions. An output parameter is a component of
  the result. The lemmas show that each routine computes the exact product, quotient and
  remainder, and that the clamps saturate.
\<close>

section \<open>The routines\<close>

definition hi_dword :: "u64 \<Rightarrow> u64" where
  "hi_dword val = drop_bit 32 val"

definition lo_dword :: "u64 \<Rightarrow> u64" where
  "lo_dword val = val AND 0xFFFFFFFF"

definition mul128 :: "u64 \<Rightarrow> u64 \<Rightarrow> u64 \<times> u64" where
  "mul128 multiplier multiplicand =
     (let a = hi_dword multiplier;
          b = lo_dword multiplier;
          c = hi_dword multiplicand;
          d = lo_dword multiplicand;
          ac = a * c;
          ad = a * d;
          bc = b * c;
          bd = b * d;
          adbc = ad + bc;
          adbc_carry = (if adbc < ad then 1 else 0);
          product_lo = bd + push_bit 32 adbc;
          product_lo_carry = (if product_lo < bd then 1 else 0);
          product_hi = ac + drop_bit 32 adbc + push_bit 32 adbc_carry + product_lo_carry
      in (product_lo, product_hi))"

definition div_with_reminder :: "u64 \<Rightarrow> u32 \<Rightarrow> u32 \<Rightarrow> u64 \<times> u32" where
  "div_with_reminder dividend divisor remainder =
     (let dividend = dividend OR push_bit 32 (ucast remainder)
      in (dividend div ucast divisor, ucast (dividend mod ucast divisor)))"

definition div128_32 :: "u64 \<Rightarrow> u64 \<Rightarrow> u32 \<Rightarrow> u64 \<times> u64 \<times> u32" where
  "div128_32 dividend_hi dividend_lo divisor =
     (let (q3, r) = div_with_reminder (hi_dword dividend_hi) divisor 0;
          (q2, r) = div_with_reminder (lo_dword dividend_hi) divisor r;
          (q1, r) = div_with_reminder (hi_dword dividend_lo) divisor r;
          (q0, r) = div_with_reminder (lo_dword dividend_lo) divisor r;
          quotient_hi = push_bit 32 q3 OR q2;
          quotient_lo = push_bit 32 q1 OR q0
      in (quotient_hi, quotient_lo, r))"

definition div128_64 :: "u64 \<Rightarrow> u64 \<Rightarrow> u64 \<Rightarrow> u64 \<times> u64 \<times> u64 \<times> u64" where
  "div128_64 dividend_hi dividend_lo divisor =
     (let dividend = push_bit 64 (ucast dividend_hi :: u128) OR ucast dividend_lo;
          q = dividend div ucast divisor;
          r = dividend mod ucast divisor
      in (ucast (drop_bit 64 q AND mask 64), ucast (q AND mask 64),
          ucast (drop_bit 64 r AND mask 64), ucast (r AND mask 64)))"

definition add64clamp :: "u64 \<Rightarrow> u64 \<Rightarrow> u64" where
  "add64clamp value add =
     (let maxval = - 1 in if value > maxval - add then maxval else value + add)"

definition sub64clamp :: "u64 \<Rightarrow> u64 \<Rightarrow> u64" where
  "sub64clamp value sub = (if value < sub then 0 else value - sub)"

definition SWAP64 :: "u64 \<Rightarrow> u64" where
  "SWAP64 x =
     push_bit 56 (x AND 0x00000000000000ff) OR
     push_bit 40 (x AND 0x000000000000ff00) OR
     push_bit 24 (x AND 0x0000000000ff0000) OR
     push_bit 8 (x AND 0x00000000ff000000) OR
     drop_bit 8 (x AND 0x000000ff00000000) OR
     drop_bit 24 (x AND 0x0000ff0000000000) OR
     drop_bit 40 (x AND 0x00ff000000000000) OR
     drop_bit 56 (x AND 0xff00000000000000)"

section \<open>Correctness\<close>

lemma low_mask: "(0xFFFFFFFF :: u64) = mask 32"
  by (simp add: mask_eq_exp_minus_1)

lemma unat_hi_dword: "unat (hi_dword x) = unat x div 2 ^ 32"
  by (simp only: hi_dword_def unat_simps)

lemma unat_lo_dword: "unat (lo_dword x) = unat x mod 2 ^ 32"
  by (simp only: lo_dword_def low_mask unat_simps)

lemma hi_dword_bound: "unat (hi_dword x) < 2 ^ 32"
  using unat_bound [of x] unfolding unat_hi_dword by (simp add: less_mult_imp_div_less)

lemma lo_dword_bound: "unat (lo_dword x) < 2 ^ 32"
  unfolding unat_lo_dword by simp

lemma dword_split: "unat x = unat (hi_dword x) * 2 ^ 32 + unat (lo_dword x)"
  unfolding unat_hi_dword unat_lo_dword by (simp add: div_mult_mod_eq)

lemma unat_mult_dword:
  fixes x y :: u64
  assumes "unat x < 2 ^ 32" and "unat y < 2 ^ 32"
  shows "unat (x * y) = unat x * unat y"
proof -
  have "unat x * unat y < 2 ^ 32 * 2 ^ 32" using assms by (intro mult_strict_mono) auto
  then show ?thesis by simp
qed

lemma school_mul_carry:
  fixes B :: nat
  assumes "a * d + b * c = k1 * (B * B) + (s1 * B + s0)" and "b * d + s0 * B = k2 * (B * B) + lo"
  shows "(a * B + b) * (c * B + d) = (a * c + s1 + k1 * B + k2) * (B * B) + lo"
  using assms by algebra

lemma mul128_correct:
  assumes "mul128 x y = (lo, hi)"
  shows "unat hi * 2 ^ 64 + unat lo = unat x * unat y"
proof -
  define a b c d where "a = hi_dword x" and "b = lo_dword x" and "c = hi_dword y" and "d = lo_dword y"
  note defs = a_def b_def c_def d_def
  have bnd: "unat a < 2 ^ 32" "unat b < 2 ^ 32" "unat c < 2 ^ 32" "unat d < 2 ^ 32"
    unfolding defs by (rule hi_dword_bound lo_dword_bound)+
  define s where "s = a * d + b * c"
  define k1 :: u64 where "k1 = (if s < a * d then 1 else 0)"
  define k2 :: u64 where "k2 = (if b * d + push_bit 32 s < b * d then 1 else 0)"
  have "mul128 x y = (b * d + push_bit 32 s, a * c + drop_bit 32 s + push_bit 32 k1 + k2)"
    unfolding mul128_def Let_def s_def k1_def k2_def defs by (rule refl)
  then have lo: "lo = b * d + push_bit 32 s"
    and hi: "hi = a * c + drop_bit 32 s + push_bit 32 k1 + k2"
    using assms by (simp_all only: prod.inject)
  have prods: "unat (a * c) = unat a * unat c" "unat (a * d) = unat a * unat d"
     "unat (b * c) = unat b * unat c" "unat (b * d) = unat b * unat d"
    by (intro unat_mult_dword bnd)+
  have e1: "unat a * unat d + unat b * unat c = unat k1 * 2 ^ 64 + unat s"
    using unat_add_carry [of "a * d" "b * c"] by (simp add: prods s_def k1_def del: unat_add_noov unat_mult_noov)
  have e2: "unat b * unat d + (unat s mod 2 ^ 32) * 2 ^ 32 = unat k2 * 2 ^ 64 + unat lo"
  proof -
    have "unat (push_bit 32 s) = (unat s mod 2 ^ 32) * 2 ^ 32"
      using mod_mult_mult2 [of "unat s" "2 ^ 32" "2 ^ 32"] by (simp add: unat_shiftl)
    then show ?thesis using unat_add_carry [of "b * d" "push_bit 32 s"] by (simp add: prods lo k2_def del: unat_add_noov unat_mult_noov)
  qed
  define H where "H = unat a * unat c + unat s div 2 ^ 32 + unat k1 * 2 ^ 32 + unat k2"
  have tot: "unat x * unat y = H * 2 ^ 64 + unat lo"
  proof -
    have "(unat a * 2 ^ 32 + unat b) * (unat c * 2 ^ 32 + unat d) = H * (2 ^ 32 * 2 ^ 32) + unat lo"
      unfolding H_def
      by (rule school_mul_carry [where ?s0.0 = "unat s mod 2 ^ 32"]) (use e1 e2 in simp_all)
    then show ?thesis using dword_split [of x] dword_split [of y] unfolding defs by simp
  qed
  have "unat x * unat y < 2 ^ 64 * 2 ^ 64"
    using unat_bound [of x] unat_bound [of y] by (intro mult_strict_mono) auto
  then have Hb: "H < 2 ^ 64" using tot by simp
  have "unat hi = H mod 2 ^ 64" 
    unfolding hi H_def by (simp add: unat_word_ariths unat_shiftr unat_shiftl mod_simps)
  then show ?thesis using tot Hb by simp
qed

lemma div_with_reminder_correct:
  assumes "div_with_reminder x d r = (q, r')" and "unat x < 2 ^ 32" and "unat r < unat d"
  shows "unat r * 2 ^ 32 + unat x = unat q * unat d + unat r'" and "unat r' < unat d"
    and "unat q < 2 ^ 32"
proof -
  have rb: "unat r * 2 ^ 32 + unat x < unat d * 2 ^ 32"
  proof -
    have "Suc (unat r) * 2 ^ 32 \<le> unat d * 2 ^ 32" using assms(3) by (intro mult_right_mono) auto
    then show ?thesis using assms(2) by simp
  qed
  have "unat d < 2 ^ 32" using unat_bound [of d] by simp
  have up: "unat (ucast r :: u64) = unat r" "unat (ucast d :: u64) = unat d"
    by (simp_all add: unat_ucast_up)
  define n where "n = x OR push_bit 32 (ucast r :: u64)"
  have n: "unat n = unat r * 2 ^ 32 + unat x"
    using unat_shiftl_or [OF assms(2), of "ucast r"] up rb \<open>unat d < 2 ^ 32\<close>
    unfolding n_def by (simp add: or.commute)
  have q: "q = n div ucast d" and r': "r' = ucast (n mod ucast d)"
    using assms(1) unfolding div_with_reminder_def n_def Let_def by auto
  have uq: "unat q = unat n div unat d" unfolding q by (simp add: unat_div_distrib up)
  have "unat (n mod ucast d) = unat n mod unat d" by (simp add: unat_mod_distrib up)
  moreover have lt: "unat n mod unat d < unat d" using assms(3) by simp
  ultimately have ur: "unat r' = unat n mod unat d"
    unfolding r' using \<open>unat d < 2 ^ 32\<close> by (simp add: unat_ucast_small)
  show "unat r * 2 ^ 32 + unat x = unat q * unat d + unat r'" unfolding uq ur n [symmetric] by simp
  show "unat r' < unat d" unfolding ur by (rule lt)
  show "unat q < 2 ^ 32" unfolding uq n using rb by (simp add: div_less_iff_less_mult assms(3) less_mult_imp_div_less mult.commute)
qed

lemma unat_dword_join:
  fixes x y :: u64
  assumes "unat x < 2 ^ 32" and "unat y < 2 ^ 32"
  shows "unat (push_bit 32 x OR y) = unat x * 2 ^ 32 + unat y"
  using unat_shiftl_or [OF assms(2), of x] assms(1) by simp

lemma div128_32_correct:
  assumes "div128_32 hi lo d = (qh, ql, r)" and "d \<noteq> 0"
  shows "unat hi * 2 ^ 64 + unat lo = (unat qh * 2 ^ 64 + unat ql) * unat d + unat r"
    and "unat r < unat d"
proof -
  obtain q3 r3 where s3: "div_with_reminder (hi_dword hi) d 0 = (q3, r3)" by fastforce
  obtain q2 r2 where s2: "div_with_reminder (lo_dword hi) d r3 = (q2, r2)" by fastforce
  obtain q1 r1 where s1: "div_with_reminder (hi_dword lo) d r2 = (q1, r1)" by fastforce
  obtain q0 r0 where s0: "div_with_reminder (lo_dword lo) d r1 = (q0, r0)" by fastforce
  have res: "qh = push_bit 32 q3 OR q2" "ql = push_bit 32 q1 OR q0" "r = r0"
    using assms(1) s3 s2 s1 s0 unfolding div128_32_def Let_def by auto
  have d0: "unat (0 :: u32) < unat d" using assms(2) by (simp add: unat_gt_0)
  note c3 = div_with_reminder_correct [OF s3 hi_dword_bound d0]
  note c2 = div_with_reminder_correct [OF s2 lo_dword_bound c3(2)]
  note c1 = div_with_reminder_correct [OF s1 hi_dword_bound c2(2)]
  note c0 = div_with_reminder_correct [OF s0 lo_dword_bound c1(2)]
  show "unat r < unat d" unfolding res by (rule c0(2))
  have qs: "unat qh = unat q3 * 2 ^ 32 + unat q2" "unat ql = unat q1 * 2 ^ 32 + unat q0"
    unfolding res using c3(3) c2(3) c1(3) c0(3) by (simp_all only: unat_dword_join)
  show "unat hi * 2 ^ 64 + unat lo = (unat qh * 2 ^ 64 + unat ql) * unat d + unat r"
    using c3(1) c2(1) c1(1) c0(1)
    unfolding qs res(3) dword_split [of hi] dword_split [of lo] by (simp add: algebra_simps)
qed

lemma unat_u128_join:
  "unat (push_bit 64 (ucast (hi :: u64) :: u128) OR ucast (lo :: u64)) = unat hi * 2 ^ 64 + unat lo"
proof -
  have up: "unat (ucast hi :: u128) = unat hi" "unat (ucast lo :: u128) = unat lo"
    by (simp_all add: unat_ucast_up)
  have "unat hi * 2 ^ 64 < 2 ^ 64 * 2 ^ 64" using unat_bound [of hi] by simp
  then show ?thesis using unat_shiftl_or [of "ucast lo :: u128" 64 "ucast hi"] unat_bound [of lo]
    by (simp add: up)
qed

lemma u128_split:
  fixes q :: u128
  shows "unat (ucast (drop_bit 64 q AND mask 64) :: u64) * 2 ^ 64 + unat (ucast (q AND mask 64) :: u64)
    = unat q"
proof -
  have "unat q div 2 ^ 64 < 2 ^ 64" using unat_bound [of q] by (simp add: less_mult_imp_div_less)
  then show ?thesis by (simp add: unat_ucast_mod unat_simps div_mult_mod_eq)
qed

lemma div128_64_correct:
  assumes "div128_64 hi lo d = (qh, ql, rh, rl)"
  shows "unat qh * 2 ^ 64 + unat ql = (unat hi * 2 ^ 64 + unat lo) div unat d"
    and "unat rh * 2 ^ 64 + unat rl = (unat hi * 2 ^ 64 + unat lo) mod unat d"
proof -
  define n where "n = push_bit 64 (ucast hi :: u128) OR ucast lo"
  have up: "unat (ucast d :: u128) = unat d" by (simp add: unat_ucast_up)
  have res: "qh = ucast (drop_bit 64 (n div ucast d) AND mask 64)" "ql = ucast ((n div ucast d) AND mask 64)"
    "rh = ucast (drop_bit 64 (n mod ucast d) AND mask 64)" "rl = ucast ((n mod ucast d) AND mask 64)"
    using assms unfolding div128_64_def n_def Let_def by auto
  show "unat qh * 2 ^ 64 + unat ql = (unat hi * 2 ^ 64 + unat lo) div unat d"
    unfolding res u128_split by (simp only: unat_div_distrib up n_def unat_u128_join)
  show "unat rh * 2 ^ 64 + unat rl = (unat hi * 2 ^ 64 + unat lo) mod unat d"
    unfolding res u128_split by (simp only: unat_mod_distrib up n_def unat_u128_join)
qed

lemma add64clamp_saturates: "unat (add64clamp v a) = min (2 ^ 64 - 1) (unat v + unat a)"
proof -
  have m: "unat (- 1 - a :: u64) = 2 ^ 64 - 1 - unat a"
    using unat_bound [of a]
    by (subst unat_sub) (auto simp: word_le_nat_alt unat_max_word)
  show ?thesis
  proof (cases "unat v + unat a < 2 ^ 64")
    case True
    then show ?thesis using m unat_bound [of a]
      by (auto simp: add64clamp_def Let_def word_less_nat_alt)
  next
    case False
    then have "v > - 1 - a" unfolding word_less_nat_alt m using unat_bound [of a] unat_bound [of v] by simp
    then show ?thesis using False by (simp add: add64clamp_def Let_def unat_max_word)
  qed
qed

lemma sub64clamp_saturates: "unat (sub64clamp v s) = unat v - unat s"
  by (auto simp: sub64clamp_def word_less_nat_alt unat_sub_if')

section \<open>The contract of a 64 by 64 bit multiplication\<close>

text \<open>
  Two routines of the program multiply 64 bit words into a low and a high word: \<open>mul128\<close> here
  and \<open>mul\<close> of difficulty.cpp. Their clients only rely on the contract below.
\<close>

locale wide_mul =
  fixes wmul :: "u64 \<Rightarrow> u64 \<Rightarrow> u64 \<times> u64"
  assumes wmul_exact: "wmul a b = (lo, hi) \<Longrightarrow> unat hi * 2 ^ 64 + unat lo = unat a * unat b"
begin

lemma wmul_words:
  assumes "wmul a b = (lo, hi)"
  shows "unat hi = unat a * unat b div 2 ^ 64" and "unat lo = unat a * unat b mod 2 ^ 64"
proof -
  have "unat lo < 2 ^ 64" using unat_bound [of lo] by simp
  then show "unat hi = unat a * unat b div 2 ^ 64" "unat lo = unat a * unat b mod 2 ^ 64"
    unfolding wmul_exact [OF assms, symmetric] by simp_all
qed

lemma wmul_high_zero:
  assumes "wmul a b = (lo, hi)"
  shows "hi = 0 \<longleftrightarrow> unat a * unat b < 2 ^ 64"
  using wmul_words(1) [OF assms] by (simp add: word_unat_eq_iff div_eq_0_iff)

lemma wmul_low:
  assumes "wmul a b = (lo, hi)"
  shows "lo = a * b"
  using wmul_words(2) [OF assms] by (simp add: word_unat_eq_iff unat_word_ariths)

end

interpretation m128: wide_mul mul128
  by unfold_locales (rule mul128_correct)

section \<open>Byte order\<close>

lemma SWAP64_masks:
  "(0x00000000000000ff :: u64) = mask 8" "(0x000000000000ff00 :: u64) = push_bit 8 (mask 8)"
  "(0x0000000000ff0000 :: u64) = push_bit 16 (mask 8)" "(0x00000000ff000000 :: u64) = push_bit 24 (mask 8)"
  "(0x000000ff00000000 :: u64) = push_bit 32 (mask 8)" "(0x0000ff0000000000 :: u64) = push_bit 40 (mask 8)"
  "(0x00ff000000000000 :: u64) = push_bit 48 (mask 8)" "(0xff00000000000000 :: u64) = push_bit 56 (mask 8)"
  by (simp_all add: push_bit_eq_mult mask_eq_exp_minus_1)

lemma SWAP64_bit:
  assumes "i < 8" and "k < 8"
  shows "bit (SWAP64 x) (8 * i + k) = bit x (8 * (7 - i) + k)"
proof -
  have "i \<in> {0, 1, 2, 3, 4, 5, 6, 7}" using assms(1) by auto
  then show ?thesis
    unfolding SWAP64_def SWAP64_masks using assms(2)
    by (elim insertE emptyE) (simp_all add: bit_simps)
qed

lemma store64_SWAP64: "store64 (SWAP64 x) = rev (store64 x)"
proof (rule nth_equalityI)
  fix i assume "i < length (store64 (SWAP64 x))"
  then have i: "i < 8" by simp
  have "ucast (drop_bit (8 * i) (SWAP64 x)) = (ucast (drop_bit (8 * (7 - i)) x) :: u8)"
  proof (rule bit_word_eqI)
    fix k assume "k < LENGTH(8)"
    then have k: "k < 8" by simp
    then show "bit (ucast (drop_bit (8 * i) (SWAP64 x)) :: u8) k = bit (ucast (drop_bit (8 * (7 - i)) x) :: u8) k"
      using SWAP64_bit [OF i, of k x] i by (simp add: bit_simps)
  qed
  moreover have "[0..<8] ! (7 - i) = 7 - i" using i by (subst nth_upt) simp_all
  ultimately show "store64 (SWAP64 x) ! i = rev (store64 x) ! i" using i by (simp add: store64_def rev_nth)
qed simp
end
