(* ===== verification/Difficulty.thy ===== *)
theory Difficulty
  imports Int_Util
begin

text \<open>
  Proof-of-work difficulty, \<open>src/cryptonote_basic/difficulty.cpp\<close>: the check that a hash meets
  a difficulty, in its 64 bit and its 128 bit form, and the difficulty of the next block before
  hard fork 13. A \<open>crypto::hash\<close> is its 32 bytes, \<open>difficulty_type\<close> (boost's unchecked
  \<open>uint128_t\<close>) a 128 bit word.
\<close>

section \<open>The code\<close>

type_synonym u256 = "256 word"
type_synonym u512 = "512 word"
type_synonym difficulty_type = u128

definition mul :: "u64 \<Rightarrow> u64 \<Rightarrow> u64 \<times> u64" where
  "mul a b =
     (let aLow = a AND 0xFFFFFFFF; aHigh = drop_bit 32 a;
          bLow = b AND 0xFFFFFFFF; bHigh = drop_bit 32 b;
          res = aLow * bLow;
          lowRes1 = res AND 0xFFFFFFFF;
          carry = drop_bit 32 res;
          res = aHigh * bLow + carry;
          highResHigh1 = drop_bit 32 res;
          highResLow1 = res AND 0xFFFFFFFF;
          res = aLow * bHigh;
          lowRes2 = res AND 0xFFFFFFFF;
          carry = drop_bit 32 res;
          res = aHigh * bHigh + carry;
          highResHigh2 = drop_bit 32 res;
          highResLow2 = res AND 0xFFFFFFFF;
          r = highResLow1 + lowRes2;
          carry = drop_bit 32 r;
          low = push_bit 32 r OR lowRes1;
          r = highResHigh1 + highResLow2 + carry;
          d3 = r AND 0xFFFFFFFF;
          carry = drop_bit 32 r;
          r = highResHigh2 + carry;
          high = d3 OR push_bit 32 r
      in (low, high))"

definition cadd :: "u64 \<Rightarrow> u64 \<Rightarrow> bool" where
  "cadd a b \<longleftrightarrow> a + b < a"

definition cadc :: "u64 \<Rightarrow> u64 \<Rightarrow> bool \<Rightarrow> bool" where
  "cadc a b c \<longleftrightarrow> a + b < a \<or> (c \<and> a + b = - 1)"

definition check_hash_64 :: "bytes \<Rightarrow> u64 \<Rightarrow> bool" where
  "check_hash_64 hash difficulty =
     (let (top, high) = mul (load64 hash 3) difficulty in
      if high \<noteq> 0 then False
      else
        let (_, cur) = mul (load64 hash 0) difficulty;
            (low, high) = mul (load64 hash 1) difficulty;
            carry = cadd cur low;
            cur = high;
            (low, high) = mul (load64 hash 2) difficulty;
            carry = cadc cur low carry;
            carry = cadc high top carry
        in \<not> carry)"

definition check_hash_128 :: "bytes \<Rightarrow> difficulty_type \<Rightarrow> bool" where
  "check_hash_128 hash difficulty =
     (let hashVal = foldl (\<lambda>v i. push_bit 64 v OR ucast (load64 hash (3 - i))) (0 :: u512) [0, 1, 2, 3]
      in hashVal * ucast difficulty \<le> ucast (- 1 :: u256))"

definition check_hash :: "bytes \<Rightarrow> difficulty_type \<Rightarrow> bool" where
  "check_hash hash difficulty =
     (if difficulty \<le> ucast (- 1 :: u64) then check_hash_64 hash (ucast difficulty)
      else check_hash_128 hash difficulty)"

definition DIFFICULTY_WINDOW :: nat where "DIFFICULTY_WINDOW = 720"
definition DIFFICULTY_CUT :: nat where "DIFFICULTY_CUT = 60"

definition difficulty_cut :: "nat \<Rightarrow> nat \<times> nat" where
  "difficulty_cut len =
     (if len \<le> DIFFICULTY_WINDOW - 2 * DIFFICULTY_CUT then (0, len)
      else
        let cut_begin = (len - (DIFFICULTY_WINDOW - 2 * DIFFICULTY_CUT) + 1) div 2
        in (cut_begin, cut_begin + (DIFFICULTY_WINDOW - 2 * DIFFICULTY_CUT)))"

definition next_difficulty_64 :: "u64 list \<Rightarrow> u64 list \<Rightarrow> u64 \<Rightarrow> u64 option" where
  "next_difficulty_64 timestamps cumulative_difficulties target_seconds =
     (let (timestamps, cumulative_difficulties) =
            (if DIFFICULTY_WINDOW < length timestamps
             then (resize DIFFICULTY_WINDOW 0 timestamps, resize DIFFICULTY_WINDOW 0 cumulative_difficulties)
             else (timestamps, cumulative_difficulties));
          len = length timestamps
      in if len \<le> 1 then Some 1
         else
           let timestamps = sort timestamps;
               (cut_begin, cut_end) = difficulty_cut len
           in if length cumulative_difficulties < cut_end then None
              else
                let time_span = timestamps ! (cut_end - 1) - timestamps ! cut_begin;
                    time_span = (if time_span = 0 then 1 else time_span);
                    total_work = cumulative_difficulties ! (cut_end - 1) - cumulative_difficulties ! cut_begin;
                    (low, high) = mul total_work target_seconds
                in if high \<noteq> 0 \<or> low + time_span - 1 < low then Some 0
                   else Some ((low + time_span - 1) div time_span))"

definition next_difficulty :: "u64 list \<Rightarrow> difficulty_type list \<Rightarrow> u64 \<Rightarrow> difficulty_type option" where
  "next_difficulty timestamps cumulative_difficulties target_seconds =
     (let (timestamps, cumulative_difficulties) =
            (if DIFFICULTY_WINDOW < length timestamps
             then (resize DIFFICULTY_WINDOW 0 timestamps, resize DIFFICULTY_WINDOW 0 cumulative_difficulties)
             else (timestamps, cumulative_difficulties));
          len = length timestamps
      in if len \<le> 1 then Some 1
         else
           let timestamps = sort timestamps;
               (cut_begin, cut_end) = difficulty_cut len
           in if length cumulative_difficulties < cut_end then None
              else
                let time_span = timestamps ! (cut_end - 1) - timestamps ! cut_begin;
                    time_span = (if time_span = 0 then 1 else time_span);
                    total_work = cumulative_difficulties ! (cut_end - 1) - cumulative_difficulties ! cut_begin;
                    res = (ucast total_work * ucast target_seconds + ucast time_span - 1) div (ucast time_span :: u256)
                in if res > ucast (- 1 :: u128) then Some 0 else Some (ucast res))"

section \<open>Properties\<close>

lemma cadd_iff: "cadd a b \<longleftrightarrow> 2 ^ 64 \<le> unat a + unat b"
  unfolding cadd_def add_carry_iff by simp

lemma cadc_iff: "cadc a b c \<longleftrightarrow> 2 ^ 64 \<le> unat a + unat b + of_bool c"
  unfolding cadc_def add_carry_iff max_word_iff by (auto simp: unat_plus_if')

lemma hash_split:
  assumes "length h = 32"
  shows "le_nat h = unat (load64 h 0) + 2 ^ 64 * (unat (load64 h 1)
    + 2 ^ 64 * (unat (load64 h 2) + 2 ^ 64 * unat (load64 h 3)))"
proof -
  have "le_nat h = le_nat (take 8 h) + 256 ^ 8 * le_nat (drop 8 h)"
    using assms by (intro le_nat_take_drop) simp
  moreover have "le_nat (drop 8 h) = le_nat (take 8 (drop 8 h)) + 256 ^ 8 * le_nat (drop 16 h)"
    using assms le_nat_take_drop [of 8 "drop 8 h"] by simp
  moreover have "le_nat (drop 16 h) = le_nat (take 8 (drop 16 h)) + 256 ^ 8 * le_nat (drop 24 h)"
    using assms le_nat_take_drop [of 8 "drop 16 h"] by simp
  moreover have "take 8 (drop 24 h) = drop 24 h" using assms by simp
  ultimately show ?thesis unfolding unat_load64 by simp
qed

lemma carry_chain:
  fixes l0 h0 l1 h1 l2 h2 l3 h3 b :: nat
  assumes "0 < b" "l0 < b" "h0 < b" "l1 < b" "h1 < b" "l2 < b" "h2 < b" "l3 < b"
  defines "c1 \<equiv> b \<le> h0 + l1"
  defines "c2 \<equiv> b \<le> h1 + l2 + of_bool c1"
  defines "c3 \<equiv> b \<le> h2 + l3 + of_bool c2"
  shows "l0 + b * (h0 + l1 + b * (h1 + l2 + b * (h2 + l3 + b * h3))) < b ^ 4
    \<longleftrightarrow> h3 = 0 \<and> \<not> c3"
proof -
  have d0: "l0 div b = 0" using assms by simp
  have one: "x div b = of_bool (b \<le> x)" if "x < 2 * b" for x
  proof (cases "b \<le> x")
    case True
    then have "x div b = Suc ((x - b) div b)" using assms(1) by (simp add: le_div_geq)
    then show ?thesis using True that by simp
  qed simp
  have d1: "(h0 + l1) div b = of_bool c1" using assms by (simp add: one)
  have d2: "(h1 + l2 + of_bool c1) div b = of_bool c2" using assms by (simp add: one of_bool_def)
  have "l0 + b * (h0 + l1 + b * (h1 + l2 + b * (h2 + l3 + b * h3))) < b * b ^ 3
    \<longleftrightarrow> h0 + l1 + b * (h1 + l2 + b * (h2 + l3 + b * h3)) < b * b ^ 2"
    unfolding carry_out_iff [OF assms(1), of l0] d0 by (simp add: power3_eq_cube power2_eq_square mult.assoc)
  also have "\<dots> \<longleftrightarrow> (h1 + l2 + of_bool c1) + b * (h2 + l3 + b * h3) < b * b"
    unfolding carry_out_iff [OF assms(1), of "h0 + l1"] d1 by (simp add: power2_eq_square algebra_simps)
  also have "\<dots> \<longleftrightarrow> (h2 + l3 + of_bool c2) + b * h3 < b * 1"
    unfolding carry_out_iff [OF assms(1), of "h1 + l2 + of_bool c1"] d2 by (simp add: algebra_simps)
  also have "\<dots> \<longleftrightarrow> h3 = 0 \<and> \<not> c3"
    using assms(1) by (cases h3) (auto simp: c3_def)
  finally show ?thesis by (simp add: numeral_eq_Suc)
qed

lemma unat_and_low: "unat (x AND 0xFFFFFFFF :: u64) = unat x mod 2 ^ 32"
  by (simp only: low_mask unat_simps)

lemma school_mul:
  fixes B :: nat
  assumes "al * bl = c1 * B + x1" "ah * bl + c1 = h1 * B + l1"
    "al * bh = c3 * B + x3" "ah * bh + c3 = h2 * B + l2"
    "l1 + x3 = k1 * B + t1" "h1 + l2 + k1 = k2 * B + d3"
  shows "(ah * B + al) * (bh * B + bl) = ((h2 + k2) * B + d3) * (B * B) + (t1 * B + x1)"
  using assms by algebra

lemma mul_correct:
  assumes "mul a b = (low, high)"
  shows "unat high * 2 ^ 64 + unat low = unat a * unat b"
proof -
  define B :: nat where "B = 2 ^ 32"
  have BB: "B * B = 2 ^ 64" "B * (B * B) = 2 ^ 96" "B * (B * (B * B)) = 2 ^ 128" "0 < B" unfolding B_def by simp_all
  define al ah bl bh where "al = a AND 0xFFFFFFFF" and "ah = drop_bit 32 a"
    and "bl = b AND 0xFFFFFFFF" and "bh = drop_bit 32 b"
  have dw: "unat (x AND 0xFFFFFFFF :: u64) = unat x mod B" "unat (drop_bit 32 x :: u64) = unat x div B"
    and dwb: "unat x mod B < B" "unat x div B < B" for x
    unfolding B_def unat_and_low unat_shiftr using unat_bound [of x]
    by (simp_all add: less_mult_imp_div_less)
  have vb: "unat al < B" "unat ah < B" "unat bl < B" "unat bh < B"
    unfolding al_def ah_def bl_def bh_def dw by (rule dwb)+
  have pb: "x * y + c < B * B" if "x < B" "y < B" "c < B" for x y c :: nat
  proof -
    have "x * y \<le> (B - 1) * (B - 1)" using that by (intro mult_mono) auto
    then show ?thesis using that BB(4) by (cases B) auto
  qed
  define p1 where "p1 = al * bl"
  define p2 where "p2 = ah * bl + drop_bit 32 p1"
  define p3 where "p3 = al * bh"
  define p4 where "p4 = ah * bh + drop_bit 32 p3"
  define r1 where "r1 = (p2 AND 0xFFFFFFFF) + (p3 AND 0xFFFFFFFF)"
  define r2 where "r2 = drop_bit 32 p2 + (p4 AND 0xFFFFFFFF) + drop_bit 32 r1"
  define r3 where "r3 = drop_bit 32 p4 + drop_bit 32 r2"
  have low: "low = push_bit 32 r1 OR (p1 AND 0xFFFFFFFF)"
    and high: "high = (r2 AND 0xFFFFFFFF) OR push_bit 32 r3"
    using assms unfolding mul_def Let_def al_def ah_def bl_def bh_def p1_def p2_def p3_def p4_def
      r1_def r2_def r3_def by simp_all
  have u1: "unat p1 = unat al * unat bl"
    using pb [OF vb(1,3) BB(4)] BB(1) unfolding p1_def by simp
  have u2: "unat p2 = unat ah * unat bl + unat p1 div B"
    using pb [OF vb(2,3) dwb(2) [of p1]] BB(1) unfolding p2_def by (simp add: dw)
  have u3: "unat p3 = unat al * unat bh"
    using pb [OF vb(1,4) BB(4)] BB(1) unfolding p3_def by simp
  have u4: "unat p4 = unat ah * unat bh + unat p3 div B"
    using pb [OF vb(2,4) dwb(2) [of p3]] BB(1) unfolding p4_def by (simp add: dw)
  have w1: "unat r1 = unat p2 mod B + unat p3 mod B"
    using dwb(1) [of p2] dwb(1) [of p3] unfolding r1_def by (simp add: dw B_def)
  have w2: "unat r2 = unat p2 div B + unat p4 mod B + unat r1 div B"
    using dwb [of p2] dwb [of p4] dwb [of r1] unfolding r2_def by (simp add: dw B_def)
  have w3: "unat r3 = unat p4 div B + unat r2 div B"
    using dwb [of p4] dwb [of r2] unfolding r3_def by (simp add: dw B_def)
  have ab: "unat a = unat ah * B + unat al" "unat b = unat bh * B + unat bl"
    unfolding al_def ah_def bl_def bh_def dw by simp_all
  have total: "unat a * unat b = (unat r3 * B + unat r2 mod B) * (B * B) + (unat r1 mod B * B + unat p1 mod B)"
    unfolding ab w3
    by (rule school_mul [where ?c1.0 = "unat p1 div B" and ?c3.0 = "unat p3 div B" and ?h1.0 = "unat p2 div B"
          and ?l1.0 = "unat p2 mod B" and ?x3.0 = "unat p3 mod B" and ?l2.0 = "unat p4 mod B"
          and ?k1.0 = "unat r1 div B"])
      (simp_all only: u1 [symmetric] u2 [symmetric] u3 [symmetric] u4 [symmetric] w1 [symmetric]
        w2 [symmetric] div_mult_mod_eq)
  have r3b: "unat r3 < B"
  proof -
    have "unat a * unat b < 2 ^ 64 * 2 ^ 64"
      using unat_bound [of a] unat_bound [of b] by (intro mult_strict_mono) auto
    then have "unat r3 * B * (B * B) < B * B * (B * B)"
      unfolding total BB(1) by (simp add: add_mult_distrib mult.commute [of B])
    then show ?thesis using BB(4) by simp
  qed
  have "unat low = unat r1 mod B * B + unat p1 mod B"
    unfolding low using unat_shiftl_or [of "p1 AND 0xFFFFFFFF" 32 r1] dwb(1) [of p1]
      mod_mult_mult2 [of "unat r1" B B] by (simp add: dw B_def)
  moreover have "unat high = unat r3 * B + unat r2 mod B"
    unfolding high using unat_shiftl_or [of "r2 AND 0xFFFFFFFF" 32 r3] dwb(1) [of r2] r3b
    by (simp add: dw B_def or.commute)
  ultimately show ?thesis unfolding total BB(1) by simp
qed

interpretation m64: wide_mul mul
  by unfold_locales (rule mul_correct)

lemma check_hash_64_correct:
  assumes "length hash = 32"
  shows "check_hash_64 hash d \<longleftrightarrow> le_nat hash * unat d < 2 ^ 256"
proof -
  obtain l3 h3 where m3: "mul (load64 hash 3) d = (l3, h3)" by fastforce
  obtain l0 h0 where m0: "mul (load64 hash 0) d = (l0, h0)" by fastforce
  obtain l1 h1 where m1: "mul (load64 hash 1) d = (l1, h1)" by fastforce
  obtain l2 h2 where m2: "mul (load64 hash 2) d = (l2, h2)" by fastforce
  note prods = mul_correct [OF m0] mul_correct [OF m1] mul_correct [OF m2] mul_correct [OF m3]
  have bnd: "unat (w :: u64) < 2 ^ 64" for w using unat_bound [of w] by simp
  have "check_hash_64 hash d \<longleftrightarrow> h3 = 0 \<and> \<not> cadc h2 l3 (cadc h1 l2 (cadd h0 l1))"
    unfolding check_hash_64_def m0 m1 m2 m3 Let_def by simp
  also have "\<dots> \<longleftrightarrow> unat l0 + 2 ^ 64 * (unat h0 + unat l1 + 2 ^ 64 * (unat h1 + unat l2
      + 2 ^ 64 * (unat h2 + unat l3 + 2 ^ 64 * unat h3))) < (2 ^ 64) ^ 4"
    unfolding cadc_iff cadd_iff
    by (subst carry_chain) (simp_all only: bnd unat_eq_zero, auto)
  also have "unat l0 + 2 ^ 64 * (unat h0 + unat l1 + 2 ^ 64 * (unat h1 + unat l2
      + 2 ^ 64 * (unat h2 + unat l3 + 2 ^ 64 * unat h3))) = le_nat hash * unat d"
    unfolding hash_split [OF assms] using prods by (simp add: algebra_simps)
  finally show ?thesis by simp
qed

lemma unat_u512_step:
  fixes v :: u512 and w :: u64
  assumes "unat v < 2 ^ 448"
  shows "unat (push_bit 64 v OR ucast w) = unat v * 2 ^ 64 + unat w"
proof -
  have up: "unat (ucast w :: u512) = unat w" by (simp add: unat_ucast_up)
  have "unat v * 2 ^ 64 < 2 ^ 448 * 2 ^ 64" using assms by simp
  then show ?thesis using unat_shiftl_or [of "ucast w :: u512" 64 v] unat_bound [of w]
    by (simp add: up)
qed

lemma hash_value_512:
  assumes "length hash = 32"
  shows "unat (foldl (\<lambda>v i. push_bit 64 v OR ucast (load64 hash (3 - i))) (0 :: u512) [0, 1, 2, 3])
    = le_nat hash"
proof -
  define v0 v1 v2 v3 where "v0 = push_bit 64 (0 :: u512) OR ucast (load64 hash 3)"
    and "v1 = push_bit 64 v0 OR ucast (load64 hash 2)"
    and "v2 = push_bit 64 v1 OR ucast (load64 hash 1)"
    and "v3 = push_bit 64 v2 OR ucast (load64 hash 0)"
  have b: "unat (w :: u64) < 2 ^ 64" for w using unat_bound [of w] by simp
  have e0: "unat v0 = unat (load64 hash 3)" unfolding v0_def using unat_u512_step [of 0] by simp
  have e1: "unat v1 = unat v0 * 2 ^ 64 + unat (load64 hash 2)"
    unfolding v1_def by (rule unat_u512_step) (use b [of "load64 hash 3"] e0 in simp)
  have e2: "unat v2 = unat v1 * 2 ^ 64 + unat (load64 hash 1)"
    unfolding v2_def by (rule unat_u512_step) (use b [of "load64 hash 3"] b [of "load64 hash 2"] e0 e1 in simp)
  have e3: "unat v3 = unat v2 * 2 ^ 64 + unat (load64 hash 0)"
    unfolding v3_def
    by (rule unat_u512_step) (use b [of "load64 hash 3"] b [of "load64 hash 2"] b [of "load64 hash 1"] e0 e1 e2 in simp)
  have "foldl (\<lambda>v i. push_bit 64 v OR ucast (load64 hash (3 - i))) (0 :: u512) [0, 1, 2, 3] = v3"
    by (simp add: v0_def v1_def v2_def v3_def)
  moreover have "unat v3 = le_nat hash"
    unfolding hash_split [OF assms] e3 e2 e1 e0 by (simp add: algebra_simps)
  ultimately show ?thesis by simp
qed

lemma check_hash_128_correct:
  assumes "length hash = 32"
  shows "check_hash_128 hash d \<longleftrightarrow> le_nat hash * unat d < 2 ^ 256"
proof -
  define v where "v = foldl (\<lambda>v i. push_bit 64 v OR ucast (load64 hash (3 - i))) (0 :: u512) [0, 1, 2, 3]"
  have v: "unat v = le_nat hash" unfolding v_def by (rule hash_value_512 [OF assms])
  have d: "unat (ucast d :: u512) = unat d" by (simp add: unat_ucast_up)
  have "le_nat hash < 256 ^ 32" using le_nat_bound [of hash] assms by simp
  moreover have "unat d < 2 ^ 128" using unat_bound [of d] by simp
  ultimately have "le_nat hash * unat d < 256 ^ 32 * 2 ^ 128" by (intro mult_strict_mono) auto
  then have p: "unat (v * ucast d) = le_nat hash * unat d" using v d by simp
  have "unat (ucast (- 1 :: u256) :: u512) = 2 ^ 256 - 1" by (simp add: unat_ucast_up unat_max_word)
  then show ?thesis
    unfolding check_hash_128_def v_def [symmetric] Let_def word_le_nat_alt p by auto
qed

lemma check_hash_correct:
  assumes "length hash = 32"
  shows "check_hash hash d \<longleftrightarrow> le_nat hash * unat d < 2 ^ 256"
proof (cases "d \<le> ucast (- 1 :: u64)")
  case True
  have "unat (ucast (- 1 :: u64) :: u128) = 2 ^ 64 - 1" by (simp add: unat_ucast_up unat_max_word)
  with True have "unat (ucast d :: u64) = unat d"
    by (intro unat_ucast_small) (simp add: word_le_nat_alt)
  with True show ?thesis by (simp add: check_hash_def check_hash_64_correct [OF assms])
next
  case False
  then show ?thesis by (simp add: check_hash_def check_hash_128_correct [OF assms])
qed

lemma difficulty_cut_in_range:
  assumes "2 \<le> len" and "len \<le> DIFFICULTY_WINDOW" and "difficulty_cut len = (b, e)"
  shows "b + 2 \<le> e \<and> e \<le> len"
  using assms by (auto simp: difficulty_cut_def Let_def DIFFICULTY_WINDOW_def DIFFICULTY_CUT_def split: if_splits)

text \<open>Window of the difficulty computation: span and work.\<close>

definition diff_span :: "u64 list \<Rightarrow> nat" where
  "diff_span ts =
     (let s = sort (take DIFFICULTY_WINDOW ts); (b, e) = difficulty_cut (length s)
      in max 1 (unat (s ! (e - 1)) - unat (s ! b)))"

definition diff_work :: "'a::len word list \<Rightarrow> nat" where
  "diff_work cds =
     (let (b, e) = difficulty_cut (min DIFFICULTY_WINDOW (length cds))
      in unat (cds ! (e - 1)) - unat (cds ! b))"

lemma ceil_div_least:
  fixes w s :: nat
  assumes "0 < s"
  shows "w \<le> k * s \<longleftrightarrow> (w + s - 1) div s \<le> k"
proof -
  have "(w + s - 1) div s \<le> k \<longleftrightarrow> (w + s - 1) div s < Suc k" by auto
  also have "\<dots> \<longleftrightarrow> w + s - 1 < Suc k * s" by (rule div_less_iff_less_mult [OF assms])
  also have "\<dots> \<longleftrightarrow> w \<le> k * s" using assms by auto
  finally show ?thesis ..
qed

lemma sorted_word_nth_diff:
  fixes xs :: "'a::len word list"
  assumes "sorted xs" and "i \<le> j" and "j < length xs"
  shows "unat (xs ! j - xs ! i) = unat (xs ! j) - unat (xs ! i)"
  using sorted_nth_mono [OF assms] by (rule unat_sub)

lemma time_span_value:
  assumes "2 \<le> length ts" and "difficulty_cut (length s) = (b, e)" and "s = sort (take DIFFICULTY_WINDOW ts)"
  defines "sp \<equiv> s ! (e - 1) - s ! b"
  shows "unat (if sp = 0 then 1 else sp) = diff_span ts" and "0 < diff_span ts" and "diff_span ts < 2 ^ 64"
proof -
  have len: "length s = min (length ts) DIFFICULTY_WINDOW" using assms by simp
  then have be: "b + 2 \<le> e \<and> e \<le> length s"
    using assms by (intro difficulty_cut_in_range) (auto simp: DIFFICULTY_WINDOW_def)
  have "unat sp = unat (s ! (e - 1)) - unat (s ! b)"
    unfolding sp_def using assms be by (intro sorted_word_nth_diff) auto
  moreover have "diff_span ts = max 1 (unat (s ! (e - 1)) - unat (s ! b))"
    using assms by (simp add: diff_span_def Let_def)
  ultimately show span: "unat (if sp = 0 then 1 else sp) = diff_span ts"
    by (auto simp: max_def unat_eq_zero)
      (metis One_nat_def le_antisym not_less_eq_eq unat_eq_zero zero_le)+
  then show "diff_span ts < 2 ^ 64" using unat_bound [of "if sp = 0 then 1 else sp"] by simp
  show "0 < diff_span ts" by (simp add: diff_span_def Let_def less_max_iff_disj split: prod.splits)
qed

text \<open>What both difficulty functions compute from their inputs before the final division.\<close>

lemma difficulty_window:
  fixes cds :: "'a::len word list"
  assumes "2 \<le> length ts" and "length cds = length ts" and "sorted cds"
  obtains b e s sp w where
    "(if DIFFICULTY_WINDOW < length ts
      then (resize DIFFICULTY_WINDOW 0 ts, resize DIFFICULTY_WINDOW 0 cds) else (ts, cds))
        = (take DIFFICULTY_WINDOW ts, take DIFFICULTY_WINDOW cds)"
    and "\<not> length (take DIFFICULTY_WINDOW ts) \<le> 1"
    and "sort (take DIFFICULTY_WINDOW ts) = s"
    and "difficulty_cut (length (take DIFFICULTY_WINDOW ts)) = (b, e)"
    and "\<not> length (take DIFFICULTY_WINDOW cds) < e"
    and "(if s ! (e - 1) - s ! b = 0 then 1 else s ! (e - 1) - s ! b) = sp"
    and "take DIFFICULTY_WINDOW cds ! (e - 1) - take DIFFICULTY_WINDOW cds ! b = w"
    and "unat sp = diff_span ts" and "0 < diff_span ts" and "diff_span ts < 2 ^ 64"
    and "unat w = diff_work cds"
proof -
  define n where "n = min DIFFICULTY_WINDOW (length ts)"
  obtain b e where be: "difficulty_cut n = (b, e)" by fastforce
  have n: "2 \<le> n" "n \<le> DIFFICULTY_WINDOW" "n \<le> length ts" using assms(1) by (auto simp: n_def DIFFICULTY_WINDOW_def)
  have rng: "b + 2 \<le> e" "e \<le> n" using difficulty_cut_in_range [OF n(1,2) be] by auto
  define s where "s = sort (take DIFFICULTY_WINDOW ts)"
  have lens: "length (take DIFFICULTY_WINDOW ts) = n" "length (take DIFFICULTY_WINDOW cds) = n" "length s = n"
    using assms(2) by (auto simp: n_def s_def)
  have "difficulty_cut (length s) = (b, e)" using be lens by simp
  note span = time_span_value [OF assms(1) this s_def]
  define w where "w = take DIFFICULTY_WINDOW cds ! (e - 1) - take DIFFICULTY_WINDOW cds ! b"
  have "w = cds ! (e - 1) - cds ! b" using rng n by (simp add: w_def)
  moreover have "unat (cds ! (e - 1) - cds ! b) = unat (cds ! (e - 1)) - unat (cds ! b)"
    using rng n assms(2) by (intro sorted_word_nth_diff assms(3)) auto
  ultimately have w: "unat w = diff_work cds"
    using be by (simp add: diff_work_def n_def [symmetric] assms(2))
  show ?thesis
    by (rule that [of s b e]) (use lens n rng be span w assms(2) in \<open>auto simp: s_def w_def\<close>)
qed

lemma next_difficulty_value:
  fixes cds :: "u128 list" and t :: u64
  assumes "2 \<le> length ts" and "length cds = length ts" and "sorted cds"
  defines "q \<equiv> (diff_work cds * unat t + diff_span ts - 1) div diff_span ts"
  shows "next_difficulty ts cds t = Some (if q < 2 ^ 128 then of_nat q else 0)"
proof -
  obtain b e s sp w where win: "(if DIFFICULTY_WINDOW < length ts
      then (resize DIFFICULTY_WINDOW 0 ts, resize DIFFICULTY_WINDOW 0 cds) else (ts, cds))
        = (take DIFFICULTY_WINDOW ts, take DIFFICULTY_WINDOW cds)"
    "\<not> length (take DIFFICULTY_WINDOW ts) \<le> 1"
    "sort (take DIFFICULTY_WINDOW ts) = s"
    "difficulty_cut (length (take DIFFICULTY_WINDOW ts)) = (b, e)"
    "\<not> length (take DIFFICULTY_WINDOW cds) < e"
    "(if s ! (e - 1) - s ! b = 0 then 1 else s ! (e - 1) - s ! b) = sp"
    "take DIFFICULTY_WINDOW cds ! (e - 1) - take DIFFICULTY_WINDOW cds ! b = w"
    and sp: "unat sp = diff_span ts" "0 < diff_span ts" "diff_span ts < 2 ^ 64"
    and w: "unat w = diff_work cds"
    by (rule difficulty_window [OF assms(1-3)])
  define R :: u256 where "R = (ucast w * ucast t + ucast sp - 1) div ucast sp"
  have nd: "next_difficulty ts cds t = (if R > ucast (- 1 :: u128) then Some 0 else Some (ucast R))"
    unfolding next_difficulty_def R_def by (simp only: win Let_def prod.case if_False)
  have up: "unat (ucast w :: u256) = unat w" "unat (ucast t :: u256) = unat t" "unat (ucast sp :: u256) = unat sp"
    by (simp_all add: unat_ucast_up)
  have prod: "unat w * unat t < 2 ^ 128 * 2 ^ 64"
    using unat_bound [of w] unat_bound [of t] by (intro mult_strict_mono) auto
  then have "unat (ucast w * ucast t :: u256) = unat w * unat t" by (simp add: up)
  then have "unat (ucast w * ucast t + ucast sp :: u256) = unat w * unat t + unat sp"
    using prod sp(3) by (simp add: up sp(1))
  then have "unat (ucast w * ucast t + ucast sp - 1 :: u256) = unat w * unat t + unat sp - 1"
    using sp(1,2) by (subst unat_minus_one) (auto simp: unat_eq_zero [symmetric])
  then have R: "unat R = q" unfolding R_def q_def unat_div_distrib up by (simp add: w sp(1))
  have m: "unat (ucast (- 1 :: u128) :: u256) = 2 ^ 128 - 1" by (simp add: unat_ucast_up unat_max_word)
  show ?thesis
  proof (cases "q < 2 ^ 128")
    case True
    then have "ucast R = (of_nat q :: u128)" using R by (simp add: word_unat_eq_iff unat_ucast_mod unat_of_nat)
    then show ?thesis using True R m unfolding nd word_less_nat_alt by auto
  next
    case False
    then show ?thesis using R m unfolding nd word_less_nat_alt by auto
  qed
qed

lemma next_difficulty_64_value:
  fixes cds :: "u64 list" and t :: u64
  assumes "2 \<le> length ts" and "length cds = length ts" and "sorted cds"
  defines "m \<equiv> diff_work cds * unat t + diff_span ts - 1"
  shows "next_difficulty_64 ts cds t = Some (if m < 2 ^ 64 then of_nat (m div diff_span ts) else 0)"
proof -
  obtain b e s sp w where win: "(if DIFFICULTY_WINDOW < length ts
      then (resize DIFFICULTY_WINDOW 0 ts, resize DIFFICULTY_WINDOW 0 cds) else (ts, cds))
        = (take DIFFICULTY_WINDOW ts, take DIFFICULTY_WINDOW cds)"
    "\<not> length (take DIFFICULTY_WINDOW ts) \<le> 1"
    "sort (take DIFFICULTY_WINDOW ts) = s"
    "difficulty_cut (length (take DIFFICULTY_WINDOW ts)) = (b, e)"
    "\<not> length (take DIFFICULTY_WINDOW cds) < e"
    "(if s ! (e - 1) - s ! b = 0 then 1 else s ! (e - 1) - s ! b) = sp"
    "take DIFFICULTY_WINDOW cds ! (e - 1) - take DIFFICULTY_WINDOW cds ! b = w"
    and sp: "unat sp = diff_span ts" "0 < diff_span ts" "diff_span ts < 2 ^ 64"
    and w: "unat w = diff_work cds"
    by (rule difficulty_window [OF assms(1-3)])
  obtain low high where lh: "mul w t = (low, high)" by fastforce
  have nd: "next_difficulty_64 ts cds t =
      (if high \<noteq> 0 \<or> low + sp - 1 < low then Some 0 else Some ((low + sp - 1) div sp))"
    unfolding next_difficulty_64_def by (simp only: win lh Let_def prod.case if_False)
  have prod: "unat high * 2 ^ 64 + unat low = diff_work cds * unat t"
    using mul_correct [OF lh] w by simp
  have lsp: "low + sp - 1 = low + (sp - 1)" by simp
  have sp1: "unat (sp - 1) = diff_span ts - 1"
    using sp by (subst unat_minus_one) (auto simp: unat_eq_zero [symmetric])
  have ov: "low + sp - 1 < low \<longleftrightarrow> 2 ^ 64 \<le> unat low + (diff_span ts - 1)"
    unfolding lsp add_carry_iff sp1 by simp
  show ?thesis
  proof (cases "m < 2 ^ 64")
    case True
    then have h: "high = 0" using prod sp(2) unfolding m_def by (simp add: unat_eq_zero [symmetric])
    then have l: "unat low = diff_work cds * unat t" using prod by simp
    have v: "unat (low + sp - 1) = m"
      unfolding lsp using True sp(2) by (simp add: sp1 l m_def)
    have "m div diff_span ts < 2 ^ 64" using True by (meson div_le_dividend le_less_trans)
    then have "(low + sp - 1) div sp = of_nat (m div diff_span ts)"
      unfolding word_unat_eq_iff unat_div_distrib v sp(1) by (simp add: unat_of_nat)
    then show ?thesis using True h ov l sp(2) unfolding nd m_def by auto
  next
    case False
    then show ?thesis using prod ov sp(2) unfolding nd m_def
      by (auto simp: unat_eq_zero [symmetric])
  qed
qed

lemma diff_work_ucast: "diff_work (map (ucast :: u64 \<Rightarrow> u128) cds) = diff_work cds" if "2 \<le> length cds"
proof -
  obtain b e where be: "difficulty_cut (min DIFFICULTY_WINDOW (length cds)) = (b, e)" by fastforce
  have "b + 2 \<le> e \<and> e \<le> min DIFFICULTY_WINDOW (length cds)"
    using that be by (intro difficulty_cut_in_range) (auto simp: DIFFICULTY_WINDOW_def)
  then have "b < length cds" "e - 1 < length cds" by auto
  then show ?thesis using be by (simp add: diff_work_def unat_ucast_up)
qed

text \<open>C1. Proof of work: a 32 byte hash meets a 128 bit difficulty exactly when the little-endian value
  of the hash times the difficulty stays below 2^256, both on the 64 bit path, which works with
  carries between 64 bit words, and on the 128 bit path.\<close>
theorem check_hash_exact:
  assumes "length hash = 32"
  shows "check_hash hash difficulty \<longleftrightarrow> le_nat hash * unat difficulty < 2 ^ 256"
  using assms by (rule check_hash_correct)

theorem check_hash_exact_witness:
  "check_hash (replicate 31 0 @ [128]) 1 \<and> \<not> check_hash (replicate 31 0 @ [128]) 2"
proof -
  have v: "le_nat (replicate 31 0 @ [128]) = 2 ^ 255"
    by (simp add: le_nat_append le_nat_zeros)
  have l: "length (replicate 31 (0 :: u8) @ [128]) = 32" by simp
  show ?thesis unfolding check_hash_exact [OF l] v by simp
qed






text \<open>C25. The two wide multiplications of the program agree: \<open>mul\<close> of difficulty.cpp, which splits
  its operands into 32 bit halves, and \<open>mul128\<close> of int-util.h return the same low and high word,
  and those words are the exact 128 bit product.\<close>
theorem mul_eq_mul128:
  "mul a b = mul128 a b \<and>
   unat (snd (mul a b)) * 2 ^ 64 + unat (fst (mul a b)) = unat a * unat b"
proof -
  obtain l h l' h' where m: "mul a b = (l, h)" "mul128 a b = (l', h')" by fastforce
  have "l = l'" using m64.wmul_low [OF m(1)] m128.wmul_low [OF m(2)] by simp
  moreover have "h = h'" using m64.wmul_words(1) [OF m(1)] m128.wmul_words(1) [OF m(2)] by (simp add: word_unat_eq_iff)
  ultimately show ?thesis using m m64.wmul_exact [OF m(1)] by simp
qed

end
