(* ===== verification/Median.thy ===== *)
theory Median
  imports Cpp_Prelude "HOL-Library.Multiset"
begin

text \<open>
  The median of \<open>contrib/epee/include/misc_language.h\<close>: \<open>get_mid\<close>, the average of two words
  without overflow, and \<open>median\<close>, which sorts a vector and takes its middle. The lemmas say that
  \<open>get_mid\<close> is the exact floor of the average and that at least half of the items lie on each
  side of the median.
\<close>

definition get_mid :: "'a::len word \<Rightarrow> 'a word \<Rightarrow> 'a word" where
  "get_mid a b = (a div 2) + (b div 2) + ((a - 2 * (a div 2)) + (b - 2 * (b div 2))) div 2"

definition median :: "'a::len word list \<Rightarrow> 'a word" where
  "median v =
     (if v = [] then 0
      else if length v = 1 then v ! 0
      else
        let n = length v div 2; v = sort v
        in if length v mod 2 \<noteq> 0 then v ! n else get_mid (v ! (n - 1)) (v ! n))"

lemma get_mid_average:
  fixes a b :: u64
  shows "unat (get_mid a b) = (unat a + unat b) div 2"
proof -
  have half: "unat (x div 2) = unat x div 2" for x :: u64 by (simp add: unat_div_distrib)
  have rest: "unat (x - 2 * (x div 2)) = unat x mod 2" for x :: u64
  proof -
    have "x - 2 * (x div 2) = x mod 2" by (simp add: minus_mult_div_eq_mod)
    then show ?thesis by (simp add: unat_mod_distrib)
  qed
  have "unat ((a - 2 * (a div 2)) + (b - 2 * (b div 2))) = unat a mod 2 + unat b mod 2"
    using rest [of a] rest [of b] by simp
  then have "unat (((a - 2 * (a div 2)) + (b - 2 * (b div 2))) div 2) = (unat a mod 2 + unat b mod 2) div 2"
    by (simp add: unat_div_distrib)
  moreover have s: "(unat a + unat b) div 2 = unat a div 2 + unat b div 2 + (unat a mod 2 + unat b mod 2) div 2"
    by (metis div_add1_eq)
  moreover have "unat a < 2 ^ 64" "unat b < 2 ^ 64" using unat_bound [of a] unat_bound [of b] by simp_all
  moreover have "(unat a + unat b) div 2 < 2 ^ 64" using calculation(3,4) by simp
  moreover have "unat (a div 2 + b div 2) = unat a div 2 + unat b div 2"
  proof -
    have "unat (a div 2) + unat (b div 2) < 2 ^ LENGTH(64)"
      using calculation half [of a] half [of b] by simp
    then show ?thesis using half [of a] half [of b] by (metis unat_add_noov)
  qed
  ultimately show ?thesis
    unfolding get_mid_def by (simp add: unat_add_noov)
qed

lemma get_mid_between:
  fixes a b :: u64
  assumes "a \<le> b"
  shows "a \<le> get_mid a b" and "get_mid a b \<le> b"
  using assms unfolding word_le_nat_alt get_mid_average by simp_all

lemma sorted_filter_le:
  assumes "sorted s" and "k < length s" and "s ! k \<le> v"
  shows "Suc k \<le> length (filter (\<lambda>x. x \<le> v) s)"
proof -
  have "\<forall>x \<in> set (take (Suc k) s). x \<le> v"
  proof
    fix x assume "x \<in> set (take (Suc k) s)"
    then obtain i where "i \<le> k" "x = s ! i" using assms(2) by (auto simp: in_set_conv_nth less_Suc_eq_le)
    then show "x \<le> v" using sorted_nth_mono [OF assms(1), of i k] assms(2,3) by simp
  qed
  then have "filter (\<lambda>x. x \<le> v) (take (Suc k) s) = take (Suc k) s" by simp
  moreover have "filter (\<lambda>x. x \<le> v) s = filter (\<lambda>x. x \<le> v) (take (Suc k) s) @ filter (\<lambda>x. x \<le> v) (drop (Suc k) s)"
    by (metis append_take_drop_id filter_append)
  ultimately show ?thesis using assms(2) by simp
qed

lemma sorted_filter_ge:
  assumes "sorted s" and "k < length s" and "v \<le> s ! k"
  shows "length s - k \<le> length (filter (\<lambda>x. v \<le> x) s)"
proof -
  have "\<forall>x \<in> set (drop k s). v \<le> x"
  proof
    fix x assume "x \<in> set (drop k s)"
    then obtain i where "i < length s - k" "x = s ! (k + i)" using assms(2) by (auto simp: in_set_conv_nth)
    then have "k + i < length s" by simp
    then show "v \<le> x" using sorted_nth_mono [OF assms(1), of k "k + i"] assms(3) \<open>x = s ! (k + i)\<close> by simp
  qed
  then have "filter (\<lambda>x. v \<le> x) (drop k s) = drop k s" by simp
  moreover have "filter (\<lambda>x. v \<le> x) s = filter (\<lambda>x. v \<le> x) (take k s) @ filter (\<lambda>x. v \<le> x) (drop k s)"
    by (metis append_take_drop_id filter_append)
  ultimately show ?thesis using assms(2) by simp
qed

lemma length_filter_sort: "length (filter P (sort xs)) = length (filter P xs)"
  by (metis mset_filter mset_sort size_mset)

lemma median_halves:
  fixes xs :: "u64 list"
  assumes "xs \<noteq> []"
  shows "length xs \<le> 2 * length (filter (\<lambda>x. x \<le> median xs) xs)"
    and "length xs \<le> 2 * length (filter (\<lambda>x. median xs \<le> x) xs)"
proof -
  define s where "s = sort xs"
  define n where "n = length xs div 2"
  have s: "sorted s" "length s = length xs" by (simp_all add: s_def)
  have "length xs \<le> 2 * length (filter (\<lambda>x. x \<le> median xs) s) \<and>
        length xs \<le> 2 * length (filter (\<lambda>x. median xs \<le> x) s)"
  proof (cases "length xs mod 2 = 0")
    case True
    then have l: "length xs = 2 * n" unfolding n_def by presburger
    moreover have "0 < length xs" using assms by simp
    ultimately have "1 \<le> n" "n < length xs" by linarith+
    note n = this l
    have m: "median xs = get_mid (s ! (n - 1)) (s ! n)"
      using assms True by (auto simp: median_def s_def n_def Let_def)
    have "s ! (n - 1) \<le> s ! n" using n s by (intro sorted_nth_mono) auto
    then have "s ! (n - 1) \<le> median xs" "median xs \<le> s ! n" unfolding m by (rule get_mid_between)+
    then have "Suc (n - 1) \<le> length (filter (\<lambda>x. x \<le> median xs) s)"
      and "length s - n \<le> length (filter (\<lambda>x. median xs \<le> x) s)"
      using n s sorted_filter_le [of s "n - 1"] sorted_filter_ge [of s n] by simp_all
    then show ?thesis using n s by simp
  next
    case False
    then have n: "n < length xs" "length xs = 2 * n + 1" unfolding n_def by (auto, presburger)
    have m: "median xs = s ! n"
    proof (cases "length xs = 1")
      case True
      then show ?thesis using n by (auto simp: median_def s_def length_Suc_conv)
    next
      case F: False
      then show ?thesis using False assms by (simp add: median_def s_def n_def Let_def)
    qed
    have "Suc n \<le> length (filter (\<lambda>x. x \<le> median xs) s)"
      and "length s - n \<le> length (filter (\<lambda>x. median xs \<le> x) s)"
      using n s m sorted_filter_le [of s n] sorted_filter_ge [of s n] by simp_all
    then show ?thesis using n s by simp
  qed
  then show "length xs \<le> 2 * length (filter (\<lambda>x. x \<le> median xs) xs)"
    and "length xs \<le> 2 * length (filter (\<lambda>x. median xs \<le> x) xs)"
    by (simp_all add: s_def length_filter_sort)
qed
lemma sort_around:
  fixes xs :: "'a::linorder list"
  assumes "mset xs = mset (lo @ mid @ hi)" and "sorted mid"
    and "\<forall>a \<in> set lo. \<forall>b \<in> set mid. a \<le> b" and "\<forall>a \<in> set mid. \<forall>b \<in> set hi. a \<le> b" and "mid \<noteq> []"
  shows "sort xs = sort lo @ mid @ sort hi"
proof (rule properties_for_sort)
  show "mset (sort lo @ mid @ sort hi) = mset xs" using assms(1) by simp
  have "\<forall>a \<in> set lo. \<forall>b \<in> set hi. a \<le> b"
    using assms(3,4,5) by (metis hd_in_set order_trans)
  then show "sorted (sort lo @ mid @ sort hi)"
    using assms(2,3,4) by (auto simp: sorted_append)
qed

lemma median_odd:
  assumes "mset xs = mset (lo @ [v] @ hi)" and "length lo = length hi"
    and "\<forall>a \<in> set lo. a \<le> v" and "\<forall>b \<in> set hi. v \<le> b"
  shows "median xs = v"
proof -
  have len: "length xs = 2 * length lo + 1" using arg_cong [OF assms(1), of size] assms(2) by simp
  have s: "sort xs = sort lo @ [v] @ sort hi" using assms by (intro sort_around) auto
  show ?thesis
  proof (cases "length lo = 0")
    case True
    then have "xs = [v]" using assms(1,2) by simp
    then show ?thesis by (simp add: median_def)
  next
    case False
    have "length xs div 2 = length lo" "length xs \<noteq> 1" "xs \<noteq> []" using len False by auto
    moreover have "length (sort lo @ [v] @ sort hi) mod 2 \<noteq> 0" using assms(2) by simp presburger
    ultimately show ?thesis by (simp add: median_def Let_def s nth_append)
  qed
qed

lemma median_even:
  assumes "mset xs = mset (lo @ [u, v] @ hi)" and "length lo = length hi" and "u \<le> v"
    and "\<forall>a \<in> set lo. a \<le> u" and "\<forall>b \<in> set hi. v \<le> b"
  shows "median xs = get_mid u v"
proof -
  have len: "length xs = 2 * length lo + 2" using arg_cong [OF assms(1), of size] assms(2) by simp
  have s: "sort xs = sort lo @ [u, v] @ sort hi" using assms by (intro sort_around) (auto intro: order_trans)
  have "length xs div 2 = Suc (length lo)" "length xs \<noteq> 1" "xs \<noteq> []" "even (length xs)" using len by auto
  then show ?thesis using assms(2) by (simp add: median_def Let_def s nth_append flip: mult_2)
qed

end
