(* ===== verification/Emission.thy ===== *)
theory Emission
  imports Int_Util Median
begin

text \<open>
  Emission: the block reward and its penalty for large blocks, \<open>get_min_block_weight\<close> and
  \<open>get_block_reward\<close> of \<open>src/cryptonote_basic/cryptonote_basic_impl.cpp\<close>, the constants of
  \<open>src/cryptonote_config.h\<close>, and the running total of generated coins of
  \<open>Blockchain::handle_block_to_main_chain\<close>. \<open>size_t\<close> is 64 bits wide. A refused block weight
  (the function returns \<open>false\<close>) is \<open>None\<close>; the logging is left out.
\<close>

section \<open>The code\<close>

definition MONEY_SUPPLY :: u64 where "MONEY_SUPPLY = 2000440737095516150"
definition EMISSION_SPEED_FACTOR_PER_MINUTE :: nat where "EMISSION_SPEED_FACTOR_PER_MINUTE = 18"
definition FINAL_SUBSIDY_PER_MINUTE :: u64 where "FINAL_SUBSIDY_PER_MINUTE = 300000000"
definition DIFFICULTY_TARGET_V1 :: nat where "DIFFICULTY_TARGET_V1 = 60"
definition DIFFICULTY_TARGET_V2 :: nat where "DIFFICULTY_TARGET_V2 = 120"
definition CRYPTONOTE_BLOCK_GRANTED_FULL_REWARD_ZONE_V1 :: u64 where
  "CRYPTONOTE_BLOCK_GRANTED_FULL_REWARD_ZONE_V1 = 20000"
definition CRYPTONOTE_BLOCK_GRANTED_FULL_REWARD_ZONE_V2 :: u64 where
  "CRYPTONOTE_BLOCK_GRANTED_FULL_REWARD_ZONE_V2 = 60000"
definition CRYPTONOTE_BLOCK_GRANTED_FULL_REWARD_ZONE_V5 :: u64 where
  "CRYPTONOTE_BLOCK_GRANTED_FULL_REWARD_ZONE_V5 = 300000"
definition premine :: u64 where "premine = 1920000000000000000"

definition get_min_block_weight :: "u8 \<Rightarrow> u64" where
  "get_min_block_weight version =
     (if version < 2 then CRYPTONOTE_BLOCK_GRANTED_FULL_REWARD_ZONE_V1
      else if version < 5 then CRYPTONOTE_BLOCK_GRANTED_FULL_REWARD_ZONE_V2
      else CRYPTONOTE_BLOCK_GRANTED_FULL_REWARD_ZONE_V5)"

definition get_target_minutes :: "u8 \<Rightarrow> nat" where
  "get_target_minutes version =
     (if version < 2 then DIFFICULTY_TARGET_V1 else DIFFICULTY_TARGET_V2) div 60"

definition get_base_reward :: "u64 \<Rightarrow> u8 \<Rightarrow> u64" where
  "get_base_reward already_generated_coins version =
     (let target_minutes = get_target_minutes version;
          emission_speed_factor = EMISSION_SPEED_FACTOR_PER_MINUTE - (target_minutes - 1);
          base_reward = drop_bit emission_speed_factor (MONEY_SUPPLY - already_generated_coins)
      in if base_reward < FINAL_SUBSIDY_PER_MINUTE * of_nat target_minutes
         then FINAL_SUBSIDY_PER_MINUTE * of_nat target_minutes
         else base_reward)"

definition get_block_reward :: "u64 \<Rightarrow> u64 \<Rightarrow> u64 \<Rightarrow> u8 \<Rightarrow> u64 option" where
  "get_block_reward median_weight current_block_weight already_generated_coins version =
     (if already_generated_coins = 0 then Some premine
      else
        let base_reward = get_base_reward already_generated_coins version;
            full_reward_zone = get_min_block_weight version;
            median_weight = (if median_weight < full_reward_zone then full_reward_zone else median_weight)
        in if current_block_weight \<le> median_weight then Some base_reward
           else if current_block_weight > 2 * median_weight then None
           else
             let multiplicand = (2 * median_weight - current_block_weight) * current_block_weight;
                 (product_lo, product_hi) = mul128 base_reward multiplicand;
                 (reward_hi, reward_lo, _, _) = div128_64 product_hi product_lo median_weight;
                 (reward_hi, reward_lo, _, _) = div128_64 reward_hi reward_lo median_weight
             in Some reward_lo)"

definition next_already_generated_coins :: "u64 \<Rightarrow> u64 \<Rightarrow> u64" where
  "next_already_generated_coins already_generated_coins base_reward =
     (if base_reward < MONEY_SUPPLY - already_generated_coins
      then already_generated_coins + base_reward else MONEY_SUPPLY)"

section \<open>Properties\<close>

lemma base_reward_cases:
  "get_base_reward a v = max (drop_bit (18 - (get_target_minutes v - 1)) (MONEY_SUPPLY - a))
                             (FINAL_SUBSIDY_PER_MINUTE * of_nat (get_target_minutes v))"
  unfolding get_base_reward_def Let_def EMISSION_SPEED_FACTOR_PER_MINUTE_def max_def by auto

lemma target_minutes_cases: "get_target_minutes v = (if v < 2 then 1 else 2)"
  by (simp add: get_target_minutes_def DIFFICULTY_TARGET_V1_def DIFFICULTY_TARGET_V2_def)

lemma unat_supply_sub:
  assumes "a \<le> MONEY_SUPPLY"
  shows "unat (MONEY_SUPPLY - a) = unat MONEY_SUPPLY - unat a"
  using assms by (simp add: unat_sub)

lemma base_reward_antimono:
  assumes "a \<le> b" and "b \<le> MONEY_SUPPLY"
  shows "get_base_reward b v \<le> get_base_reward a v"
proof -
  have "drop_bit k (MONEY_SUPPLY - b) \<le> drop_bit k (MONEY_SUPPLY - a)" for k
    using assms unfolding word_le_nat_alt unat_shiftr
    by (simp add: unat_supply_sub word_le_nat_alt div_le_mono)
  then show ?thesis unfolding base_reward_cases by (meson max.mono order_refl)
qed

lemma base_reward_tail: "get_base_reward MONEY_SUPPLY v = FINAL_SUBSIDY_PER_MINUTE * of_nat (get_target_minutes v)"
  unfolding base_reward_cases by simp

lemma div_twice_exact:
  assumes "mul128 b x = (lo, hi)" and "div128_64 hi lo m = (h1, l1, u1, u2)"
    and "div128_64 h1 l1 m = (h2, l2, u3, u4)"
  shows "unat h2 * 2 ^ 64 + unat l2 = unat b * unat x div (unat m * unat m)"
  using mul128_correct [OF assms(1)] div128_64_correct(1) [OF assms(2)] div128_64_correct(1) [OF assms(3)]
  by (simp add: div_mult2_eq)

definition effective_median :: "u64 \<Rightarrow> u8 \<Rightarrow> u64" where
  "effective_median median_weight version = max median_weight (get_min_block_weight version)"

lemma effective_median_pos: "0 < unat (effective_median m v)"
proof -
  have "0 < unat (get_min_block_weight v)"
    by (simp add: get_min_block_weight_def CRYPTONOTE_BLOCK_GRANTED_FULL_REWARD_ZONE_V1_def
        CRYPTONOTE_BLOCK_GRANTED_FULL_REWARD_ZONE_V2_def CRYPTONOTE_BLOCK_GRANTED_FULL_REWARD_ZONE_V5_def)
  moreover have "unat (get_min_block_weight v) \<le> unat (effective_median m v)"
    unfolding effective_median_def by (simp flip: word_le_nat_alt)
  ultimately show ?thesis by simp
qed

lemma penalty_square:
  fixes m c :: nat
  assumes "m \<le> c" and "c \<le> 2 * m"
  shows "(2 * m - c) * c + (c - m) * (c - m) = m * m"
proof -
  define k j where "k = c - m" and "j = 2 * m - c"
  have "c = 2 * k + j" "m = k + j" using assms by (auto simp: k_def j_def)
  then have "j * c + k * k = m * m" by (simp add: algebra_simps)
  then show ?thesis by (simp add: k_def j_def)
qed

lemma reward_branch:
  assumes "a \<noteq> 0"
  shows "get_block_reward med c a v =
    (let m = effective_median med v; b = get_base_reward a v in
     if c \<le> m then Some b else if c > 2 * m then None
     else case mul128 b ((2 * m - c) * c) of (lo, hi) \<Rightarrow> case div128_64 hi lo m of (h1, l1, _, _) \<Rightarrow>
          case div128_64 h1 l1 m of (h2, l2, _, _) \<Rightarrow> Some l2)"
proof -
  have m: "(if med < get_min_block_weight v then get_min_block_weight v else med) = effective_median med v"
    by (auto simp: effective_median_def max_def)
  show ?thesis unfolding get_block_reward_def Let_def m using assms by simp
qed

lemma double_median:
  assumes "unat (m :: u64) < 2 ^ 32"
  shows "unat (2 * m) = 2 * unat m"
  using assms by (subst unat_mult_noov) auto

lemma penalty_multiplicand:
  fixes m c :: u64
  assumes "unat m < 2 ^ 32" and "m < c" and "c \<le> 2 * m"
  shows "unat ((2 * m - c) * c) = (2 * unat m - unat c) * unat c"
proof -
  have s: "unat (2 * m - c) = 2 * unat m - unat c"
    using assms double_median by (simp add: unat_sub)
  have "unat m \<le> unat c" "unat c \<le> 2 * unat m"
    using assms double_median [OF assms(1)] by (auto simp: word_le_nat_alt word_less_nat_alt)
  from penalty_square [OF this] have "(2 * unat m - unat c) * unat c \<le> unat m * unat m" by linarith
  moreover have "unat m * unat m < 2 ^ 32 * 2 ^ 32" using assms(1) by (intro mult_strict_mono) auto
  ultimately have "unat (2 * m - c) * unat c < 2 ^ LENGTH(64)" unfolding s by simp
  then show ?thesis unfolding s [symmetric] by (rule unat_mult_noov)
qed

lemma block_reward_value:
  assumes "a \<noteq> 0" and "unat (effective_median med v) < 2 ^ 32"
  defines "m \<equiv> unat (effective_median med v)" and "b \<equiv> unat (get_base_reward a v)"
  shows "map_option unat (get_block_reward med c a v) =
    (if unat c \<le> m then Some b
     else if unat c \<le> 2 * m then Some (b * ((2 * m - unat c) * unat c) div (m * m))
     else None)"
proof -
  let ?m = "effective_median med v" and ?b = "get_base_reward a v"
  have d: "unat (2 * ?m) = 2 * m" using double_median [OF assms(2)] by (simp add: m_def)
  have le: "c \<le> ?m \<longleftrightarrow> unat c \<le> m" "2 * ?m < c \<longleftrightarrow> \<not> unat c \<le> 2 * m"
    by (simp_all add: word_le_nat_alt word_less_nat_alt d m_def not_le)
  show ?thesis
  proof (cases "m < unat c \<and> unat c \<le> 2 * m")
    case False
    then show ?thesis unfolding reward_branch [OF assms(1)] Let_def le by (auto simp: b_def)
  next
    case True
    obtain lo hi where 1: "mul128 ?b ((2 * ?m - c) * c) = (lo, hi)" by fastforce
    obtain h1 l1 u1 u2 where 2: "div128_64 hi lo ?m = (h1, l1, u1, u2)" by (metis prod_cases4)
    obtain h2 l2 u3 u4 where 3: "div128_64 h1 l1 ?m = (h2, l2, u3, u4)" by (metis prod_cases4)
    have x: "unat ((2 * ?m - c) * c) = (2 * m - unat c) * unat c"
      using penalty_multiplicand [OF assms(2), of c] True le by (simp add: m_def not_le)
    have q: "unat h2 * 2 ^ 64 + unat l2 = b * ((2 * m - unat c) * unat c) div (m * m)"
      using div_twice_exact [OF 1 2 3] unfolding x b_def m_def .
    have "(2 * m - unat c) * unat c \<le> m * m" using penalty_square [of m "unat c"] True by linarith
    then have "b * ((2 * m - unat c) * unat c) div (m * m) \<le> b * (m * m) div (m * m)"
      by (intro div_le_mono mult_le_mono2)
    also have "\<dots> \<le> b" by simp
    also have "b < 2 ^ 64" unfolding b_def using unat_bound [of ?b] by simp
    finally have "unat h2 * 2 ^ 64 < 2 ^ 64" unfolding q [symmetric] by linarith
    then have "h2 = 0" by (simp add: unat_eq_zero)
    then show ?thesis
      using True q unfolding reward_branch [OF assms(1)] Let_def le 1 2 3 prod.case by simp
  qed
qed

lemma penalty_antimono:
  fixes m c d :: nat
  assumes "m \<le> c" and "c \<le> d" and "d \<le> 2 * m"
  shows "(2 * m - d) * d \<le> (2 * m - c) * c"
proof -
  have "(c - m) * (c - m) \<le> (d - m) * (d - m)" using assms by (intro mult_le_mono) auto
  then show ?thesis using penalty_square [of m c] penalty_square [of m d] assms by linarith
qed


lemma block_reward_some_le:
  assumes "a \<noteq> 0" and "unat (effective_median med v) < 2 ^ 32"
    and "get_block_reward med c a v = Some r"
  shows "r \<le> get_base_reward a v"
proof -
  let ?m = "unat (effective_median med v)" and ?b = "unat (get_base_reward a v)"
  have "?b * ((2 * ?m - unat c) * unat c) div (?m * ?m) \<le> ?b" if "?m < unat c" "unat c \<le> 2 * ?m"
  proof -
    have "(2 * ?m - unat c) * unat c \<le> ?m * ?m" using penalty_square [of ?m "unat c"] that by linarith
    then have "?b * ((2 * ?m - unat c) * unat c) div (?m * ?m) \<le> ?b * (?m * ?m) div (?m * ?m)"
      by (intro div_le_mono mult_le_mono2)
    then show ?thesis using that by simp
  qed
  then show ?thesis
    using block_reward_value [OF assms(1,2), of c] assms(3)
    by (auto simp: word_le_nat_alt split: if_splits)
qed

lemma block_reward_antimono:
  assumes "a \<noteq> 0" and "unat (effective_median med v) < 2 ^ 32" and "c \<le> d"
    and "get_block_reward med c a v = Some r" and "get_block_reward med d a v = Some s"
  shows "s \<le> r"
proof (cases "c \<le> effective_median med v")
  case True
  then have "r = get_base_reward a v" using assms(4) reward_branch [OF assms(1)] by (simp add: Let_def)
  then show ?thesis using block_reward_some_le [OF assms(1,2,5)] by simp
next
  case False
  let ?m = "unat (effective_median med v)" and ?b = "unat (get_base_reward a v)"
  have "?m < unat c" "unat c \<le> unat d"
    using False assms(3) by (simp_all add: word_le_nat_alt)
  moreover from calculation have "unat d \<le> 2 * ?m"
    and s: "unat s = ?b * ((2 * ?m - unat d) * unat d) div (?m * ?m)"
    using block_reward_value [OF assms(1,2), of d] assms(5) by (auto split: if_splits)
  moreover from calculation have r: "unat r = ?b * ((2 * ?m - unat c) * unat c) div (?m * ?m)"
    using block_reward_value [OF assms(1,2), of c] assms(4) by (auto split: if_splits)
  ultimately have "unat s \<le> unat r"
    unfolding r s by (intro div_le_mono mult_le_mono2 penalty_antimono) auto
  then show ?thesis by (simp add: word_le_nat_alt)
qed

lemma next_coins_bounded:
  assumes "a \<le> MONEY_SUPPLY"
  shows "next_already_generated_coins a r \<le> MONEY_SUPPLY"
    and "a \<le> next_already_generated_coins a r"
    and "unat (next_already_generated_coins a r) = min (unat MONEY_SUPPLY) (unat a + unat r)"
proof -
  have s: "r < MONEY_SUPPLY - a \<longleftrightarrow> unat a + unat r < unat MONEY_SUPPLY"
    using assms by (auto simp: word_less_nat_alt word_le_nat_alt unat_supply_sub)
  have b: "unat MONEY_SUPPLY < 2 ^ LENGTH(64)" by (rule unat_bound)
  have "unat (a + r) = unat a + unat r" if "unat a + unat r < unat MONEY_SUPPLY"
    using that b by (intro unat_add_noov) linarith
  then show v: "unat (next_already_generated_coins a r) = min (unat MONEY_SUPPLY) (unat a + unat r)"
    unfolding next_already_generated_coins_def s by auto
  show "next_already_generated_coins a r \<le> MONEY_SUPPLY" by (simp add: word_le_nat_alt v)
  show "a \<le> next_already_generated_coins a r" using assms by (simp add: word_le_nat_alt v)
qed





end
