(* ===== verification/Sift_Heap.thy ===== *)
theory Sift_Heap
  imports Cpp_Prelude
begin

text \<open>
  Heaps in an array with the root at index 0 and a single child 1, as the rolling median keeps
  them: the children of \<open>i\<close> from 1 on are \<open>2 i\<close> and \<open>2 i + 1\<close>, the parent of \<open>i\<close> is \<open>i div 2\<close>.
  The comparison is the parameter of the locale \<open>strict_order\<close>, so that the lemmas serve the min
  heap and the max heap alike. \<open>sift_down\<close> and \<open>sift_up\<close> are the loops of the code on a bare
  array of values.
\<close>

locale strict_order =
  fixes lt :: "'a \<Rightarrow> 'a \<Rightarrow> bool"
  assumes lt_irrefl: "\<not> lt a a"
    and lt_trans: "lt a b \<Longrightarrow> lt b c \<Longrightarrow> lt a c"
    and lt_total: "a \<noteq> b \<Longrightarrow> lt a b \<or> lt b a"

definition exch :: "('i \<Rightarrow> 'a) \<Rightarrow> 'i \<Rightarrow> 'i \<Rightarrow> 'i \<Rightarrow> 'a" where
  "exch f i j = f(i := f j, j := f i)"

definition is_heap :: "('a \<Rightarrow> 'a \<Rightarrow> bool) \<Rightarrow> nat \<Rightarrow> (nat \<Rightarrow> 'a) \<Rightarrow> bool" where
  "is_heap lt n g \<longleftrightarrow> (\<forall>j. 1 \<le> j \<longrightarrow> j \<le> n \<longrightarrow> \<not> lt (g j) (g (j div 2)))"

definition heap_below :: "('a \<Rightarrow> 'a \<Rightarrow> bool) \<Rightarrow> nat \<Rightarrow> nat \<Rightarrow> (nat \<Rightarrow> 'a) \<Rightarrow> bool" where
  "heap_below lt n k g \<longleftrightarrow>
     (\<forall>j. 1 \<le> j \<longrightarrow> j \<le> n \<longrightarrow> j div 2 \<noteq> k \<longrightarrow> \<not> lt (g j) (g (j div 2))) \<and>
     (\<forall>j. 1 \<le> j \<longrightarrow> j \<le> n \<longrightarrow> j div 2 = k \<longrightarrow> \<not> lt (g j) (g (k div 2)))"

definition heap_above :: "('a \<Rightarrow> 'a \<Rightarrow> bool) \<Rightarrow> nat \<Rightarrow> nat \<Rightarrow> (nat \<Rightarrow> 'a) \<Rightarrow> bool" where
  "heap_above lt n k g \<longleftrightarrow>
     (\<forall>j. 1 \<le> j \<longrightarrow> j \<le> n \<longrightarrow> j \<noteq> k \<longrightarrow> \<not> lt (g j) (g (j div 2))) \<and>
     (\<forall>j. 1 \<le> j \<longrightarrow> j \<le> n \<longrightarrow> 1 \<le> k \<longrightarrow> j div 2 = k \<longrightarrow> \<not> lt (g j) (g (k div 2)))"

function sift_down :: "('a \<Rightarrow> 'a \<Rightarrow> bool) \<Rightarrow> nat \<Rightarrow> (nat \<Rightarrow> 'a) \<Rightarrow> nat \<Rightarrow> nat \<Rightarrow> 'a" where
  "sift_down lt n g i =
     (if 0 < i \<and> i \<le> n then
        let j = (if i < n \<and> lt (g (i + 1)) (g i) then i + 1 else i)
        in if lt (g j) (g (j div 2)) then sift_down lt n (exch g j (j div 2)) (2 * j) else g
      else g)"
  by auto
termination by (relation "measure (\<lambda>(lt, n, g, i). n + 1 - i)") auto

fun sift_up :: "('a \<Rightarrow> 'a \<Rightarrow> bool) \<Rightarrow> (nat \<Rightarrow> 'a) \<Rightarrow> nat \<Rightarrow> nat \<times> (nat \<Rightarrow> 'a)" where
  "sift_up lt g i =
     (if 0 < i \<and> lt (g i) (g (i div 2)) then sift_up lt (exch g i (i div 2)) (i div 2) else (i, g))"

definition least_child :: "('a \<Rightarrow> 'a \<Rightarrow> bool) \<Rightarrow> nat \<Rightarrow> (nat \<Rightarrow> 'a) \<Rightarrow> nat \<Rightarrow> nat" where
  "least_child lt n g i = (if i < n \<and> lt (g (i + 1)) (g i) then i + 1 else i)"

declare sift_down.simps [simp del] sift_up.simps [simp del]

context strict_order
begin

lemma not_lt_trans: "\<not> lt b a \<Longrightarrow> \<not> lt c b \<Longrightarrow> \<not> lt c a"
  by (metis lt_total lt_trans)

lemma lt_asym: "lt a b \<Longrightarrow> \<not> lt b a"
  by (meson lt_irrefl lt_trans)

lemma least_child:
  assumes "1 \<le> k" and "2 * k \<le> n"
  shows "least_child lt n g (2 * k) div 2 = k" and "least_child lt n g (2 * k) \<le> n"
    and "1 \<le> least_child lt n g (2 * k)"
    and "m div 2 = k \<Longrightarrow> m \<le> n \<Longrightarrow> \<not> lt (g m) (g (least_child lt n g (2 * k)))"
proof -
  show "least_child lt n g (2 * k) div 2 = k" "least_child lt n g (2 * k) \<le> n" "1 \<le> least_child lt n g (2 * k)"
    using assms by (auto simp: least_child_def)
  assume "m div 2 = k" "m \<le> n"
  then have "m = 2 * k \<or> m = 2 * k + 1" by presburger
  then show "\<not> lt (g m) (g (least_child lt n g (2 * k)))"
    using \<open>m \<le> n\<close> lt_irrefl lt_asym by (auto simp: least_child_def)
qed

lemma heap_below_step:
  assumes "1 \<le> k" and "heap_below lt n k g" and "2 * k \<le> n"
  defines "j \<equiv> least_child lt n g (2 * k)"
  assumes "lt (g j) (g k)"
  shows "heap_below lt n j (exch g j k)"
proof -
  have j: "j div 2 = k" "j \<le> n" "1 \<le> j" "\<And>m. m div 2 = k \<Longrightarrow> m \<le> n \<Longrightarrow> \<not> lt (g m) (g j)"
    using least_child [OF assms(1,3)] unfolding j_def by auto
  have jk: "j \<noteq> k" using j assms(1) by auto
  show ?thesis
    unfolding heap_below_def
  proof (intro conjI allI impI)
    fix m assume m: "1 \<le> m" "m \<le> n" "m div 2 \<noteq> j"
    consider "m = j" | "m \<noteq> j" "m div 2 = k" | "m = k" | "m \<noteq> k" "m div 2 \<noteq> k" by blast
    then show "\<not> lt (exch g j k m) (exch g j k (m div 2))"
    proof cases
      case 1
      then show ?thesis using j jk assms(5) lt_asym by (auto simp: exch_def)
    next
      case 2
      then show ?thesis using m j jk assms(1) by (auto simp: exch_def)
    next
      case 3
      then have "m div 2 \<noteq> k" using assms(1) by auto
      then show ?thesis using m 3 j jk assms(2) by (auto simp: exch_def heap_below_def)
    next
      case 4
      then have "m \<noteq> j" using j by auto
      then show ?thesis using m 4 j jk assms(2) by (auto simp: exch_def heap_below_def)
    qed
  next
    fix m assume m: "1 \<le> m" "m \<le> n" "m div 2 = j"
    then have "k < j" "j < m" using j assms(1) by auto
    then have "m \<noteq> j" "m \<noteq> k" by auto
    then show "\<not> lt (exch g j k m) (exch g j k (j div 2))"
      using m j jk assms(2) by (auto simp: exch_def heap_below_def)
  qed
qed

lemma heap_below_stop:
  assumes "1 \<le> k" and "heap_below lt n k g"
    and "2 * k \<le> n \<Longrightarrow> \<not> lt (g (least_child lt n g (2 * k))) (g k)"
  shows "is_heap lt n g"
  unfolding is_heap_def
proof (intro allI impI)
  fix m assume m: "1 \<le> m" "m \<le> n"
  show "\<not> lt (g m) (g (m div 2))"
  proof (cases "m div 2 = k")
    case True
    then have "2 * k \<le> n" using m by auto
    then show ?thesis using True m assms(3) least_child(4) [OF assms(1)] not_lt_trans by blast
  next
    case False
    then show ?thesis using m assms(2) by (auto simp: heap_below_def)
  qed
qed

lemma sift_down_heap:
  assumes "1 \<le> k" and "heap_below lt n k g"
  shows "is_heap lt n (sift_down lt n g (2 * k))"
  using assms
proof (induction "n + 1 - k" arbitrary: k g rule: less_induct)
  case less
  define j where "j = least_child lt n g (2 * k)"
  show ?case
  proof (cases "2 * k \<le> n \<and> lt (g j) (g k)")
    case True
    then have j: "j div 2 = k" "j \<le> n" "1 \<le> j"
      using least_child [OF less(2), where n = n and g = g] by (auto simp: j_def)
    then have "k < j" using less(2) by auto
    then have "is_heap lt n (sift_down lt n (exch g j k) (2 * j))"
      using j True heap_below_step [OF less(2,3)] by (intro less(1)) (auto simp: j_def)
    moreover have "sift_down lt n g (2 * k) = sift_down lt n (exch g j k) (2 * j)"
      using True j less(2) by (subst sift_down.simps) (simp add: Let_def j_def least_child_def)
    ultimately show ?thesis by simp
  next
    case False
    have "sift_down lt n g (2 * k) = g"
      using False less(2) by (subst sift_down.simps) (auto simp: Let_def j_def least_child_def)
    then show ?thesis using heap_below_stop [OF less(2,3)] False by (auto simp: j_def)
  qed
qed

lemma heap_above_step:
  assumes "1 \<le> k" and "k \<le> n" and "heap_above lt n k g" and "lt (g k) (g (k div 2))"
  shows "heap_above lt n (k div 2) (exch g k (k div 2))"
proof -
  define h where "h = k div 2"
  have hk: "h < k" using assms(1) by (simp add: h_def)
  have up: "\<not> lt (g m) (g (m div 2))" if "1 \<le> m" "m \<le> n" "m \<noteq> k" for m
    using assms(3) that by (auto simp: heap_above_def)
  have ch: "\<not> lt (g m) (g h)" if "1 \<le> m" "m \<le> n" "m div 2 = k" for m
    using assms(1,3) that by (auto simp: heap_above_def h_def)
  show ?thesis
    unfolding heap_above_def h_def [symmetric]
  proof (intro conjI allI impI)
    fix m assume m: "1 \<le> m" "m \<le> n" "m \<noteq> h"
    consider "m = k" | "m \<noteq> k" "m div 2 = k" | "m \<noteq> k" "m div 2 = h" | "m \<noteq> k" "m div 2 \<noteq> k" "m div 2 \<noteq> h"
      by blast
    then show "\<not> lt (exch g k h m) (exch g k h (m div 2))"
    proof cases
      case 1
      then show ?thesis using hk assms(4) lt_asym by (auto simp: exch_def h_def)
    next
      case 2
      then show ?thesis using m ch hk by (auto simp: exch_def)
    next
      case 3
      then have "\<not> lt (g m) (g h)" using m up [of m] by simp
      then show ?thesis using 3 m hk assms(4) lt_trans by (auto simp: exch_def h_def)
    next
      case 4
      then show ?thesis using m up by (auto simp: exch_def)
    qed
  next
    fix m assume m: "1 \<le> m" "m \<le> n" "1 \<le> h" "m div 2 = h"
    have hh: "\<not> lt (g h) (g (h div 2))" using up [of h] hk assms(2) m by simp
    have "h div 2 < h" "h < m" using m by auto
    then have "h div 2 \<noteq> h" "h div 2 \<noteq> k" "m \<noteq> h" using hk by auto
    moreover have "\<not> lt (g m) (g h)" if "m \<noteq> k" using that m up [of m] by simp
    ultimately show "\<not> lt (exch g k h m) (exch g k h (h div 2))"
      using hh not_lt_trans by (auto simp: exch_def)
  qed
qed

lemma sift_up_heap:
  assumes "k \<le> n" and "heap_above lt n k g" and "sift_up lt g k = (e, g')"
  shows "is_heap lt n g'"
  using assms
proof (induction k arbitrary: g rule: less_induct)
  case (less k)
  show ?case
  proof (cases "0 < k \<and> lt (g k) (g (k div 2))")
    case True
    then have "heap_above lt n (k div 2) (exch g k (k div 2))"
      using heap_above_step [of k n g] less(2,3) by simp
    moreover have "sift_up lt (exch g k (k div 2)) (k div 2) = (e, g')"
      using less(4) True by (subst (asm) sift_up.simps) simp
    ultimately show ?thesis using less(1) [of "k div 2"] True less(2) by simp
  next
    case False
    then have "g' = g" using less(4) by (subst (asm) sift_up.simps) auto
    then show ?thesis using less(3) False by (auto simp: is_heap_def heap_above_def)
  qed
qed

lemma sift_up_root:
  assumes "sift_up lt g k = (e, g')" and "0 < k"
  shows "(0 < e \<and> g' 0 = g 0) \<or> (e = 0 \<and> g' 0 = g k \<and> g' 1 = g 0 \<and> lt (g k) (g 0))"
  using assms
proof (induction k arbitrary: g rule: less_induct)
  case (less k)
  show ?case
  proof (cases "lt (g k) (g (k div 2))")
    case True
    then have eq: "sift_up lt (exch g k (k div 2)) (k div 2) = (e, g')"
      using less(2,3) by (subst (asm) sift_up.simps) simp
    show ?thesis
    proof (cases "k = 1")
      case T: True
      then have "e = 0" "g' = exch g 1 0" using eq by (simp_all add: sift_up.simps)
      then show ?thesis using T True by (simp add: exch_def)
    next
      case F: False
      then have "0 < k div 2" "k div 2 < k" using less(3) by auto
      moreover have "exch g k (k div 2) 0 = g 0" "exch g k (k div 2) (k div 2) = g k"
        using calculation by (auto simp: exch_def)
      ultimately show ?thesis using less(1) [OF _ eq] by simp
    qed
  next
    case False
    then show ?thesis using less(2,3) by (subst (asm) sift_up.simps) auto
  qed
qed

lemma sift_down_root:
  assumes "2 \<le> i"
  shows "sift_down lt n g i 0 = g 0"
  using assms
proof (induction "n + 1 - i" arbitrary: g i rule: less_induct)
  case less
  define j where "j = least_child lt n g i"
  have j: "i \<le> j" by (simp add: j_def least_child_def)
  show ?case
  proof (cases "i \<le> n \<and> lt (g j) (g (j div 2))")
    case True
    have "sift_down lt n (exch g j (j div 2)) (2 * j) 0 = exch g j (j div 2) 0"
      using less(2) j True by (intro less(1)) auto
    moreover have "sift_down lt n g i = sift_down lt n (exch g j (j div 2)) (2 * j)"
      using True less(2) by (subst sift_down.simps) (simp add: Let_def j_def least_child_def)
    moreover have "exch g j (j div 2) 0 = g 0" using less(2) j by (auto simp: exch_def)
    ultimately show ?thesis by simp
  next
    case False
    then show ?thesis
      by (subst sift_down.simps) (auto simp: Let_def j_def least_child_def)
  qed
qed

lemma heap_root:
  assumes "is_heap lt n g" and "j \<le> n"
  shows "\<not> lt (g j) (g 0)"
  using assms(2)
proof (induction j rule: less_induct)
  case (less j)
  then show ?case
    using assms(1) lt_irrefl not_lt_trans [of "g (j div 2)" "g 0" "g j"]
    by (cases "j = 0") (auto simp: is_heap_def)
qed

lemma heap_top:
  assumes "is_heap lt n g" and "1 \<le> j" and "j \<le> n"
  shows "\<not> lt (g j) (g 1)"
  using assms(2,3)
proof (induction j rule: less_induct)
  case (less j)
  show ?case
  proof (cases "j = 1")
    case False
    then have "\<not> lt (g (j div 2)) (g 1)" "\<not> lt (g j) (g (j div 2))"
      using less assms(1) by (auto simp: is_heap_def)
    then show ?thesis using not_lt_trans by blast
  qed (simp add: lt_irrefl)
qed

lemma heap_above_change:
  assumes "is_heap lt n g" and "\<not> lt (g k) x"
  shows "heap_above lt n k (g(k := x))"
proof -
  have h: "\<not> lt (g m) (g (m div 2))" if "1 \<le> m" "m \<le> n" for m
    using assms(1) that by (simp add: is_heap_def)
  have c: "\<not> lt (g m) x" if "1 \<le> m" "m \<le> n" "m div 2 = k" for m
    using h [OF that(1,2)] assms(2) not_lt_trans that(3) by blast
  have d: "\<not> lt (g m) (g (k div 2))" if "1 \<le> k" "m \<le> n" "m div 2 = k" for m
  proof -
    have "k \<le> n" "1 \<le> m" using that by auto
    then show ?thesis using h [of m] h [of k] not_lt_trans that by blast
  qed
  show ?thesis unfolding heap_above_def using h c d by auto
qed

lemma heap_above_grow:
  assumes "is_heap lt n g"
  shows "heap_above lt (Suc n) (Suc n) (g(Suc n := x))"
  using assms unfolding heap_above_def is_heap_def by auto

lemma heap_below_change:
  assumes "is_heap lt n g" and "lt (g k) x" and "1 \<le> k"
  shows "heap_below lt n k (g(k := x))"
proof -
  have h: "\<not> lt (g m) (g (m div 2))" if "1 \<le> m" "m \<le> n" for m
    using assms(1) that by (simp add: is_heap_def)
  have c: "\<not> lt x (g (k div 2))" if "k \<le> n"
    using h [OF assms(3) that] assms(2) lt_trans by blast
  have "k div 2 < k" using assms(3) by simp
  have d: "\<not> lt (g m) (g (k div 2))" if "m \<le> n" "m div 2 = k" for m
  proof -
    have "k \<le> n" "1 \<le> m" using that assms(3) by auto
    then show ?thesis using h [of m] h [of k] not_lt_trans that assms(3) by blast
  qed
  have e: "m \<noteq> k" if "m div 2 = k" for m using that assms(3) by auto
  show ?thesis unfolding heap_below_def
  proof (intro conjI allI impI)
    fix m assume m: "1 \<le> m" "m \<le> n" "m div 2 \<noteq> k"
    then show "\<not> lt ((g(k := x)) m) ((g(k := x)) (m div 2))"
      using h [of m] c by (cases "m = k") simp_all
  next
    fix m assume m: "1 \<le> m" "m \<le> n" "m div 2 = k"
    then show "\<not> lt ((g(k := x)) m) ((g(k := x)) (k div 2))"
      using d [of m] e [of m] \<open>k div 2 < k\<close> by simp
  qed
qed

lemma heap_below_exch_root:
  assumes "is_heap lt n (g(0 := y))" and "1 \<le> n" and "lt (g 1) (g 0)"
  shows "heap_below lt n 1 (exch g 0 1)"
proof -
  have h: "\<not> lt (g m) (g (m div 2))" if "2 \<le> m" "m \<le> n" for m
  proof -
    define q where "q = m div 2"
    have "q \<noteq> 0" "m \<noteq> 0" "1 \<le> m" using that by (auto simp: q_def)
    moreover have "\<not> lt ((g(0 := y)) m) ((g(0 := y)) q)"
      using assms(1) that unfolding is_heap_def q_def by auto
    ultimately show ?thesis by (simp add: q_def)
  qed
  show ?thesis unfolding heap_below_def
  proof (intro conjI allI impI)
    fix m assume m: "1 \<le> m" "m \<le> n" "m div 2 \<noteq> 1"
    show "\<not> lt (exch g 0 1 m) (exch g 0 1 (m div 2))"
    proof (cases "m = 1")
      case True
      then show ?thesis using assms(3) lt_asym by (simp add: exch_def)
    next
      case False
      define q where "q = m div 2"
      have "2 \<le> m" "q \<noteq> 0" "q \<noteq> 1" using m False by (auto simp: q_def)
      then show ?thesis using False m h [of m] by (simp add: exch_def flip: q_def)
    qed
  next
    fix m assume m: "1 \<le> m" "m \<le> n" "m div 2 = 1"
    then have "2 \<le> m" by auto
    then show "\<not> lt (exch g 0 1 m) (exch g 0 1 (1 div 2))"
      using m h [of m] by (auto simp: exch_def)
  qed
qed

lemma heap_new_root:
  assumes "is_heap lt n g" and "1 \<le> n \<Longrightarrow> \<not> lt (g 1) y"
  shows "is_heap lt n (g(0 := y))"
  unfolding is_heap_def
proof (intro allI impI)
  fix m assume m: "1 \<le> m" "m \<le> n"
  show "\<not> lt ((g(0 := y)) m) ((g(0 := y)) (m div 2))"
  proof (cases "m = 1")
    case False
    define q where "q = m div 2"
    have "q \<noteq> 0" using m False by (auto simp: q_def)
    moreover have "\<not> lt (g m) (g q)" using m assms(1) by (simp add: is_heap_def q_def)
    ultimately show ?thesis using m by (simp flip: q_def)
  qed (use assms(2) m in simp)
qed

end

end
