(* ===== verification/Rolling_Median.thy ===== *)
theory Rolling_Median
  imports Median Sift_Heap
begin

text \<open>
  The rolling median of \<open>contrib/epee/include/rolling_median.h\<close>: a circular queue \<open>data\<close> of \<open>N\<close>
  items with an indirect heap \<open>heap\<close>, whose positive indexes form a min heap, whose negative
  indexes form a max heap and whose index 0 holds the median; \<open>pos\<close> is the inverse of \<open>heap\<close>.
  The C arrays are functions on \<open>int\<close>; their uninitialised contents are arguments of the
  constructor. \<open>half\<close> is the C division by two, which rounds towards zero. The sift-down loops
  are called with a non-zero index only; the sign test in their models is that precondition.
  The lemmas relate each loop to its counterpart on bare arrays in \<open>Sift_Heap\<close>.
\<close>

section \<open>The rm_data structure\<close>

record rolling_median =
  rm_data :: "int \<Rightarrow> u64"
  rm_pos :: "int \<Rightarrow> int"
  rm_heap :: "int \<Rightarrow> int"
  rm_N :: int
  rm_idx :: int
  rm_minCt :: int
  rm_maxCt :: int
  rm_sz :: int

definition half :: "int \<Rightarrow> int" where
  "half i = (if i < 0 then - ((- i) div 2) else i div 2)"

definition mmless :: "rolling_median \<Rightarrow> int \<Rightarrow> int \<Rightarrow> bool" where
  "mmless r i j \<longleftrightarrow> rm_data r (rm_heap r i) < rm_data r (rm_heap r j)"

definition mmexchange :: "rolling_median \<Rightarrow> int \<Rightarrow> int \<Rightarrow> rolling_median" where
  "mmexchange r i j =
     (let t = rm_heap r i;
          h = (rm_heap r)(i := rm_heap r j);
          h = h(j := t);
          p = (rm_pos r)(h i := i);
          p = p(h j := j)
      in r\<lparr>rm_heap := h, rm_pos := p\<rparr>)"

definition mmCmpExch :: "rolling_median \<Rightarrow> int \<Rightarrow> int \<Rightarrow> bool \<times> rolling_median" where
  "mmCmpExch r i j = (if mmless r i j then (True, mmexchange r i j) else (False, r))"

lemma mmexchange_fields [simp]:
  "rm_data (mmexchange r i j) = rm_data r" "rm_N (mmexchange r i j) = rm_N r" "rm_idx (mmexchange r i j) = rm_idx r"
  "rm_minCt (mmexchange r i j) = rm_minCt r" "rm_maxCt (mmexchange r i j) = rm_maxCt r" "rm_sz (mmexchange r i j) = rm_sz r"
  by (simp_all add: mmexchange_def Let_def)

lemma mmCmpExch_fields [simp]:
  "rm_data (snd (mmCmpExch r i j)) = rm_data r" "rm_N (snd (mmCmpExch r i j)) = rm_N r"
  "rm_idx (snd (mmCmpExch r i j)) = rm_idx r" "rm_minCt (snd (mmCmpExch r i j)) = rm_minCt r"
  "rm_maxCt (snd (mmCmpExch r i j)) = rm_maxCt r" "rm_sz (snd (mmCmpExch r i j)) = rm_sz r"
  by (simp_all add: mmCmpExch_def)

function minSortDown_loop :: "rolling_median \<Rightarrow> int \<Rightarrow> rolling_median" where
  "minSortDown_loop r i =
     (if 0 < i \<and> i \<le> rm_minCt r then
        let i = (if i < rm_minCt r \<and> mmless r (i + 1) i then i + 1 else i);
            (swapped, r') = mmCmpExch r i (half i)
        in if \<not> swapped then r' else minSortDown_loop r' (2 * i)
      else r)"
  by auto
termination
  by (relation "measure (\<lambda>(r, i). nat (rm_minCt r + 1 - i))")
     (auto simp: mmCmpExch_def Let_def split: if_splits)

definition minSortDown :: "rolling_median \<Rightarrow> int \<Rightarrow> rolling_median" where
  "minSortDown r i = minSortDown_loop r (2 * i)"

function maxSortDown_loop :: "rolling_median \<Rightarrow> int \<Rightarrow> rolling_median" where
  "maxSortDown_loop r i =
     (if i < 0 \<and> i \<ge> - rm_maxCt r then
        let i = (if i > - rm_maxCt r \<and> mmless r i (i - 1) then i - 1 else i);
            (swapped, r') = mmCmpExch r (half i) i
        in if \<not> swapped then r' else maxSortDown_loop r' (2 * i)
      else r)"
  by auto
termination
  by (relation "measure (\<lambda>(r, i). nat (rm_maxCt r + 1 + i))")
     (auto simp: mmCmpExch_def Let_def split: if_splits)

definition maxSortDown :: "rolling_median \<Rightarrow> int \<Rightarrow> rolling_median" where
  "maxSortDown r i = maxSortDown_loop r (2 * i)"

function minSortUp_loop :: "rolling_median \<Rightarrow> int \<Rightarrow> int \<times> rolling_median" where
  "minSortUp_loop r i =
     (if 0 < i then
        let (swapped, r') = mmCmpExch r i (half i)
        in if swapped then minSortUp_loop r' (half i) else (i, r')
      else (i, r))"
  by auto
termination
  by (relation "measure (\<lambda>(r, i). nat i)") (auto simp: half_def)

definition minSortUp :: "rolling_median \<Rightarrow> int \<Rightarrow> bool \<times> rolling_median" where
  "minSortUp r i = (let (i, r) = minSortUp_loop r i in (i = 0, r))"

function maxSortUp_loop :: "rolling_median \<Rightarrow> int \<Rightarrow> int \<times> rolling_median" where
  "maxSortUp_loop r i =
     (if i < 0 then
        let (swapped, r') = mmCmpExch r (half i) i
        in if swapped then maxSortUp_loop r' (half i) else (i, r')
      else (i, r))"
  by auto
termination
  by (relation "measure (\<lambda>(r, i). nat (- i))") (auto simp: half_def)

definition maxSortUp :: "rolling_median \<Rightarrow> int \<Rightarrow> bool \<times> rolling_median" where
  "maxSortUp r i = (let (i, r) = maxSortUp_loop r i in (i = 0, r))"

fun rm_clear_loop :: "nat \<Rightarrow> rolling_median \<Rightarrow> rolling_median" where
  "rm_clear_loop 0 r = r"
| "rm_clear_loop (Suc nItems) r =
     (let n = int nItems;
          p = ((n + 1) div 2) * (if n mod 2 = 1 then - 1 else 1)
      in rm_clear_loop nItems (r\<lparr>rm_pos := (rm_pos r)(n := p), rm_heap := (rm_heap r)(p := n)\<rparr>))"

definition rm_clear :: "rolling_median \<Rightarrow> rolling_median" where
  "rm_clear r = rm_clear_loop (nat (rm_N r)) (r\<lparr>rm_idx := 0, rm_minCt := 0, rm_maxCt := 0, rm_sz := 0\<rparr>)"

definition rm_size :: "rolling_median \<Rightarrow> int" where
  "rm_size r = rm_sz r"

definition rm_insert :: "rolling_median \<Rightarrow> u64 \<Rightarrow> rolling_median" where
  "rm_insert r v =
     (let p = rm_pos r (rm_idx r);
          old = rm_data r (rm_idx r);
          r = r\<lparr>rm_data := (rm_data r)(rm_idx r := v), rm_idx := (rm_idx r + 1) mod rm_N r, rm_sz := min (rm_sz r + 1) (rm_N r)\<rparr>
      in if p > 0 then
           (let sort_up = (\<lambda>r. let (changed, r) = minSortUp r p in
                  if changed then let (swapped, r) = mmCmpExch r 0 (- 1) in
                     if swapped then maxSortDown r (- 1) else r
                  else r)
            in if rm_minCt r < (rm_N r - 1) div 2 then sort_up (r\<lparr>rm_minCt := rm_minCt r + 1\<rparr>)
               else if v > old then minSortDown r p else sort_up r)
         else if p < 0 then
           (let sort_up = (\<lambda>r. let (changed, r) = maxSortUp r p in
                  if changed \<and> rm_minCt r \<noteq> 0 then let (swapped, r) = mmCmpExch r 1 0 in
                     if swapped then minSortDown r 1 else r
                  else r)
            in if rm_maxCt r < rm_N r div 2 then sort_up (r\<lparr>rm_maxCt := rm_maxCt r + 1\<rparr>)
               else if v < old then maxSortDown r p else sort_up r)
         else
           (let r = (if rm_maxCt r \<noteq> 0 then
                       let (changed, r) = maxSortUp r (- 1) in if changed then maxSortDown r (- 1) else r
                     else r)
            in if rm_minCt r \<noteq> 0 then
                 let (changed, r) = minSortUp r 1 in if changed then minSortDown r 1 else r
               else r))"

definition rm_median :: "rolling_median \<Rightarrow> u64" where
  "rm_median r =
     (let v = rm_data r (rm_heap r 0)
      in if rm_minCt r < rm_maxCt r then get_mid v (rm_data r (rm_heap r (- 1))) else v)"

definition rolling_median_t :: "nat \<Rightarrow> (int \<Rightarrow> u64) \<Rightarrow> (int \<Rightarrow> int) \<Rightarrow> (int \<Rightarrow> int) \<Rightarrow> rolling_median" where
  "rolling_median_t n d p h =
     rm_clear \<lparr>rm_data = d, rm_pos = p, rm_heap = h, rm_N = int n, rm_idx = 0, rm_minCt = 0, rm_maxCt = 0, rm_sz = 0\<rparr>"


section \<open>The two heaps\<close>

interpretation up: strict_order "(<) :: u64 \<Rightarrow> u64 \<Rightarrow> bool"
  by unfold_locales auto

interpretation down: strict_order "(>) :: u64 \<Rightarrow> u64 \<Rightarrow> bool"
  by unfold_locales auto

definition val :: "rolling_median \<Rightarrow> int \<Rightarrow> u64" where
  "val r i = rm_data r (rm_heap r i)"

definition min_side :: "rolling_median \<Rightarrow> nat \<Rightarrow> u64" where
  "min_side r j = val r (int j)"

definition max_side :: "rolling_median \<Rightarrow> nat \<Rightarrow> u64" where
  "max_side r j = val r (- int j)"

lemma val_exchange: "val (mmexchange r i j) = exch (val r) i j"
  by (auto simp: val_def mmexchange_def Let_def exch_def fun_eq_iff)

lemma mmless_val: "mmless r i j \<longleftrightarrow> val r i < val r j"
  by (simp add: mmless_def val_def)

lemma half_int: "half (int j) = int (j div 2)" "half (- int j) = - int (j div 2)"
  by (auto simp: half_def zdiv_int)

lemma min_side_exchange: "min_side (mmexchange r (int i) (int j)) = exch (min_side r) i j"
  by (auto simp: min_side_def val_exchange exch_def fun_eq_iff)

lemma max_side_exchange: "max_side (mmexchange r (- int i) (- int j)) = exch (max_side r) i j"
  by (auto simp: max_side_def val_exchange exch_def fun_eq_iff)

declare minSortDown_loop.simps [simp del] maxSortDown_loop.simps [simp del]
  minSortUp_loop.simps [simp del] maxSortUp_loop.simps [simp del]

lemma minSortDown_sift:
  assumes "0 < i"
  shows "min_side (minSortDown_loop r (int i)) = sift_down (<) (nat (rm_minCt r)) (min_side r) i"
  using assms
proof (induction "nat (rm_minCt r) + 1 - i" arbitrary: r i rule: less_induct)
  case less
  define n where "n = nat (rm_minCt r)"
  define j where "j = least_child (<) n (min_side r) i"
  have le: "int i \<le> rm_minCt r \<longleftrightarrow> i \<le> n" using less(2) by (auto simp: n_def)
  have j: "(if int i < rm_minCt r \<and> mmless r (int i + 1) (int i) then int i + 1 else int i) = int j"
    by (auto simp: j_def least_child_def n_def mmless_val min_side_def add.commute)
  have ij: "i \<le> j" by (simp add: j_def least_child_def)
  show ?case
  proof (cases "i \<le> n \<and> min_side r j < min_side r (j div 2)")
    case True
    let ?r = "mmexchange r (int j) (int (j div 2))"
    have "minSortDown_loop r (int i) = minSortDown_loop ?r (int (2 * j))"
      using True less(2) le unfolding minSortDown_loop.simps [of r] j
      by (simp add: Let_def mmCmpExch_def half_int mmless_val min_side_def)
    moreover have "nat (rm_minCt ?r) + 1 - 2 * j < nat (rm_minCt r) + 1 - i" "0 < 2 * j"
      using less(2) ij True by (auto simp: n_def)
    then have "min_side (minSortDown_loop ?r (int (2 * j))) = sift_down (<) n (min_side ?r) (2 * j)"
      unfolding n_def by (subst less(1)) simp_all
    moreover have "sift_down (<) n (min_side r) i = sift_down (<) n (min_side ?r) (2 * j)"
      using True less(2) unfolding min_side_exchange
      by (subst sift_down.simps) (simp add: Let_def j_def least_child_def)
    ultimately show ?thesis by (simp add: n_def)
  next
    case False
    have "minSortDown_loop r (int i) = r"
      using False less(2) le unfolding minSortDown_loop.simps [of r] j
      by (auto simp: Let_def mmCmpExch_def half_int mmless_val min_side_def)
    moreover have "sift_down (<) n (min_side r) i = min_side r"
      using False by (subst sift_down.simps) (auto simp: Let_def j_def least_child_def)
    ultimately show ?thesis by (simp add: n_def)
  qed
qed

lemma maxSortDown_sift:
  assumes "0 < i"
  shows "max_side (maxSortDown_loop r (- int i)) = sift_down (>) (nat (rm_maxCt r)) (max_side r) i"
  using assms
proof (induction "nat (rm_maxCt r) + 1 - i" arbitrary: r i rule: less_induct)
  case less
  define n where "n = nat (rm_maxCt r)"
  define j where "j = least_child (>) n (max_side r) i"
  have le: "- int i \<ge> - rm_maxCt r \<longleftrightarrow> i \<le> n" using less(2) by (auto simp: n_def)
  have m: "- int i - 1 = - int (i + 1)" by simp
  have j: "(if - int i > - rm_maxCt r \<and> mmless r (- int i) (- int i - 1) then - int i - 1 else - int i) = - int j"
    unfolding m by (auto simp: j_def least_child_def n_def mmless_val max_side_def)
  have ij: "i \<le> j" by (simp add: j_def least_child_def)
  show ?case
  proof (cases "i \<le> n \<and> max_side r j > max_side r (j div 2)")
    case True
    let ?r = "mmexchange r (- int (j div 2)) (- int j)"
    have "maxSortDown_loop r (- int i) = maxSortDown_loop ?r (- int (2 * j))"
      using True less(2) le unfolding maxSortDown_loop.simps [of r] j
      by (simp add: Let_def mmCmpExch_def half_int mmless_val max_side_def)
    moreover have "nat (rm_maxCt ?r) + 1 - 2 * j < nat (rm_maxCt r) + 1 - i" "0 < 2 * j"
      using less(2) ij True by (auto simp: n_def)
    then have "max_side (maxSortDown_loop ?r (- int (2 * j))) = sift_down (>) n (max_side ?r) (2 * j)"
      unfolding n_def by (subst less(1)) simp_all
    moreover have "max_side ?r = exch (max_side r) j (j div 2)"
      unfolding max_side_exchange by (auto simp: exch_def)
    moreover have "sift_down (>) n (max_side r) i = sift_down (>) n (exch (max_side r) j (j div 2)) (2 * j)"
      using True less(2) by (subst sift_down.simps) (simp add: Let_def j_def least_child_def)
    ultimately show ?thesis by (simp add: n_def)
  next
    case False
    have "maxSortDown_loop r (- int i) = r"
      using False less(2) le unfolding maxSortDown_loop.simps [of r] j
      by (auto simp: Let_def mmCmpExch_def half_int mmless_val max_side_def)
    moreover have "sift_down (>) n (max_side r) i = max_side r"
      using False by (subst sift_down.simps) (auto simp: Let_def j_def least_child_def)
    ultimately show ?thesis by (simp add: n_def)
  qed
qed

lemma minSortUp_sift:
  "sift_up (<) (min_side r) i =
     (nat (fst (minSortUp_loop r (int i))), min_side (snd (minSortUp_loop r (int i))))
   \<and> 0 \<le> fst (minSortUp_loop r (int i))"
proof (induction i arbitrary: r rule: less_induct)
  case (less i)
  show ?case
  proof (cases "0 < i \<and> min_side r i < min_side r (i div 2)")
    case True
    then have "minSortUp_loop r (int i) = minSortUp_loop (mmexchange r (int i) (int (i div 2))) (int (i div 2))"
      unfolding minSortUp_loop.simps [of r]
      by (simp add: Let_def mmCmpExch_def half_int mmless_val min_side_def)
    moreover have "sift_up (<) (min_side r) i = sift_up (<) (exch (min_side r) i (i div 2)) (i div 2)"
      using True by (subst sift_up.simps) simp
    ultimately show ?thesis
      using less [of "i div 2" "mmexchange r (int i) (int (i div 2))"] True
      unfolding min_side_exchange by simp
  next
    case False
    then have "minSortUp_loop r (int i) = (int i, r)"
      unfolding minSortUp_loop.simps [of r]
      by (auto simp: Let_def mmCmpExch_def half_int mmless_val min_side_def)
    moreover have "sift_up (<) (min_side r) i = (i, min_side r)"
      using False by (subst sift_up.simps) auto
    ultimately show ?thesis by simp
  qed
qed

lemma maxSortUp_sift:
  "sift_up (>) (max_side r) i =
     (nat (- fst (maxSortUp_loop r (- int i))), max_side (snd (maxSortUp_loop r (- int i))))
   \<and> fst (maxSortUp_loop r (- int i)) \<le> 0"
proof (induction i arbitrary: r rule: less_induct)
  case (less i)
  show ?case
  proof (cases "0 < i \<and> max_side r i > max_side r (i div 2)")
    case True
    let ?r = "mmexchange r (- int (i div 2)) (- int i)"
    have "maxSortUp_loop r (- int i) = maxSortUp_loop ?r (- int (i div 2))"
      using True unfolding maxSortUp_loop.simps [of r]
      by (simp add: Let_def mmCmpExch_def half_int mmless_val max_side_def)
    moreover have "max_side ?r = exch (max_side r) i (i div 2)"
      unfolding max_side_exchange by (auto simp: exch_def)
    moreover have "sift_up (>) (max_side r) i = sift_up (>) (exch (max_side r) i (i div 2)) (i div 2)"
      using True by (subst sift_up.simps) simp
    ultimately show ?thesis using less [of "i div 2" ?r] True by simp
  next
    case False
    then have "maxSortUp_loop r (- int i) = (- int i, r)"
      unfolding maxSortUp_loop.simps [of r]
      by (auto simp: Let_def mmCmpExch_def half_int mmless_val max_side_def)
    moreover have "sift_up (>) (max_side r) i = (i, max_side r)"
      using False by (subst sift_up.simps) auto
    ultimately show ?thesis by simp
  qed
qed

section \<open>Exchanges\<close>

inductive swaps :: "int set \<Rightarrow> rolling_median \<Rightarrow> rolling_median \<Rightarrow> bool" for A where
  swaps_refl [intro!, simp]: "swaps A r r"
| swaps_step: "i \<in> A \<Longrightarrow> j \<in> A \<Longrightarrow> swaps A (mmexchange r i j) r' \<Longrightarrow> swaps A r r'"

lemma swaps_trans: "swaps A r r' \<Longrightarrow> swaps A r' r'' \<Longrightarrow> swaps A r r''"
  by (induction rule: swaps.induct) (auto intro: swaps_step)

lemma swaps_mono: "swaps A r r' \<Longrightarrow> A \<subseteq> B \<Longrightarrow> swaps B r r'"
  by (induction rule: swaps.induct) (auto intro: swaps_step)

lemma swaps_fields:
  "swaps A r r' \<Longrightarrow> rm_data r' = rm_data r \<and> rm_N r' = rm_N r \<and> rm_idx r' = rm_idx r \<and>
     rm_minCt r' = rm_minCt r \<and> rm_maxCt r' = rm_maxCt r \<and> rm_sz r' = rm_sz r"
  by (induction rule: swaps.induct) auto

lemma swaps_outside: "swaps A r r' \<Longrightarrow> x \<notin> A \<Longrightarrow> val r' x = val r x"
  by (induction rule: swaps.induct) (auto simp: val_exchange exch_def)

lemma minSortDown_swaps: "2 \<le> i \<Longrightarrow> swaps {1..rm_minCt r} r (minSortDown_loop r i)"
proof (induction r i rule: minSortDown_loop.induct)
  case (1 r i)
  define j where "j = (if i < rm_minCt r \<and> mmless r (i + 1) i then i + 1 else i)"
  have j: "2 \<le> j" using 1(2) by (simp add: j_def)
  show ?case
  proof (cases "i \<le> rm_minCt r \<and> mmless r j (half j)")
    case True
    let ?r = "mmexchange r j (half j)"
    have "mmCmpExch r j (half j) = (True, ?r)" using True by (simp add: mmCmpExch_def)
    then have "swaps {1..rm_minCt ?r} ?r (minSortDown_loop ?r (2 * j))"
      using 1(1) [OF _ j_def] True 1(2) j by auto
    moreover have "j \<le> rm_minCt r" using True by (simp add: j_def)
    moreover have "half j \<in> {1..rm_minCt r}" using j calculation(2) by (auto simp: half_def)
    moreover have "minSortDown_loop r i = minSortDown_loop ?r (2 * j)"
      using True 1(2) by (subst minSortDown_loop.simps) (simp add: Let_def mmCmpExch_def flip: j_def)
    ultimately show ?thesis using j swaps_step [of j "{1..rm_minCt r}" "half j" r] by simp
  next
    case False
    then have "minSortDown_loop r i = r"
      by (subst minSortDown_loop.simps) (auto simp: Let_def mmCmpExch_def simp flip: j_def)
    then show ?thesis by simp
  qed
qed

lemma maxSortDown_swaps: "i \<le> - 2 \<Longrightarrow> swaps {- rm_maxCt r..- 1} r (maxSortDown_loop r i)"
proof (induction r i rule: maxSortDown_loop.induct)
  case (1 r i)
  define j where "j = (if i > - rm_maxCt r \<and> mmless r i (i - 1) then i - 1 else i)"
  have j: "j \<le> - 2" using 1(2) by (simp add: j_def)
  show ?case
  proof (cases "i \<ge> - rm_maxCt r \<and> mmless r (half j) j")
    case True
    let ?r = "mmexchange r (half j) j"
    have "mmCmpExch r (half j) j = (True, ?r)" using True by (simp add: mmCmpExch_def)
    then have "swaps {- rm_maxCt ?r..- 1} ?r (maxSortDown_loop ?r (2 * j))"
      using 1(1) [OF _ j_def] True 1(2) j by auto
    moreover have "- rm_maxCt r \<le> j" using True by (simp add: j_def)
    moreover have "half j \<in> {- rm_maxCt r..- 1}" using j calculation(2) by (auto simp: half_def)
    moreover have "maxSortDown_loop r i = maxSortDown_loop ?r (2 * j)"
      using True 1(2) by (subst maxSortDown_loop.simps) (simp add: Let_def mmCmpExch_def flip: j_def)
    ultimately show ?thesis using j swaps_step [of "half j" "{- rm_maxCt r..- 1}" j r] by simp
  next
    case False
    then have "maxSortDown_loop r i = r"
      by (subst maxSortDown_loop.simps) (auto simp: Let_def mmCmpExch_def simp flip: j_def)
    then show ?thesis by simp
  qed
qed

lemma minSortUp_swaps: "0 \<le> i \<Longrightarrow> i \<le> m \<Longrightarrow> swaps {0..m} r (snd (minSortUp_loop r i))"
proof (induction r i rule: minSortUp_loop.induct)
  case (1 r i)
  show ?case
  proof (cases "0 < i \<and> mmless r i (half i)")
    case True
    have h: "0 \<le> half i" "half i \<le> m" using 1(2,3) by (auto simp: half_def)
    have "swaps {0..m} (mmexchange r i (half i)) (snd (minSortUp_loop (mmexchange r i (half i)) (half i)))"
      using 1(1) True h by (auto simp: mmCmpExch_def)
    moreover have "minSortUp_loop r i = minSortUp_loop (mmexchange r i (half i)) (half i)"
      using True by (subst minSortUp_loop.simps) (simp add: mmCmpExch_def)
    ultimately show ?thesis using swaps_step [of i "{0..m}" "half i" r] 1(2,3) h by simp
  next
    case False
    then have "minSortUp_loop r i = (i, r)"
      by (subst minSortUp_loop.simps) (auto simp: mmCmpExch_def)
    then show ?thesis by simp
  qed
qed

lemma maxSortUp_swaps: "i \<le> 0 \<Longrightarrow> - m \<le> i \<Longrightarrow> swaps {- m..0} r (snd (maxSortUp_loop r i))"
proof (induction r i rule: maxSortUp_loop.induct)
  case (1 r i)
  show ?case
  proof (cases "i < 0 \<and> mmless r (half i) i")
    case True
    have h: "half i \<le> 0" "- m \<le> half i" using 1(2,3) by (auto simp: half_def)
    have "swaps {- m..0} (mmexchange r (half i) i) (snd (maxSortUp_loop (mmexchange r (half i) i) (half i)))"
      using 1(1) True h by (auto simp: mmCmpExch_def)
    moreover have "maxSortUp_loop r i = maxSortUp_loop (mmexchange r (half i) i) (half i)"
      using True by (subst maxSortUp_loop.simps) (simp add: mmCmpExch_def)
    ultimately show ?thesis using swaps_step [of "half i" "{- m..0}" i r] 1(2,3) h by simp
  next
    case False
    then have "maxSortUp_loop r i = (i, r)"
      by (subst maxSortUp_loop.simps) (auto simp: mmCmpExch_def)
    then show ?thesis by simp
  qed
qed

end
