(* ===== verification/Varint.thy ===== *)
theory Varint
  imports Cpp_Prelude
begin

text \<open>
  Variable-length integers, \<open>src/common/varint.h\<close>: seven bits per byte, least significant group
  first, the top bit set on every byte but the last. The integer type \<open>T\<close> is a word type; the
  reader's iterator range is a byte list, and its result is the returned \<open>int\<close>, the value
  written and the bytes left in the range.
\<close>

section \<open>The code\<close>

definition EVARINT_OVERFLOW :: int where "EVARINT_OVERFLOW = - 1"
definition EVARINT_REPRESENT :: int where "EVARINT_REPRESENT = - 2"

function write_varint :: "'a::len word \<Rightarrow> bytes" where
  "write_varint i =
     (if unat i \<ge> 0x80 then ((ucast i AND 0x7f) OR 0x80) # write_varint (drop_bit 7 i) else [ucast i])"
  by auto
termination
  by (relation "measure unat") (auto simp: unat_shiftr)

definition get_varint_data :: "'a::len word \<Rightarrow> bytes" where
  "get_varint_data v = write_varint v"

fun read_varint_loop :: "nat \<Rightarrow> nat \<Rightarrow> int \<Rightarrow> 'a::len word \<Rightarrow> bytes \<Rightarrow> int \<times> 'a word \<times> bytes" where
  "read_varint_loop bits shift read write [] = (read, write, [])"
| "read_varint_loop bits shift read write (byte # first) =
     (if shift + 7 \<ge> bits \<and> unat byte \<ge> 2 ^ (bits - shift) then (EVARINT_OVERFLOW, write, first)
      else if byte = 0 \<and> shift \<noteq> 0 then (EVARINT_REPRESENT, write, first)
      else
        let write = write OR push_bit shift (ucast (byte AND 0x7f))
        in if byte AND 0x80 = 0 then (read + 1, write, first)
           else read_varint_loop bits (shift + 7) (read + 1) write first)"

definition read_varint :: "bytes \<Rightarrow> int \<times> 'a::len word \<times> bytes" where
  "read_varint first = read_varint_loop LENGTH('a) 0 0 0 first"

section \<open>Canonical encodings\<close>

declare write_varint.simps [simp del]

fun vval :: "bytes \<Rightarrow> nat" where
  "vval [] = 0"
| "vval (b # bs) = unat b mod 128 + 128 * vval bs"

fun canonical :: "bytes \<Rightarrow> bool" where
  "canonical [] = False"
| "canonical [b] = (unat b < 128)"
| "canonical (b # bs) = (128 \<le> unat b \<and> canonical bs \<and> bs \<noteq> [0])"

lemma byte_cont: "(b :: u8) AND 0x80 = 0 \<longleftrightarrow> unat b < 128"
proof -
  have "unat b < 256" using unat_bound [of b] by simp
  have "b AND 0x80 = 0 \<longleftrightarrow> \<not> bit b 7" using and_exp_eq_0_iff_not_bit [of b 7] by simp
  also have "bit b 7 \<longleftrightarrow> bit (unat b) 7" by (simp add: bit_unsigned_iff)
  also have "\<dots> \<longleftrightarrow> odd (unat b div 128)" by (simp add: bit_iff_odd)
  also have "odd (unat b div 128) \<longleftrightarrow> \<not> unat b < 128"
  proof (cases "unat b < 128")
    case False
    then have "unat b div 128 = 1" using \<open>unat b < 256\<close> by (intro div_nat_eqI) simp_all
    then show ?thesis using False by simp
  qed simp
  finally show ?thesis by simp
qed

lemma byte_low: "unat ((b :: u8) AND 0x7f) = unat b mod 128"
proof -
  have "(0x7f :: u8) = mask 7" by (simp add: mask_eq_exp_minus_1)
  then show ?thesis using unat_and_mask [of b 7] by simp
qed

lemma write_byte:
  assumes "8 \<le> LENGTH('a)"
  shows "unat ((ucast (i :: 'a::len word) AND 0x7f) OR 0x80 :: u8) = unat i mod 128 + 128"
proof -
  have low: "unat (ucast i AND 0x7f :: u8) = unat i mod 128"
    unfolding byte_low unat_ucast_mod by (simp add: mod_mod_cancel)
  have "(ucast i AND 0x7f) AND (0x80 :: u8) = 0"
    unfolding byte_cont low by simp
  then have "unat ((ucast i AND 0x7f) OR 0x80 :: u8) = unat (ucast i AND 0x7f :: u8) + unat (0x80 :: u8)"
    by (rule unat_disjoint_or)
  then show ?thesis unfolding low by simp
qed

lemma write_varint_value:
  assumes "8 \<le> LENGTH('a)"
  shows "vval (write_varint (v :: 'a::len word)) = unat v \<and> canonical (write_varint v) \<and>
         (write_varint v = [0] \<longrightarrow> v = 0)"
proof (induction v rule: write_varint.induct)
  case (1 v)
  show ?case
  proof (cases "128 \<le> unat v")
    case True
    let ?w = "drop_bit 7 v"
    have IH: "vval (write_varint ?w) = unat ?w" "canonical (write_varint ?w)" "write_varint ?w = [0] \<longrightarrow> ?w = 0"
      using 1 True by auto
    have w: "unat ?w = unat v div 128" by (simp add: unat_shiftr)
    then have "?w \<noteq> 0" using True by (auto simp: word_unat_eq_iff)
    moreover obtain b bs where "write_varint ?w = b # bs" using IH(2) by (cases "write_varint ?w") auto
    moreover have "vval (write_varint v) = unat v mod 128 + 128 * (unat v div 128)"
      using True IH(1) w by (subst write_varint.simps) (simp add: write_byte [OF assms])
    ultimately show ?thesis
      using True IH w by (subst (1 2 3) write_varint.simps) (auto simp: write_byte [OF assms])
  next
    case False
    have "unat (ucast v :: u8) = unat v" using False by (simp add: unat_ucast_mod)
    then show ?thesis
      using False by (subst (1 2 3) write_varint.simps) (auto simp: word_unat_eq_iff)
  qed
qed

lemma canonical_pos: "canonical bs \<Longrightarrow> bs \<noteq> [0] \<Longrightarrow> 0 < vval bs"
proof (induction bs rule: canonical.induct)
  case (2 b)
  then have "unat b \<noteq> 0" by (auto simp: word_unat_eq_iff)
  then show ?case using 2 by simp
qed auto

lemma canonical_unique:
  assumes "canonical bs" and "canonical cs" and "vval bs = vval cs"
  shows "bs = cs"
  using assms
proof (induction bs arbitrary: cs)
  case (Cons b bs)
  then obtain c cs' where cs: "cs = c # cs'" by (cases cs) auto
  have eq: "unat b mod 128 + 128 * vval bs = unat c mod 128 + 128 * vval cs'" using Cons.prems cs by simp
  have "unat b mod 128 = unat c mod 128" using arg_cong [OF eq, of "\<lambda>x. x mod 128"] by simp
  moreover have vv: "vval bs = vval cs'" using eq calculation by simp
  moreover have "bs = [] \<longleftrightarrow> cs' = []"
    using Cons.prems cs vv canonical_pos [of bs] canonical_pos [of cs'] by (cases bs; cases cs') auto
  moreover have "bs = cs'" if "bs \<noteq> []" "cs' \<noteq> []"
    using Cons.IH [of cs'] Cons.prems cs vv that by (cases bs; cases cs') auto
  moreover have "unat b < 256" "unat c < 256" using unat_bound [of b] unat_bound [of c] by simp_all
  ultimately show ?case
    using Cons.prems cs by (cases bs; cases cs') (auto simp: word_unat_eq_iff mod_if split: if_splits)
qed simp

lemma write_varint_unique:
  assumes "8 \<le> LENGTH('a)" and "canonical bs" and "vval bs = unat (v :: 'a::len word)"
  shows "write_varint v = bs"
  using write_varint_value [OF assms(1), of v] assms(2,3) by (intro canonical_unique) auto

section \<open>Reading\<close>

lemma read_step:
  fixes w :: "'a::len word"
  assumes "shift < LENGTH('a)" and "\<not> (shift + 7 \<ge> LENGTH('a) \<and> unat b \<ge> 2 ^ (LENGTH('a) - shift))"
    and "unat w < 2 ^ shift" and "8 \<le> LENGTH('a)"
  defines "w' \<equiv> w OR push_bit shift (ucast (b AND 0x7f :: u8))"
  shows "unat w' = unat w + unat b mod 128 * 2 ^ shift" and "unat w' < 2 ^ (shift + 7)"
    and "unat b mod 128 < 2 ^ (LENGTH('a) - shift)"
    and "128 \<le> unat b \<Longrightarrow> shift + 7 < LENGTH('a)"
proof -
  let ?l = "unat b mod 128"
  have l: "unat (ucast (b AND 0x7f) :: 'a word) = ?l"
    using assms(4) byte_low [of b] by (subst unat_ucast_up) auto
  show cont: "128 \<le> unat b \<Longrightarrow> shift + 7 < LENGTH('a)"
  proof (rule ccontr)
    assume b: "128 \<le> unat b" and "\<not> shift + 7 < LENGTH('a)"
    then have "unat b < 2 ^ (LENGTH('a) - shift)" "LENGTH('a) - shift \<le> 7" using assms(2) by auto
    moreover have "(2 :: nat) ^ (LENGTH('a) - shift) \<le> 2 ^ 7" using calculation(2) by (intro power_increasing) auto
    ultimately show False using b by simp
  qed
  show lt: "?l < 2 ^ (LENGTH('a) - shift)"
  proof (cases "shift + 7 < LENGTH('a)")
    case True
    then have "(2 :: nat) ^ 7 \<le> 2 ^ (LENGTH('a) - shift)" by (intro power_increasing) auto
    moreover have "?l < 128" by simp
    ultimately show ?thesis by simp
  next
    case False
    then have "unat b < 2 ^ (LENGTH('a) - shift)" using assms(2) by auto
    then show ?thesis by (meson le_less_trans mod_less_eq_dividend)
  qed
  have "?l * 2 ^ shift < 2 ^ (LENGTH('a) - shift) * 2 ^ shift" using lt by (intro mult_strict_right_mono) auto
  then have "?l * 2 ^ shift < 2 ^ LENGTH('a)" using assms(1) by (simp flip: power_add)
  then show v: "unat w' = unat w + ?l * 2 ^ shift"
    unfolding w'_def using unat_shiftl_or [OF assms(3), of "ucast (b AND 0x7f)"] l by (simp add: or.commute)
  have "?l * 2 ^ shift \<le> 127 * 2 ^ shift" by (intro mult_right_mono) auto
  moreover have "(2 :: nat) ^ (shift + 7) = 128 * 2 ^ shift" by (simp add: power_add)
  ultimately show "unat w' < 2 ^ (shift + 7)" unfolding v using assms(3) by linarith
qed

lemma read_loop_canonical:
  fixes w :: "'a::len word"
  assumes "8 \<le> LENGTH('a)" and "canonical c" and "shift < LENGTH('a)" and "vval c < 2 ^ (LENGTH('a) - shift)"
    and "unat w < 2 ^ shift" and "shift \<noteq> 0 \<Longrightarrow> c \<noteq> [0]"
  shows "\<exists>w'. read_varint_loop LENGTH('a) shift r w (c @ rest) = (r + int (length c), w', rest) \<and>
           unat w' = unat w + vval c * 2 ^ shift"
  using assms
proof (induction c arbitrary: shift r w)
  case (Cons b c)
  have lo: "unat b mod 128 \<le> vval (b # c)" by simp
  show ?case
  proof (cases "c = []")
    case True
    then have b: "unat b < 128" "unat b < 2 ^ (LENGTH('a) - shift)" using Cons.prems by auto
    have g: "\<not> (shift + 7 \<ge> LENGTH('a) \<and> unat b \<ge> 2 ^ (LENGTH('a) - shift))" using b by simp
    note st = read_step [OF Cons.prems(3) g Cons.prems(5,1)]
    have "\<not> (b = 0 \<and> shift \<noteq> 0)" using True Cons.prems(6) by auto
    then show ?thesis using True b g st(1) by (auto simp: Let_def byte_cont)
  next
    case False
    then have c: "128 \<le> unat b" "canonical c" "c \<noteq> [0]" using Cons.prems(2) by (cases c; auto)+
    have "1 \<le> vval c" using canonical_pos [OF c(2,3)] by simp
    then have "128 \<le> vval (b # c)" by simp
    then have big: "128 < (2 :: nat) ^ (LENGTH('a) - shift)" using Cons.prems(4) by linarith
    have s7: "shift + 7 < LENGTH('a)"
    proof (rule ccontr)
      assume "\<not> shift + 7 < LENGTH('a)"
      then have "(2 :: nat) ^ (LENGTH('a) - shift) \<le> 2 ^ 7" by (intro power_increasing) auto
      then show False using big by simp
    qed
    then have g: "\<not> (shift + 7 \<ge> LENGTH('a) \<and> unat b \<ge> 2 ^ (LENGTH('a) - shift))" by simp
    note st = read_step [OF Cons.prems(3) g Cons.prems(5,1)]
    have p: "(2 :: nat) ^ (LENGTH('a) - shift) = 128 * 2 ^ (LENGTH('a) - (shift + 7))"
    proof -
      have "LENGTH('a) - shift = 7 + (LENGTH('a) - (shift + 7))" using s7 by simp
      then show ?thesis by (simp only: power_add) simp
    qed
    have vc: "vval c < 2 ^ (LENGTH('a) - (shift + 7))" using Cons.prems(4) unfolding p by simp
    let ?w = "w OR push_bit shift (ucast (b AND 0x7f))"
    obtain w' where w': "read_varint_loop LENGTH('a) (shift + 7) (r + 1) ?w (c @ rest) = (r + 1 + int (length c), w', rest)"
      "unat w' = unat ?w + vval c * 2 ^ (shift + 7)"
      using Cons.IH [OF Cons.prems(1) c(2) s7 vc st(2)] c(3) by blast
    have "b \<noteq> 0" using c(1) by auto
    then have "read_varint_loop LENGTH('a) shift r w ((b # c) @ rest) = (r + int (length (b # c)), w', rest)"
      using s7 c(1) w'(1) by (simp add: Let_def byte_cont)
    moreover have "unat w' = unat w + vval (b # c) * 2 ^ shift"
      unfolding w'(2) st(1) by (simp add: power_add algebra_simps)
    ultimately show ?thesis by blast
  qed
qed simp

lemma read_loop_complete:
  fixes w :: "'a::len word"
  assumes "8 \<le> LENGTH('a)" and "shift < LENGTH('a)" and "unat w < 2 ^ shift" and "0 \<le> r"
    and "read_varint_loop LENGTH('a) shift r w bs = (r', w', rest)" and "0 \<le> r'"
  shows "(\<exists>c. bs = c @ rest \<and> r' = r + int (length c) \<and> canonical c \<and> (shift \<noteq> 0 \<longrightarrow> c \<noteq> [0]) \<and>
            unat w' = unat w + vval c * 2 ^ shift) \<or>
         (rest = [] \<and> r' = r + int (length bs) \<and> (\<forall>b \<in> set bs. 128 \<le> unat b))"
  using assms
proof (induction bs arbitrary: shift r w)
  case (Cons b bs)
  have g: "\<not> (shift + 7 \<ge> LENGTH('a) \<and> unat b \<ge> 2 ^ (LENGTH('a) - shift))"
    and z: "\<not> (b = 0 \<and> shift \<noteq> 0)"
    using Cons.prems(5,6) by (auto simp: EVARINT_OVERFLOW_def EVARINT_REPRESENT_def split: if_splits)
  note st = read_step [OF Cons.prems(2) g Cons.prems(3,1)]
  let ?w = "w OR push_bit shift (ucast (b AND 0x7f))"
  show ?case
  proof (cases "unat b < 128")
    case True
    then have "r' = r + 1" "w' = ?w" "rest = bs"
      using Cons.prems(5) g z by (auto simp: Let_def byte_cont)
    then show ?thesis
      using True st(1) z by (intro disjI1 exI [of _ "[b]"]) auto
  next
    case False
    then have s7: "shift + 7 < LENGTH('a)" using st(4) by simp
    have "read_varint_loop LENGTH('a) (shift + 7) (r + 1) ?w bs = (r', w', rest)"
      using Cons.prems(5) g z False by (auto simp: Let_def byte_cont)
    from Cons.IH [OF Cons.prems(1) s7 st(2) _ this Cons.prems(6)] Cons.prems(4)
    consider c where "bs = c @ rest" "r' = r + 1 + int (length c)" "canonical c" "c \<noteq> [0]"
        "unat w' = unat ?w + vval c * 2 ^ (shift + 7)"
      | "rest = []" "r' = r + 1 + int (length bs)" "\<forall>b \<in> set bs. 128 \<le> unat b" by auto
    then show ?thesis
    proof cases
      case 1
      then have "canonical (b # c)" using False by (cases c) auto
      moreover have "unat w' = unat w + vval (b # c) * 2 ^ shift"
        unfolding 1(5) st(1) by (simp add: power_add algebra_simps)
      moreover have "b # c \<noteq> [0]" using False by auto
      ultimately show ?thesis using 1 by (intro disjI1 exI [of _ "b # c"]) auto
    next
      case 2
      then show ?thesis using False by auto
    qed
  qed
qed simp

section \<open>Round trips\<close>

lemma read_varint_write:
  assumes "8 \<le> LENGTH('a)"
  shows "read_varint (write_varint (v :: 'a::len word) @ rest) = (int (length (write_varint v)), v, rest)"
proof -
  have w: "vval (write_varint v) = unat v" "canonical (write_varint v)" using write_varint_value [OF assms, of v] by auto
  have "\<exists>w'. read_varint_loop LENGTH('a) 0 0 (0 :: 'a word) (write_varint v @ rest) =
      (0 + int (length (write_varint v)), w', rest) \<and> unat w' = unat (0 :: 'a word) + vval (write_varint v) * 2 ^ 0"
    using assms w unat_bound [of v] by (intro read_loop_canonical) auto
  then show ?thesis by (auto simp: read_varint_def w word_unat_eq_iff)
qed

lemma read_varint_cases:
  assumes "8 \<le> LENGTH('a)" and "read_varint bs = (n, v :: 'a::len word, rest)" and "0 < n"
  shows "bs = write_varint v @ rest \<and> n = int (length (write_varint v)) \<or>
         rest = [] \<and> n = int (length bs) \<and> (\<forall>b \<in> set bs. 128 \<le> unat b)"
proof -
  have "read_varint_loop LENGTH('a) 0 0 0 bs = (n, v, rest)" using assms(2) by (simp add: read_varint_def)
  then have "(\<exists>c. bs = c @ rest \<and> n = int (length c) \<and> canonical c \<and> unat v = vval c) \<or>
         rest = [] \<and> n = int (length bs) \<and> (\<forall>b \<in> set bs. 128 \<le> unat b)"
    using read_loop_complete [OF assms(1), of 0 0 0 bs n v rest] assms(3) by simp
  moreover have "write_varint v = c" if "canonical c" "unat v = vval c" for c
    using write_varint_unique [OF assms(1) that(1)] that(2) by simp
  ultimately show ?thesis by blast
qed

text \<open>C19. Varint round trip: for every unsigned type of at least eight bits, reading back the bytes
  that \<open>write_varint\<close> produced, whatever follows them, returns the number of bytes written, the
  same value and the untouched rest.\<close>
theorem varint_roundtrip:
  assumes "8 \<le> LENGTH('a)"
  shows "read_varint (write_varint (v :: 'a::len word) @ rest) = (int (length (write_varint v)), v, rest)"
  using assms by (rule read_varint_write)

theorem varint_roundtrip_witness:
  "read_varint (write_varint (300 :: u64) @ [1, 2]) = (2, 300 :: u64, [1, 2])"
proof -
  have "length (write_varint (300 :: u64)) = 2" by (simp add: write_varint.simps)
  then show ?thesis using varint_roundtrip [of "300 :: u64" "[1, 2]"] by simp
qed

text \<open>C27. Varints are not malleable: if \<open>read_varint\<close> reports a positive number of bytes read and the
  last of them ends the number (top bit clear), then the bytes read are exactly what
  \<open>write_varint\<close> produces for the value returned; overlong and overflowing encodings are
  refused.\<close>
theorem varint_canonical:
  assumes "8 \<le> LENGTH('a)" and "read_varint bs = (n, v :: 'a::len word, rest)" and "0 < n"
    and "unat (bs ! nat (n - 1)) < 128"
  shows "bs = write_varint v @ rest \<and> n = int (length (write_varint v))"
proof -
  have False if "n = int (length bs)" "\<forall>b \<in> set bs. 128 \<le> unat b"
  proof -
    have "nat (n - 1) < length bs" using that(1) assms(3) by linarith
    then show False using that(2) assms(4) by (meson nth_mem not_le)
  qed
  then show ?thesis using read_varint_cases [OF assms(1-3)] by blast
qed

theorem varint_canonical_witness:
  "[172, 2, 9] = write_varint (300 :: u64) @ [9] \<and> (2 :: int) = int (length (write_varint (300 :: u64)))"
proof (rule varint_canonical)
  show "read_varint [172, 2, 9] = (2, 300 :: u64, [9])" by (simp add: read_varint_def Let_def)
qed simp_all

end
