(* ===== verification/Keccak.thy ===== *)
theory Keccak
  imports Cpp_Prelude
begin

text \<open>
  Keccak, \<open>src/crypto/keccak.c\<close> and \<open>src/crypto/hash.c\<close>: the permutation, the one-shot hash and
  the incremental interface, on a little-endian machine (the byte swaps are identities there). A
  state is a list of 25 words. A call of \<open>local_abort\<close>, and the endless loop of \<open>keccak\<close> for a
  digest of 100 bytes (where the block size is 0), is \<open>None\<close>. The message buffer of a context is
  its 136 bytes.
\<close>

section \<open>The code\<close>

definition keccakf_rndc :: "u64 list" where
  "keccakf_rndc = [
    0x0000000000000001, 0x0000000000008082, 0x800000000000808a,
    0x8000000080008000, 0x000000000000808b, 0x0000000080000001,
    0x8000000080008081, 0x8000000000008009, 0x000000000000008a,
    0x0000000000000088, 0x0000000080008009, 0x000000008000000a,
    0x000000008000808b, 0x800000000000008b, 0x8000000000008089,
    0x8000000000008003, 0x8000000000008002, 0x8000000000000080,
    0x000000000000800a, 0x800000008000000a, 0x8000000080008081,
    0x8000000000008080, 0x0000000080000001, 0x8000000080008008]"

definition keccakf_rotc :: "nat list" where
  "keccakf_rotc = [
    1,  3,  6,  10, 15, 21, 28, 36, 45, 55, 2,  14,
    27, 41, 56, 8,  25, 43, 62, 18, 39, 61, 20, 44]"

definition keccakf_piln :: "nat list" where
  "keccakf_piln = [
    10, 7,  11, 17, 18, 3, 5,  16, 8,  21, 24, 4,
    15, 23, 19, 13, 12, 2, 20, 14, 22, 9,  6,  1]"

definition KECCAK_ROUNDS :: nat where "KECCAK_ROUNDS = 24"
definition HASH_DATA_AREA :: nat where "HASH_DATA_AREA = 136"
definition HASH_SIZE :: nat where "HASH_SIZE = 32"

definition ROTL64 :: "u64 \<Rightarrow> nat \<Rightarrow> u64" where
  "ROTL64 x y = push_bit y x OR drop_bit (64 - y) x"

definition theta :: "u64 list \<Rightarrow> u64 list" where
  "theta st =
     (let bc = map (\<lambda>i. st ! i XOR st ! (i + 5) XOR st ! (i + 10) XOR st ! (i + 15) XOR st ! (i + 20)) [0..<5]
      in foldl (\<lambda>st i.
           let t = bc ! ((i + 4) mod 5) XOR ROTL64 (bc ! ((i + 1) mod 5)) 1
           in foldl (\<lambda>st j. st[j + i := st ! (j + i) XOR t]) st [0, 5, 10, 15, 20]) st [0..<5])"

definition rho_pi :: "u64 list \<Rightarrow> u64 list" where
  "rho_pi st =
     fst (foldl (\<lambda>(st, t) i.
       let j = keccakf_piln ! i; bc0 = st ! j
       in (st[j := ROTL64 t (keccakf_rotc ! i)], bc0)) (st, st ! 1) [0..<24])"

definition chi :: "u64 list \<Rightarrow> u64 list" where
  "chi st =
     foldl (\<lambda>st j.
       let bc = map (\<lambda>i. st ! (j + i)) [0..<5]
       in foldl (\<lambda>st i. st[j + i := st ! (j + i) XOR (NOT (bc ! ((i + 1) mod 5)) AND bc ! ((i + 2) mod 5))]) st [0..<5])
       st [0, 5, 10, 15, 20]"

definition keccakf :: "u64 list \<Rightarrow> nat \<Rightarrow> u64 list" where
  "keccakf st rounds =
     foldl (\<lambda>st round.
       let st = chi (rho_pi (theta st))
       in st[0 := st ! 0 XOR keccakf_rndc ! round]) st [0..<rounds]"

definition xor_words :: "nat \<Rightarrow> u64 list \<Rightarrow> bytes \<Rightarrow> u64 list" where
  "xor_words n st block = foldl (\<lambda>st i. st[i := st ! i XOR load64 block i]) st [0..<n]"

function keccak_absorb :: "nat \<Rightarrow> u64 list \<Rightarrow> bytes \<Rightarrow> u64 list \<times> bytes" where
  "keccak_absorb rsiz st inp =
     (if 0 < rsiz \<and> rsiz \<le> length inp
      then keccak_absorb rsiz (keccakf (xor_words (rsiz div 8) st inp) KECCAK_ROUNDS) (drop rsiz inp)
      else (st, inp))"
  by auto
termination by (relation "measure (\<lambda>(_, _, inp). length inp)") auto

definition keccak :: "bytes \<Rightarrow> int \<Rightarrow> bytes option" where
  "keccak inp mdlen =
     (if mdlen \<le> 0 \<or> (mdlen > 100 \<and> mdlen \<noteq> 200) then None
      else
        let rsiz = (if mdlen = 200 then HASH_DATA_AREA else nat (200 - 2 * mdlen));
            rsizw = rsiz div 8
        in if rsiz = 0 then None
           else
             let (st, inp) = keccak_absorb rsiz (replicate 25 0) inp;
                 inlen = length inp
             in if inlen + 1 \<ge> 144 \<or> inlen > rsiz \<or> rsiz - inlen + inlen + 1 \<ge> 144 \<or> rsiz - 1 \<ge> 144 \<or> rsizw * 8 > 144
                then None
                else
                  let temp = inp @ [1] @ replicate (rsiz - (inlen + 1)) 0;
                      temp = temp[rsiz - 1 := temp ! (rsiz - 1) OR 0x80];
                      st = keccakf (xor_words rsizw st temp) KECCAK_ROUNDS
                  in if mdlen mod 8 \<noteq> 0 then None
                     else Some (concat (map store64 (take (nat mdlen div 8) st))))"

definition keccak1600 :: "bytes \<Rightarrow> bytes option" where
  "keccak1600 inp = keccak inp 200"

record KECCAK_CTX =
  kc_hash :: "u64 list"
  kc_message :: bytes
  kc_rest :: nat

definition KECCAK_FINALIZED :: nat where "KECCAK_FINALIZED = 0x80000000"
definition KECCAK_BLOCKLEN :: nat where "KECCAK_BLOCKLEN = 136"
definition KECCAK_WORDS :: nat where "KECCAK_WORDS = 17"
definition KECCAK_DIGESTSIZE :: nat where "KECCAK_DIGESTSIZE = 32"

definition KECCAK_PROCESS_BLOCK :: "u64 list \<Rightarrow> bytes \<Rightarrow> u64 list" where
  "KECCAK_PROCESS_BLOCK st block = keccakf (xor_words KECCAK_WORDS st block) KECCAK_ROUNDS"

definition keccak_init :: KECCAK_CTX where
  "keccak_init = \<lparr>kc_hash = replicate 25 0, kc_message = replicate 136 0, kc_rest = 0\<rparr>"

definition memcpy_at :: "bytes \<Rightarrow> nat \<Rightarrow> bytes \<Rightarrow> bytes" where
  "memcpy_at dest i src = take i dest @ src @ drop (i + length src) dest"

function keccak_update_loop :: "KECCAK_CTX \<Rightarrow> bytes \<Rightarrow> KECCAK_CTX" where
  "keccak_update_loop ctx inp =
     (if KECCAK_BLOCKLEN \<le> length inp then
        let ctx = ctx\<lparr>kc_message := memcpy_at (kc_message ctx) 0 (take KECCAK_BLOCKLEN inp)\<rparr>;
            ctx = ctx\<lparr>kc_hash := KECCAK_PROCESS_BLOCK (kc_hash ctx) (kc_message ctx)\<rparr>
        in keccak_update_loop ctx (drop KECCAK_BLOCKLEN inp)
      else if 0 < length inp then ctx\<lparr>kc_message := memcpy_at (kc_message ctx) 0 inp\<rparr>
      else ctx)"
  by auto
termination by (relation "measure (\<lambda>(_, inp). length inp)") (auto simp: KECCAK_BLOCKLEN_def)

definition keccak_update :: "KECCAK_CTX \<Rightarrow> bytes \<Rightarrow> KECCAK_CTX option" where
  "keccak_update ctx inp =
     (if kc_rest ctx AND KECCAK_FINALIZED \<noteq> 0 then None
      else
        let idx = kc_rest ctx;
            ctx = ctx\<lparr>kc_rest := (kc_rest ctx + length inp) mod KECCAK_BLOCKLEN\<rparr>
        in if idx \<noteq> 0 then
             let left = KECCAK_BLOCKLEN - idx;
                 ctx = ctx\<lparr>kc_message := memcpy_at (kc_message ctx) idx (take left inp)\<rparr>
             in if length inp < left then Some ctx
                else
                  let ctx = ctx\<lparr>kc_hash := KECCAK_PROCESS_BLOCK (kc_hash ctx) (kc_message ctx)\<rparr>
                  in Some (keccak_update_loop ctx (drop left inp))
           else Some (keccak_update_loop ctx inp))"

definition keccak_finish :: "KECCAK_CTX \<Rightarrow> KECCAK_CTX \<times> bytes" where
  "keccak_finish ctx =
     (let ctx = (if kc_rest ctx AND KECCAK_FINALIZED = 0 then
            let m = memcpy_at (kc_message ctx) (kc_rest ctx) (replicate (KECCAK_BLOCKLEN - kc_rest ctx) 0);
                m = m[kc_rest ctx := m ! kc_rest ctx OR 0x01];
                m = m[KECCAK_BLOCKLEN - 1 := m ! (KECCAK_BLOCKLEN - 1) OR 0x80]
            in ctx\<lparr>kc_message := m, kc_hash := KECCAK_PROCESS_BLOCK (kc_hash ctx) m, kc_rest := KECCAK_FINALIZED\<rparr>
          else ctx)
      in (ctx, concat (map store64 (take (KECCAK_DIGESTSIZE div 8) (kc_hash ctx)))))"

definition hash_process :: "bytes \<Rightarrow> bytes option" where
  "hash_process buf = keccak1600 buf"

definition cn_fast_hash :: "bytes \<Rightarrow> bytes option" where
  "cn_fast_hash data = map_option (take HASH_SIZE) (hash_process data)"

text \<open>A sequence of calls of \<open>keccak_update\<close>.\<close>

fun keccak_updates :: "KECCAK_CTX \<Rightarrow> bytes list \<Rightarrow> KECCAK_CTX option" where
  "keccak_updates ctx [] = Some ctx"
| "keccak_updates ctx (inp # inps) =
     (case keccak_update ctx inp of None \<Rightarrow> None | Some ctx \<Rightarrow> keccak_updates ctx inps)"

section \<open>Absorbing\<close>

declare keccak_absorb.simps [simp del] keccak_update_loop.simps [simp del]

lemma load64_append: "8 * i + 8 \<le> length a \<Longrightarrow> load64 (a @ b) i = load64 a i"
  by (simp add: load64_def)

lemma xor_words_append:
  assumes "8 * n \<le> length a"
  shows "xor_words n st (a @ b) = xor_words n st a"
  unfolding xor_words_def
  by (rule foldl_cong) (use assms in \<open>auto simp: load64_append\<close>)

lemma absorb_block:
  assumes "length a = 136"
  shows "keccak_absorb 136 st (a @ b) = keccak_absorb 136 (KECCAK_PROCESS_BLOCK st a) b"
  using assms by (subst keccak_absorb.simps)
    (simp add: xor_words_append KECCAK_PROCESS_BLOCK_def KECCAK_WORDS_def)

lemma absorb_short: "length a < 136 \<Longrightarrow> keccak_absorb 136 st a = (st, a)"
  by (subst keccak_absorb.simps) simp

lemma absorb_rest: "keccak_absorb 136 st d = (h, r) \<Longrightarrow> length r < 136"
proof (induction "length d" arbitrary: d st rule: less_induct)
  case less
  show ?case
  proof (cases "length d < 136")
    case False
    then have "keccak_absorb 136 st d = keccak_absorb 136 (KECCAK_PROCESS_BLOCK st (take 136 d)) (drop 136 d)"
      using absorb_block [of "take 136 d" st "drop 136 d"] by simp
    then show ?thesis using less(1) [of "drop 136 d"] less(2) False by simp
  qed (use less(2) absorb_short in auto)
qed

lemma absorb_append:
  "keccak_absorb 136 st d = (h, r) \<Longrightarrow> keccak_absorb 136 st (d @ x) = keccak_absorb 136 h (r @ x)"
proof (induction "length d" arbitrary: d st rule: less_induct)
  case less
  show ?case
  proof (cases "length d < 136")
    case False
    define p where "p = KECCAK_PROCESS_BLOCK st (take 136 d)"
    have "keccak_absorb 136 st (d @ y) = keccak_absorb 136 p (drop 136 d @ y)" for y
      using absorb_block [of "take 136 d" st "drop 136 d @ y"] False
      by (simp add: p_def append_assoc [symmetric] del: append_assoc)
    from this [of "[]"] this [of x] show ?thesis
      using less(1) [of "drop 136 d" p] less(2) False by simp
  qed (use less(2) absorb_short in auto)
qed

lemma memcpy_at_length: "i + length src \<le> length dest \<Longrightarrow> length (memcpy_at dest i src) = length dest"
  by (simp add: memcpy_at_def)

lemma update_loop_absorbs:
  assumes "length (kc_message ctx) = 136"
  shows "keccak_absorb 136 (kc_hash ctx) inp = (kc_hash (keccak_update_loop ctx inp),
           take (length inp mod 136) (kc_message (keccak_update_loop ctx inp))) \<and>
         length (kc_message (keccak_update_loop ctx inp)) = 136 \<and>
         kc_rest (keccak_update_loop ctx inp) = kc_rest ctx"
  using assms
proof (induction "length inp" arbitrary: inp ctx rule: less_induct)
  case less
  show ?case
  proof (cases "length inp < 136")
    case True
    then have "keccak_update_loop ctx inp =
        (if inp = [] then ctx else ctx\<lparr>kc_message := memcpy_at (kc_message ctx) 0 inp\<rparr>)"
      by (subst keccak_update_loop.simps) (simp add: KECCAK_BLOCKLEN_def)
    then show ?thesis using True less(2) by (simp add: absorb_short memcpy_at_def)
  next
    case False
    define b where "b = take 136 inp"
    have b: "length b = 136" "inp = b @ drop 136 inp" using False by (simp_all add: b_def)
    have m: "memcpy_at (kc_message ctx) 0 b = b" using less(2) b(1) by (simp add: memcpy_at_def)
    define ctx' where "ctx' = ctx\<lparr>kc_message := b, kc_hash := KECCAK_PROCESS_BLOCK (kc_hash ctx) b\<rparr>"
    have "keccak_update_loop ctx inp = keccak_update_loop ctx' (drop 136 inp)"
      using False m by (subst keccak_update_loop.simps) (simp add: KECCAK_BLOCKLEN_def Let_def ctx'_def flip: b_def)
    moreover have "keccak_absorb 136 (kc_hash ctx) inp = keccak_absorb 136 (kc_hash ctx') (drop 136 inp)"
      using absorb_block [OF b(1), of "kc_hash ctx" "drop 136 inp"] b(2) by (simp add: ctx'_def)
    moreover have "length (drop 136 inp) mod 136 = length inp mod 136" using False by (simp add: le_mod_geq)
    ultimately show ?thesis
      using less(1) [of "drop 136 inp" ctx'] False b(1) by (simp add: ctx'_def)
  qed
qed

definition holds :: "KECCAK_CTX \<Rightarrow> bytes \<Rightarrow> bool" where
  "holds ctx d \<longleftrightarrow> length (kc_message ctx) = 136 \<and> kc_rest ctx < 136 \<and>
     keccak_absorb 136 (replicate 25 0) d = (kc_hash ctx, take (kc_rest ctx) (kc_message ctx))"

lemma not_finalized: "n < 136 \<Longrightarrow> n AND KECCAK_FINALIZED = 0"
  using and_exp_eq_0_iff_not_bit [of n 31] by (simp add: KECCAK_FINALIZED_def bit_iff_odd)

lemma update_holds:
  assumes "holds ctx d"
  shows "\<exists>c. keccak_update ctx inp = Some c \<and> holds c (d @ inp)"
proof -
  let ?i = "kc_rest ctx" and ?h = "kc_hash ctx"
  define r where "r = take ?i (kc_message ctx)"
  have h: "length (kc_message ctx) = 136" "?i < 136" "keccak_absorb 136 (replicate 25 0) d = (?h, r)" "length r = ?i"
    using assms by (auto simp: holds_def r_def)
  have ap: "keccak_absorb 136 (replicate 25 0) (d @ inp) = keccak_absorb 136 ?h (r @ inp)"
    using absorb_append [OF h(3)] .
  show ?thesis
  proof (cases "?i = 0")
    case True
    let ?c = "ctx\<lparr>kc_rest := length inp mod 136\<rparr>"
    have "keccak_update ctx inp = Some (keccak_update_loop ?c inp)"
      using True by (simp add: keccak_update_def KECCAK_BLOCKLEN_def)
    moreover have "r = []" using True by (simp add: r_def)
    ultimately show ?thesis
      using update_loop_absorbs [of ?c inp] h ap by (simp add: holds_def)
  next
    case False
    let ?left = "136 - ?i"
    define m where "m = memcpy_at (kc_message ctx) ?i (take ?left inp)"
    have ml: "length m = 136" unfolding m_def using h by (subst memcpy_at_length) auto
    show ?thesis
    proof (cases "length inp < ?left")
      case True
      then have rest: "(?i + length inp) mod 136 = ?i + length inp" using h(2) by simp
      have "keccak_update ctx inp = Some (ctx\<lparr>kc_rest := ?i + length inp, kc_message := m\<rparr>)"
        using False True not_finalized [OF h(2)] rest
        by (simp add: keccak_update_def KECCAK_BLOCKLEN_def Let_def m_def)
      moreover have "keccak_absorb 136 ?h (r @ inp) = (?h, r @ inp)" using True h(4) by (intro absorb_short) simp
      moreover have "take (?i + length inp) m = r @ inp" using True h by (simp add: m_def memcpy_at_def r_def)
      ultimately show ?thesis using True ap ml by (simp add: holds_def)
    next
      case F: False
      have blk: "m = r @ take ?left inp" using F h by (simp add: m_def memcpy_at_def r_def)
      define c where "c = ctx\<lparr>kc_rest := (?i + length inp) mod 136, kc_message := m, kc_hash := KECCAK_PROCESS_BLOCK ?h m\<rparr>"
      have "keccak_update ctx inp = Some (keccak_update_loop c (drop ?left inp))"
        using False F not_finalized [OF h(2)]
        by (simp add: keccak_update_def KECCAK_BLOCKLEN_def Let_def m_def c_def)
      moreover have "keccak_absorb 136 ?h (r @ inp) = keccak_absorb 136 (kc_hash c) (drop ?left inp)"
        using absorb_block [OF ml, of ?h "drop ?left inp"] blk by (simp add: c_def)
      moreover have "(?i + length inp) mod 136 = length (drop ?left inp) mod 136"
        using F h(2) by (simp add: le_mod_geq add.commute)
      ultimately show ?thesis
        using update_loop_absorbs [of c "drop ?left inp"] ap ml by (simp add: holds_def c_def)
    qed
  qed
qed

lemma updates_hold:
  assumes "holds ctx d"
  shows "\<exists>c. keccak_updates ctx inps = Some c \<and> holds c (d @ concat inps)"
  using assms
proof (induction inps arbitrary: ctx d)
  case (Cons inp inps)
  obtain c where c: "keccak_update ctx inp = Some c" "holds c (d @ inp)" using update_holds [OF Cons.prems] by blast
  show ?case using Cons.IH [OF c(2)] c(1) by simp
qed simp

lemma init_holds: "holds keccak_init []"
  by (simp add: holds_def keccak_init_def absorb_short)

section \<open>Finishing\<close>

lemma length_keccakf [simp]: "length (keccakf st n) = length st"
proof -
  have th: "length (theta st) = length st" for st
    unfolding theta_def Let_def by (simp add: upt_rec)
  have rp: "length (fst (foldl (\<lambda>(st, t) i. let j = keccakf_piln ! i; bc0 = st ! j
       in (st[j := ROTL64 t (keccakf_rotc ! i)], bc0)) p is)) = length (fst p)" for p "is"
    by (induction "is" arbitrary: p) (auto simp: Let_def split: prod.split)
  have rho: "length (rho_pi st) = length st" for st
    unfolding rho_pi_def using rp [of "(st, st ! 1)"] by simp
  have ch: "length (chi st) = length st" for st
    unfolding chi_def Let_def by (simp add: upt_rec)
  have "length (foldl (\<lambda>st round. let st = chi (rho_pi (theta st)) in st[0 := st ! 0 XOR keccakf_rndc ! round]) st rs)
      = length st" for rs
    by (induction rs arbitrary: st) (simp_all add: Let_def th ch rho)
  then show ?thesis by (simp add: keccakf_def)
qed

lemma length_xor_words [simp]: "length (xor_words n st b) = length st"
proof -
  have "length (foldl (\<lambda>st i. st[i := st ! i XOR load64 b i]) st xs) = length st" for xs
    by (induction xs arbitrary: st) auto
  then show ?thesis by (simp add: xor_words_def)
qed

lemma length_absorb: "keccak_absorb 136 st d = (h, r) \<Longrightarrow> length h = length st"
proof (induction "length d" arbitrary: d st rule: less_induct)
  case less
  show ?case
  proof (cases "length d < 136")
    case False
    then have "keccak_absorb 136 st d = keccak_absorb 136 (KECCAK_PROCESS_BLOCK st (take 136 d)) (drop 136 d)"
      using absorb_block [of "take 136 d" st "drop 136 d"] by simp
    then show ?thesis
      using less(1) [of "drop 136 d" "KECCAK_PROCESS_BLOCK st (take 136 d)"] less(2) False
      by (simp add: KECCAK_PROCESS_BLOCK_def)
  qed (use less(2) absorb_short in auto)
qed

lemma take_words: "take (8 * k) (concat (map store64 ws)) = concat (map store64 (take k ws))"
proof (induction ws arbitrary: k)
  case (Cons w ws)
  then show ?case by (cases k) auto
qed simp

definition pad :: "bytes \<Rightarrow> bytes" where
  "pad r = (let temp = r @ [1] @ replicate (136 - (length r + 1)) 0 in temp[135 := temp ! 135 OR 0x80])"

definition sponge :: "bytes \<Rightarrow> u64 list" where
  "sponge d = (let (h, r) = keccak_absorb 136 (replicate 25 0) d in KECCAK_PROCESS_BLOCK h (pad r))"

lemma keccak_sponge:
  assumes "mdlen = 32 \<or> mdlen = 200"
  shows "keccak d mdlen = Some (concat (map store64 (take (nat mdlen div 8) (sponge d))))"
proof -
  obtain h r where a: "keccak_absorb 136 (replicate 25 0) d = (h, r)" by fastforce
  have "length r < 136" using absorb_rest [OF a] .
  then show ?thesis
    using assms a unfolding keccak_def sponge_def pad_def KECCAK_PROCESS_BLOCK_def
    by (auto simp: HASH_DATA_AREA_def Let_def KECCAK_WORDS_def)
qed

lemma finish_sponge:
  assumes "holds c d"
  shows "snd (keccak_finish c) = concat (map store64 (take 4 (sponge d)))"
proof -
  let ?r = "take (kc_rest c) (kc_message c)"
  have h: "length (kc_message c) = 136" "kc_rest c < 136" "keccak_absorb 136 (replicate 25 0) d = (kc_hash c, ?r)"
    using assms by (auto simp: holds_def)
  have lr: "length ?r = kc_rest c" using h by simp
  have z: "replicate (136 - kc_rest c) (0 :: u8) = 0 # replicate (136 - (kc_rest c + 1)) 0"
    using h(2) by (metis Suc_diff_Suc Suc_eq_plus1 replicate_Suc)
  have e: "memcpy_at (kc_message c) (kc_rest c) (replicate (136 - kc_rest c) 0) =
      ?r @ 0 # replicate (136 - (kc_rest c + 1)) 0"
    unfolding z [symmetric] using h by (simp add: memcpy_at_def)
  have m: "(memcpy_at (kc_message c) (kc_rest c) (replicate (136 - kc_rest c) 0))
      [kc_rest c := memcpy_at (kc_message c) (kc_rest c) (replicate (136 - kc_rest c) 0) ! kc_rest c OR 1] =
      ?r @ [1] @ replicate (136 - (kc_rest c + 1)) 0"
    unfolding e using lr by (simp add: list_update_append nth_append)
  show ?thesis
    using h m lr not_finalized [OF h(2)]
    by (simp add: keccak_finish_def KECCAK_BLOCKLEN_def KECCAK_DIGESTSIZE_def Let_def sponge_def pad_def)
qed

lemma cn_fast_hash_total: "\<exists>h. cn_fast_hash d = Some h \<and> length h = 32"
proof -
  have l: "length (sponge d) = 25"
    using length_absorb [of "replicate 25 0" d] by (auto simp: sponge_def KECCAK_PROCESS_BLOCK_def split: prod.split)
  then have "length (concat (map store64 (take 4 (sponge d)))) = 32"
    by (simp add: length_concat comp_def sum_list_triv)
  moreover have "take 25 (sponge d) = sponge d" using l by simp
  ultimately show ?thesis
    using keccak_sponge [of 200 d] take_words [of 4 "sponge d"]
    by (simp add: cn_fast_hash_def hash_process_def keccak1600_def HASH_SIZE_def)
qed

text \<open>C12. Keccak in pieces: initialising a context, feeding any sequence of byte strings to
  \<open>keccak_update\<close> and finishing never aborts and gives the digest that the one-shot \<open>keccak\<close>
  computes for their concatenation; \<open>cn_fast_hash\<close>, which truncates the 1600 bit state, is that
  digest too, and it has 32 bytes.\<close>
theorem keccak_incremental:
  "\<exists>ctx. keccak_updates keccak_init chunks = Some ctx \<and>
     keccak (concat chunks) 32 = Some (snd (keccak_finish ctx)) \<and>
     cn_fast_hash (concat chunks) = Some (snd (keccak_finish ctx)) \<and> length (snd (keccak_finish ctx)) = 32"
proof -
  obtain c where c: "keccak_updates keccak_init chunks = Some c" "holds c (concat chunks)"
    using updates_hold [OF init_holds, of chunks] by auto
  have "length (sponge d) = 25" for d
    using length_absorb [of "replicate 25 0" d] by (auto simp: sponge_def KECCAK_PROCESS_BLOCK_def split: prod.split)
  note len = this
  then have "length (concat (map store64 (take 4 (sponge (concat chunks))))) = 32"
    by (simp add: length_concat comp_def sum_list_triv)
  moreover have "take 25 (sponge (concat chunks)) = sponge (concat chunks)" using len by simp
  ultimately show ?thesis
    using c(1) finish_sponge [OF c(2)] keccak_sponge [of 32] keccak_sponge [of 200] take_words [of 4 "sponge (concat chunks)"]
    by (simp add: cn_fast_hash_def hash_process_def keccak1600_def HASH_SIZE_def)
qed

end
