(* ===== verification/Base58.thy ===== *)
theory Base58
  imports Int_Util Varint Keccak
begin

text \<open>
  Base 58 text and addresses, \<open>src/common/base58.cpp\<close>. Texts and data are byte lists. The buffer
  writes of \<open>encode_block\<close> are list updates; a write outside the block would be \<open>None\<close>, and the
  lemmas show that none happens. A refused text is \<open>None\<close>. \<open>SWAP64BE\<close> is \<open>SWAP64\<close>, and the byte copies are
  those of a little-endian machine.
\<close>

section \<open>The code\<close>

definition alphabet :: bytes where
  "alphabet = map of_char ''123456789ABCDEFGHJKLMNPQRSTUVWXYZabcdefghijkmnopqrstuvwxyz''"

definition alphabet_size :: nat where "alphabet_size = 58"

definition encoded_block_sizes :: "nat list" where
  "encoded_block_sizes = [0, 2, 3, 5, 6, 7, 9, 10, 11]"

definition full_block_size :: nat where "full_block_size = 8"
definition full_encoded_block_size :: nat where "full_encoded_block_size = 11"
definition addr_checksum_size :: nat where "addr_checksum_size = 4"

definition reverse_alphabet_data :: "int list" where
  "reverse_alphabet_data =
     foldl (\<lambda>m_data i. m_data[unat (alphabet ! i) - unat (alphabet ! 0) := int i])
       (replicate (unat (alphabet ! (alphabet_size - 1)) - unat (alphabet ! 0) + 1) (- 1)) [0..<alphabet_size]"

definition c_char :: "u8 \<Rightarrow> int" where
  "c_char b = (let u = unat b in if u < 128 then int u else int u - 256)"

definition reverse_alphabet :: "u8 \<Rightarrow> int" where
  "reverse_alphabet letter =
     (let idx = c_char letter - c_char (alphabet ! 0)
      in if 0 \<le> idx \<and> nat idx < length reverse_alphabet_data then reverse_alphabet_data ! nat idx else - 1)"

definition decoded_block_sizes_data :: "int list" where
  "decoded_block_sizes_data =
     foldl (\<lambda>m_data i. m_data[encoded_block_sizes ! i := int i])
       (replicate (encoded_block_sizes ! full_block_size + 1) (- 1)) [0..<full_block_size + 1]"

definition decoded_block_sizes :: "nat \<Rightarrow> int" where
  "decoded_block_sizes encoded_block_size = decoded_block_sizes_data ! encoded_block_size"

definition uint_8be_to_64 :: "bytes \<Rightarrow> u64" where
  "uint_8be_to_64 data = SWAP64 (load64 (replicate (8 - length data) 0 @ data) 0)"

definition uint_64_to_8be :: "u64 \<Rightarrow> nat \<Rightarrow> bytes" where
  "uint_64_to_8be num sz = drop (8 - sz) (store64 (SWAP64 num))"

function encode_block_loop :: "u64 \<Rightarrow> int \<Rightarrow> bytes \<Rightarrow> bytes option" where
  "encode_block_loop num i res =
     (if 0 < num then
        let remainder = num mod of_nat alphabet_size;
            num = num div of_nat alphabet_size
        in if 0 \<le> i \<and> nat i < length res
           then encode_block_loop num (i - 1) (res[nat i := alphabet ! unat remainder])
           else None
      else Some res)"
  by auto
termination
  by (relation "measure (\<lambda>(num, _, _). unat num)")
     (auto simp: alphabet_size_def unat_div_distrib word_less_nat_alt)

definition encode_block :: "bytes \<Rightarrow> bytes \<Rightarrow> bytes option" where
  "encode_block block res =
     encode_block_loop (uint_8be_to_64 block) (int (encoded_block_sizes ! length block) - 1) res"

fun decode_block_loop :: "bytes \<Rightarrow> u64 \<Rightarrow> u64 \<Rightarrow> u64 option" where
  "decode_block_loop [] res_num order = Some res_num"
| "decode_block_loop (letter # block) res_num order =
     (let digit = reverse_alphabet letter
      in if digit < 0 then None
         else
           let (product_lo, product_hi) = mul128 order (of_int digit);
               tmp = res_num + product_lo
           in if tmp < res_num \<or> 0 \<noteq> product_hi then None
              else decode_block_loop block tmp (order * of_nat alphabet_size))"

definition decode_block :: "bytes \<Rightarrow> bytes option" where
  "decode_block block =
     (let res_size = decoded_block_sizes (length block)
      in if res_size \<le> 0 then None
         else case decode_block_loop (rev block) 0 1 of
                None \<Rightarrow> None
              | Some res_num \<Rightarrow>
                  if nat res_size < full_block_size \<and> push_bit (8 * nat res_size) 1 \<le> res_num then None
                  else Some (uint_64_to_8be res_num (nat res_size)))"

fun encode_blocks :: "nat \<Rightarrow> bytes \<Rightarrow> bytes option" where
  "encode_blocks 0 data =
     (if 0 < length data
      then encode_block data (replicate (encoded_block_sizes ! length data) (alphabet ! 0))
      else Some [])"
| "encode_blocks (Suc full_block_count) data =
     (case encode_block (take full_block_size data) (replicate full_encoded_block_size (alphabet ! 0)) of
        None \<Rightarrow> None
      | Some res \<Rightarrow> map_option (append res) (encode_blocks full_block_count (drop full_block_size data)))"

definition encode :: "bytes \<Rightarrow> bytes option" where
  "encode data = (if data = [] then Some [] else encode_blocks (length data div full_block_size) data)"

fun decode_blocks :: "nat \<Rightarrow> bytes \<Rightarrow> bytes option" where
  "decode_blocks 0 enc = (if 0 < length enc then decode_block enc else Some [])"
| "decode_blocks (Suc full_block_count) enc =
     (case decode_block (take full_encoded_block_size enc) of
        None \<Rightarrow> None
      | Some data \<Rightarrow> map_option (append data) (decode_blocks full_block_count (drop full_encoded_block_size enc)))"

definition decode :: "bytes \<Rightarrow> bytes option" where
  "decode enc =
     (if enc = [] then Some []
      else
        let full_block_count = length enc div full_encoded_block_size;
            last_block_size = length enc mod full_encoded_block_size
        in if decoded_block_sizes last_block_size < 0 then None
           else decode_blocks full_block_count enc)"

definition encode_addr :: "u64 \<Rightarrow> bytes \<Rightarrow> bytes option" where
  "encode_addr tag data =
     (let buf = get_varint_data tag @ data
      in case cn_fast_hash buf of
           None \<Rightarrow> None
         | Some hash \<Rightarrow> encode (buf @ take addr_checksum_size hash))"

definition decode_addr :: "bytes \<Rightarrow> (u64 \<times> bytes) option" where
  "decode_addr addr =
     (case decode addr of
        None \<Rightarrow> None
      | Some addr_data \<Rightarrow>
          if length addr_data \<le> addr_checksum_size then None
          else
            let checksum = drop (length addr_data - addr_checksum_size) addr_data;
                addr_data = take (length addr_data - addr_checksum_size) addr_data
            in case cn_fast_hash addr_data of
                 None \<Rightarrow> None
               | Some hash \<Rightarrow>
                   if take addr_checksum_size hash \<noteq> checksum then None
                   else
                     let (read, tag, _) = read_varint addr_data
                     in if read \<le> 0 then None else Some (tag, drop (nat read) addr_data))"

section \<open>Big-endian numbers\<close>

lemma unat_SWAP64: "unat (SWAP64 x) = le_nat (rev (store64 x))"
  using le_nat_store64 [of "SWAP64 x"] by (simp add: store64_SWAP64)

lemma uint_8be_value:
  assumes "length data \<le> 8"
  shows "unat (uint_8be_to_64 data) = le_nat (rev data)"
  using assms by (simp add: uint_8be_to_64_def unat_SWAP64 store64_load64 le_nat_append)

lemma uint_64_to_8be_value:
  assumes "k \<le> 8" and "unat n < 256 ^ k"
  shows "length (uint_64_to_8be n k) = k" and "le_nat (rev (uint_64_to_8be n k)) = unat n"
proof -
  have e: "uint_64_to_8be n k = rev (take k (store64 n))"
    using assms(1) by (simp add: uint_64_to_8be_def rev_take store64_SWAP64)
  then show "length (uint_64_to_8be n k) = k" using assms(1) by simp
  have "take k (store64 n) = map (\<lambda>i. ucast (drop_bit (8 * i) n)) [0..<k]"
    using assms(1) by (simp add: store64_def take_map)
  then show "le_nat (rev (uint_64_to_8be n k)) = unat n"
    using e assms(2) le_nat_bytes [of n k] by simp
qed

section \<open>Base 58 digits\<close>

lemma alphabet_list: "alphabet = [49, 50, 51, 52, 53, 54, 55, 56, 57, 65, 66, 67, 68, 69, 70, 71, 72, 74, 75, 76, 77, 78, 80, 81, 82, 83, 84, 85, 86, 87, 88, 89, 90, 97, 98, 99, 100, 101, 102, 103, 104, 105, 106, 107, 109, 110, 111, 112, 113, 114, 115, 116, 117, 118, 119, 120, 121, 122]"
  by (simp add: alphabet_def of_char_def)

lemma decoded_list: "decoded_block_sizes_data = [0, - 1, 1, 2, - 1, 3, 4, 5, - 1, 6, 7, 8]"
  by (simp add: decoded_block_sizes_data_def encoded_block_sizes_def full_block_size_def upt_rec numeral_eq_Suc)

lemma reverse_list: "reverse_alphabet_data = [0, 1, 2, 3, 4, 5, 6, 7, 8, - 1, - 1, - 1, - 1, - 1, - 1, - 1, 9, 10, 11, 12, 13, 14, 15, 16, - 1, 17, 18, 19, 20, 21, - 1, 22, 23, 24, 25, 26, 27, 28, 29, 30, 31, 32, - 1, - 1, - 1, - 1, - 1, - 1, 33, 34, 35, 36, 37, 38, 39, 40, 41, 42, 43, - 1, 44, 45, 46, 47, 48, 49, 50, 51, 52, 53, 54, 55, 56, 57]"
  unfolding reverse_alphabet_data_def alphabet_list alphabet_size_def by (simp add: upt_rec, simp add: numeral_eq_Suc)

lemma reverse_at: "d < 58 \<Longrightarrow> unat (alphabet ! d) < 128 \<and> 49 \<le> unat (alphabet ! d) \<and>
    unat (alphabet ! d) < 123 \<and> reverse_alphabet_data ! (unat (alphabet ! d) - 49) = int d"
proof -
  have "list_all (\<lambda>d. unat (alphabet ! d) < 128 \<and> 49 \<le> unat (alphabet ! d) \<and>
    unat (alphabet ! d) < 123 \<and> reverse_alphabet_data ! (unat (alphabet ! d) - 49) = int d) [0..<58]"
    unfolding reverse_list alphabet_list by (simp add: upt_rec)
  then show "d < 58 \<Longrightarrow> ?thesis" by (simp add: list_all_iff)
qed

lemma table_at: "i < 74 \<Longrightarrow> 0 \<le> reverse_alphabet_data ! i \<Longrightarrow> nat (reverse_alphabet_data ! i) < 58 \<and>
    unat (alphabet ! nat (reverse_alphabet_data ! i)) = i + 49"
proof -
  have "list_all (\<lambda>i. 0 \<le> reverse_alphabet_data ! i \<longrightarrow> nat (reverse_alphabet_data ! i) < 58 \<and>
    unat (alphabet ! nat (reverse_alphabet_data ! i)) = i + 49) [0..<74]"
    unfolding reverse_list alphabet_list by (simp add: upt_rec)
  then show "i < 74 \<Longrightarrow> 0 \<le> reverse_alphabet_data ! i \<Longrightarrow> ?thesis" by (simp add: list_all_iff)
qed

lemma table_length: "length reverse_alphabet_data = 74" "c_char (alphabet ! 0) = 49"
  by (simp_all add: reverse_list alphabet_list c_char_def)

lemma alphabet_digits:
  assumes "d < 58"
  shows "reverse_alphabet (alphabet ! d) = int d"
proof -
  define u where "u = unat (alphabet ! d)"
  have r: "u < 128" "49 \<le> u" "u < 123" "reverse_alphabet_data ! (u - 49) = int d"
    using reverse_at [OF assms] by (auto simp: u_def)
  have "c_char (alphabet ! d) = int u" using r by (simp add: c_char_def flip: u_def)
  moreover have "nat (int u - 49) = u - 49" by simp
  ultimately show ?thesis using r unfolding reverse_alphabet_def table_length Let_def by simp
qed

lemma reverse_alphabet_range:
  assumes "0 \<le> reverse_alphabet l"
  shows "nat (reverse_alphabet l) < 58" and "alphabet ! nat (reverse_alphabet l) = l"
proof -
  define i where "i = nat (c_char l - 49)"
  have i: "0 \<le> c_char l - 49" "i < 74" "reverse_alphabet l = reverse_alphabet_data ! i"
    using assms unfolding reverse_alphabet_def table_length Let_def i_def by (auto split: if_splits)
  then have t: "nat (reverse_alphabet l) < 58" "unat (alphabet ! nat (reverse_alphabet l)) = i + 49"
    using table_at [of i] assms by auto
  define u where "u = unat l"
  have "u < 256" using unat_bound [of l] by (simp add: u_def)
  then have "u = i + 49" using i(1) unfolding i_def c_char_def Let_def u_def [symmetric] by (auto split: if_splits)
  then show "nat (reverse_alphabet l) < 58" "alphabet ! nat (reverse_alphabet l) = l"
    using t by (simp_all add: word_unat_eq_iff u_def)
qed

fun val58 :: "bytes \<Rightarrow> nat" where
  "val58 [] = 0"
| "val58 (l # ls) = nat (reverse_alphabet l) + 58 * val58 ls"

primrec digs :: "nat \<Rightarrow> nat \<Rightarrow> bytes" where
  "digs 0 n = []"
| "digs (Suc k) n = (alphabet ! (n mod 58)) # digs k (n div 58)"

lemma length_digs [simp]: "length (digs k n) = k"
  by (induction k arbitrary: n) auto

lemma digs_zero: "digs k 0 = replicate k (alphabet ! 0)"
  by (induction k) auto

lemma val58_digs: "n < 58 ^ k \<Longrightarrow> val58 (digs k n) = n"
  by (induction k arbitrary: n) (auto simp: alphabet_digits div_less_iff_less_mult mult.commute)

lemma digs_valid: "l \<in> set (digs k n) \<Longrightarrow> 0 \<le> reverse_alphabet l"
  by (induction k arbitrary: n) (auto simp: alphabet_digits)

lemma digs_val58: "\<forall>l \<in> set ls. 0 \<le> reverse_alphabet l \<Longrightarrow> digs (length ls) (val58 ls) = ls"
  by (induction ls) (auto simp: reverse_alphabet_range)

lemma val58_bound: "\<forall>l \<in> set ls. 0 \<le> reverse_alphabet l \<Longrightarrow> val58 ls < 58 ^ length ls"
proof (induction ls)
  case (Cons l ls)
  have "nat (reverse_alphabet l) < 58" using Cons.prems by (simp add: reverse_alphabet_range)
  then show ?case using Cons by simp
qed simp

lemma encode_loop_digs:
  assumes "unat num < 58 ^ k" and "k \<le> length res" and "take k res = replicate k (alphabet ! 0)"
  shows "encode_block_loop num (int k - 1) res = Some (rev (digs k (unat num)) @ drop k res)"
  using assms
proof (induction k arbitrary: num res)
  case 0
  then show ?case by (simp add: encode_block_loop.simps word_less_nat_alt)
next
  case (Suc k)
  show ?case
  proof (cases "num = 0")
    case True
    then show ?thesis using Suc.prems
      by (subst encode_block_loop.simps)
         (simp only: digs_zero rev_replicate unat_0 less_irrefl if_False, metis append_take_drop_id)
  next
    case False
    let ?c = "alphabet ! unat (num mod of_nat alphabet_size)" and ?n = "num div of_nat alphabet_size"
    have u: "unat ?n = unat num div 58" "unat (num mod of_nat alphabet_size) = unat num mod 58"
      by (simp_all add: alphabet_size_def unat_div_distrib unat_mod_distrib)
    have "encode_block_loop num (int (Suc k) - 1) res = encode_block_loop ?n (int k - 1) (res[k := ?c])"
      using False Suc.prems(2) by (subst encode_block_loop.simps) (simp add: Let_def word_gt_0)
    also have "\<dots> = Some (rev (digs k (unat ?n)) @ drop k (res[k := ?c]))"
    proof (rule Suc.IH)
      show "unat ?n < 58 ^ k" using Suc.prems(1) unfolding u by (simp add: div_less_iff_less_mult mult.commute)
      show "take k (res[k := ?c]) = replicate k (alphabet ! 0)"
        using Suc.prems(3) by (metis Suc_n_not_le_n diff_Suc_1 nle_le replicate_Suc take_replicate take_take take_update_cancel min.absorb1 min.commute Suc_leD le_refl)
    qed (use Suc.prems(2) in simp)
    also have "drop k (res[k := ?c]) = ?c # drop (Suc k) res"
      using Suc.prems(2) by (simp add: Cons_nth_drop_Suc [symmetric] drop_update_cancel)
    finally show ?thesis by (simp add: u)
  qed
qed

lemma order_value: "j \<le> 10 \<Longrightarrow> unat (of_nat (58 ^ j) :: u64) = 58 ^ j"
proof -
  assume "j \<le> 10"
  then have "(58 :: nat) ^ j \<le> 58 ^ 10" by (intro power_increasing) auto
  also have "\<dots> < 2 ^ LENGTH(64)" by simp
  finally show ?thesis unfolding unat_of_nat by (rule mod_less)
qed

lemma decode_loop_value:
  assumes "j + length ls \<le> 11"
  shows "decode_block_loop ls r (of_nat (58 ^ j)) =
    (if (\<forall>l \<in> set ls. 0 \<le> reverse_alphabet l) \<and> unat r + 58 ^ j * val58 ls < 2 ^ 64
     then Some (of_nat (unat r + 58 ^ j * val58 ls)) else None)"
  using assms
proof (induction ls arbitrary: j r)
  case Nil
  show ?case using unat_bound [of r] by simp
next
  case (Cons l ls)
  show ?case
  proof (cases "reverse_alphabet l < 0")
    case True
    then show ?thesis by (auto simp: Let_def)
  next
    case False
    define d where "d = nat (reverse_alphabet l)"
    have d: "d < 58" "reverse_alphabet l = int d" using False reverse_alphabet_range [of l] by (auto simp: d_def)
    have du: "unat (of_int (int d) :: u64) = d" using d(1) by (simp add: unat_of_nat)
    obtain lo hi where m: "mul128 (of_nat (58 ^ j)) (of_int (int d)) = (lo, hi)" by fastforce
    have ord: "unat (of_nat (58 ^ j) :: u64) = 58 ^ j" using order_value [of j] Cons.prems by simp
    have hi: "hi = 0 \<longleftrightarrow> 58 ^ j * d < 2 ^ 64" using m128.wmul_high_zero [OF m] unfolding ord du .
    have lo: "unat lo = 58 ^ j * d mod 2 ^ 64" using m128.wmul_words(2) [OF m] unfolding ord du .
    have step: "decode_block_loop (l # ls) r (of_nat (58 ^ j)) =
        (if r + lo < r \<or> hi \<noteq> 0 then None else decode_block_loop ls (r + lo) (of_nat (58 ^ Suc j)))"
      using d m by (simp add: Let_def alphabet_size_def mult.commute)
    have ok: "\<not> (r + lo < r \<or> hi \<noteq> 0) \<longleftrightarrow> unat r + 58 ^ j * d < 2 ^ 64"
      unfolding add_carry_iff hi lo by (auto simp: not_le)
    show ?thesis
    proof (cases "unat r + 58 ^ j * d < 2 ^ 64")
      case True
      then have "unat (r + lo) = unat r + 58 ^ j * d" using lo by (subst unat_add_noov) auto
      moreover have "58 ^ j * val58 (l # ls) = 58 ^ j * d + 58 ^ Suc j * val58 ls"
        using d(2) by (simp add: algebra_simps)
      ultimately show ?thesis
        using step ok True Cons.IH [of "Suc j" "r + lo"] Cons.prems d(2) by (auto simp: add.assoc)
    next
      case F: False
      have "58 ^ j * d \<le> 58 ^ j * val58 (l # ls)" using d(2) by simp
      then have "\<not> unat r + 58 ^ j * val58 (l # ls) < 2 ^ 64" using F by linarith
      then show ?thesis using step ok F by simp
    qed
  qed
qed

lemma block_sizes:
  assumes "1 \<le> k" and "k \<le> 8"
  shows "decoded_block_sizes (encoded_block_sizes ! k) = int k" and "256 ^ k \<le> (58 :: nat) ^ (encoded_block_sizes ! k)"
    and "encoded_block_sizes ! k \<le> 11" and "1 \<le> encoded_block_sizes ! k"
proof -
  have "k \<in> {1, 2, 3, 4, 5, 6, 7, 8}" using assms by auto
  then show "decoded_block_sizes (encoded_block_sizes ! k) = int k" "256 ^ k \<le> (58 :: nat) ^ (encoded_block_sizes ! k)"
    "encoded_block_sizes ! k \<le> 11" "1 \<le> encoded_block_sizes ! k"
    by (auto simp: encoded_block_sizes_def decoded_block_sizes_def decoded_list)
qed

lemma block_sizes_inv:
  assumes "n \<le> 11" and "0 < decoded_block_sizes n"
  obtains k where "1 \<le> k" "k \<le> 8" "n = encoded_block_sizes ! k" "decoded_block_sizes n = int k"
proof -
  have "n \<in> {0, 1, 2, 3, 4, 5, 6, 7, 8, 9, 10, 11}"
    unfolding insert_iff empty_iff using assms(1) by presburger
  then show thesis
    using that [of 1] that [of 2] that [of 3] that [of 4] that [of 5] that [of 6] that [of 7] that [of 8] assms(2)
    by (auto simp: encoded_block_sizes_def decoded_block_sizes_def decoded_list)
qed

lemma be_bound: "le_nat (rev bs) < 256 ^ length bs"
  using le_nat_bound [of "rev bs"] by simp

lemma encode_block_digs:
  assumes "1 \<le> length b" and "length b \<le> 8"
  shows "encode_block b (replicate (encoded_block_sizes ! length b) (alphabet ! 0)) =
         Some (rev (digs (encoded_block_sizes ! length b) (le_nat (rev b))))"
proof -
  let ?k = "encoded_block_sizes ! length b"
  have v: "unat (uint_8be_to_64 b) = le_nat (rev b)" using assms(2) by (rule uint_8be_value)
  have "unat (uint_8be_to_64 b) < 58 ^ ?k"
    unfolding v using be_bound [of b] block_sizes(2) [OF assms] by linarith
  from encode_loop_digs [OF this, of "replicate ?k (alphabet ! 0)"] show ?thesis
    by (simp add: encode_block_def v)
qed

lemma decode_block_value:
  assumes "1 \<le> k" and "k \<le> 8" and "length e = encoded_block_sizes ! k"
  shows "decode_block e =
    (if (\<forall>l \<in> set e. 0 \<le> reverse_alphabet l) \<and> val58 (rev e) < 256 ^ k
     then Some (uint_64_to_8be (of_nat (val58 (rev e))) k) else None)"
proof -
  note bs = block_sizes [OF assms(1,2)]
  have loop: "decode_block_loop (rev e) 0 1 =
    (if (\<forall>l \<in> set e. 0 \<le> reverse_alphabet l) \<and> val58 (rev e) < 2 ^ 64 then Some (of_nat (val58 (rev e))) else None)"
    using decode_loop_value [of 0 "rev e" 0] bs(3) assms(3) by simp
  show ?thesis
  proof (cases "k = 8")
    case True
    have "(256 :: nat) ^ k = 2 ^ 64" using True by simp
    then show ?thesis using loop bs(1) assms(3) True by (simp add: decode_block_def full_block_size_def)
  next
    case False
    then have k: "k < 8" "8 * k < 64" using assms(2) by simp_all
    have p: "unat (push_bit (8 * k) 1 :: u64) = 256 ^ k"
    proof -
      have "(2 :: nat) ^ (8 * k) < 2 ^ 64" using k by (intro power_strict_increasing) auto
      then have "2 ^ (8 * k) mod 2 ^ LENGTH(64) = (2 :: nat) ^ (8 * k)" by simp
      then show ?thesis unfolding unat_shiftl unat_1 mult_1_left by (simp add: power_mult)
    qed
    have lt: "(256 :: nat) ^ k < 2 ^ 64"
      using k power_strict_increasing [of "8 * k" 64 "2 :: nat"] by (simp add: power_mult)
    have "push_bit (8 * k) 1 \<le> (of_nat (val58 (rev e)) :: u64) \<longleftrightarrow> 256 ^ k \<le> val58 (rev e)"
      if "val58 (rev e) < 2 ^ 64"
      using that unfolding word_le_nat_alt p by (simp add: unat_of_nat)
    then show ?thesis
      using loop bs(1) assms(1,3) k lt by (auto simp: decode_block_def full_block_size_def Let_def)
  qed
qed

lemma decode_encode_block:
  assumes "1 \<le> length b" and "length b \<le> 8"
  shows "decode_block (rev (digs (encoded_block_sizes ! length b) (le_nat (rev b)))) = Some b"
proof -
  let ?k = "encoded_block_sizes ! length b" and ?n = "le_nat (rev b)"
  note bs = block_sizes [OF assms]
  have n: "?n < 256 ^ length b" "?n < 58 ^ ?k" using be_bound [of b] bs(2) by linarith+
  have n64: "?n < 2 ^ 64"
  proof -
    have "(256 :: nat) ^ length b \<le> 256 ^ 8" using assms(2) by (intro power_increasing) auto
    then show ?thesis using n(1) by simp
  qed
  have u: "unat (of_nat ?n :: u64) = ?n" using n64 by (simp add: unat_of_nat)
  have "decode_block (rev (digs ?k ?n)) = Some (uint_64_to_8be (of_nat ?n) (length b))"
    using decode_block_value [OF assms, of "rev (digs ?k ?n)"] n digs_valid by (auto simp: val58_digs)
  moreover have "uint_64_to_8be (of_nat ?n) (length b) = b"
    using uint_64_to_8be_value [OF assms(2), of "of_nat ?n"] n(1) u le_nat_inj [of "rev (uint_64_to_8be (of_nat ?n) (length b))" "rev b"]
    by simp
  ultimately show ?thesis by simp
qed

lemma decode_block_canonical:
  assumes "length e \<le> 11" and "decode_block e = Some b"
  shows "1 \<le> length b \<and> length b \<le> 8 \<and> encoded_block_sizes ! length b = length e \<and>
         rev (digs (length e) (le_nat (rev b))) = e"
proof -
  have "0 < decoded_block_sizes (length e)" using assms(2) by (auto simp: decode_block_def Let_def split: if_splits)
  then obtain k where k: "1 \<le> k" "k \<le> 8" "length e = encoded_block_sizes ! k"
    using block_sizes_inv [OF assms(1)] by metis
  have v: "\<forall>l \<in> set e. 0 \<le> reverse_alphabet l" "val58 (rev e) < 256 ^ k"
    and b: "b = uint_64_to_8be (of_nat (val58 (rev e))) k"
    using assms(2) unfolding decode_block_value [OF k] by (auto split: if_splits)
  have "(256 :: nat) ^ k \<le> 256 ^ 8" using k(2) by (intro power_increasing) auto
  then have u: "unat (of_nat (val58 (rev e)) :: u64) = val58 (rev e)" using v(2) by (simp add: unat_of_nat)
  have "length b = k" "le_nat (rev b) = val58 (rev e)"
    using uint_64_to_8be_value [OF k(2), of "of_nat (val58 (rev e))"] v(2) by (simp_all add: u b)
  moreover have "digs (length (rev e)) (val58 (rev e)) = rev e" using v(1) by (intro digs_val58) auto
  ultimately show ?thesis using k by simp
qed

section \<open>Whole strings\<close>

lemma table_ends: "encoded_block_sizes ! 0 = 0" "encoded_block_sizes ! 8 = 11" "decoded_block_sizes 0 = 0"
  by (simp_all add: encoded_block_sizes_def decoded_block_sizes_def decoded_list)

lemma encoded_size_small: "k < 8 \<Longrightarrow> encoded_block_sizes ! k < 11"
proof -
  assume "k < 8"
  then have "k \<in> {0, 1, 2, 3, 4, 5, 6, 7}" by auto
  then show ?thesis by (auto simp: encoded_block_sizes_def)
qed

lemma encode_blocks_decode:
  assumes "length data div 8 = n"
  shows "\<exists>e. encode_blocks n data = Some e \<and> length e = 11 * n + encoded_block_sizes ! (length data mod 8) \<and>
           decode_blocks n e = Some data"
  using assms
proof (induction n arbitrary: data)
  case 0
  then have len: "length data < 8" by (simp add: div_eq_0_iff)
  show ?case
  proof (cases "data = []")
    case False
    then have l: "1 \<le> length data" "length data \<le> 8" using len by (auto simp: Suc_le_eq)
    have "1 \<le> encoded_block_sizes ! length data" using block_sizes(4) [OF l] .
    then show ?thesis
      using encode_block_digs [OF l] decode_encode_block [OF l] len False by (auto simp flip: length_greater_0_conv)
  qed (simp add: table_ends)
next
  case (Suc n)
  then have len: "8 \<le> length data" by (cases "length data < 8") auto
  let ?b = "take 8 data" and ?r = "drop 8 data"
  have b: "length ?b = 8" using len by simp
  obtain e where e: "encode_blocks n ?r = Some e" "length e = 11 * n + encoded_block_sizes ! (length ?r mod 8)"
    "decode_blocks n e = Some ?r"
    using Suc.IH [of ?r] Suc.prems len by (auto simp: le_div_geq)
  define c where "c = rev (digs 11 (le_nat (rev ?b)))"
  have c: "encode_block ?b (replicate 11 (alphabet ! 0)) = Some c" "decode_block c = Some ?b" "length c = 11"
    using encode_block_digs [of ?b] decode_encode_block [of ?b] b by (simp_all add: c_def table_ends)
  have "length ?r mod 8 = length data mod 8" using len by (simp add: le_mod_geq)
  then show ?case
    using c e by (auto simp: full_block_size_def full_encoded_block_size_def)
qed

lemma decode_blocks_encode:
  assumes "length e div 11 = n" and "decode_blocks n e = Some data"
  shows "encode_blocks n data = Some e \<and> length data div 8 = n"
  using assms
proof (induction n arbitrary: e data)
  case 0
  then have len: "length e < 11" by (simp add: div_eq_0_iff)
  show ?case
  proof (cases "e = []")
    case True
    then show ?thesis using 0 by simp
  next
    case False
    then have d: "decode_block e = Some data" using 0 by simp
    note c = decode_block_canonical [OF less_imp_le [OF len] d]
    have "length data \<noteq> 8" using c len table_ends(2) by auto
    then have "length data < 8" using c by linarith
    then show ?thesis using c encode_block_digs [of data] by auto
  qed
next
  case (Suc n)
  then have len: "11 \<le> length e" by (cases "length e < 11") auto
  obtain b r where b: "decode_block (take 11 e) = Some b" and r: "decode_blocks n (drop 11 e) = Some r"
    and data: "data = b @ r"
    using Suc.prems(2) by (auto simp: full_encoded_block_size_def split: option.splits)
  have IH: "encode_blocks n r = Some (drop 11 e) \<and> length r div 8 = n"
    using Suc.IH [OF _ r] Suc.prems(1) by simp
  note c = decode_block_canonical [OF _ b]
  have l8: "length b = 8"
  proof (rule ccontr)
    assume "length b \<noteq> 8"
    then have "length b < 8" using c len by simp
    then show False using encoded_size_small [of "length b"] c len by simp
  qed
  then have "encode_block b (replicate 11 (alphabet ! 0)) = Some (take 11 e)"
    using encode_block_digs [of b] c len by (simp add: table_ends)
  moreover have "(8 + length r) div 8 = Suc n" using IH by (simp add: le_div_geq)
  ultimately show ?case
    using IH l8 data by (simp add: full_block_size_def full_encoded_block_size_def)
qed

lemma decode_encode: "\<exists>e. encode data = Some e \<and> decode e = Some data"
proof (cases "data = []")
  case False
  obtain e where e: "encode_blocks (length data div 8) data = Some e"
    "length e = 11 * (length data div 8) + encoded_block_sizes ! (length data mod 8)"
    "decode_blocks (length data div 8) e = Some data"
    using encode_blocks_decode [of data] by blast
  let ?l = "length data mod 8"
  have s: "encoded_block_sizes ! ?l < 11" by (simp add: encoded_size_small)
  have q: "length e div 11 = length data div 8" "length e mod 11 = encoded_block_sizes ! ?l" using e(2) s by simp_all
  have "decoded_block_sizes (encoded_block_sizes ! ?l) = int ?l"
    using block_sizes(1) [of ?l] by (cases "?l = 0") (auto simp: table_ends)
  moreover have "e \<noteq> []"
  proof
    assume "e = []"
    then have "decode_blocks (length data div 8) e = Some []" using q(1) by simp
    then show False using e(3) False by simp
  qed
  ultimately show ?thesis
    using e q False by (auto simp: encode_def decode_def Let_def full_block_size_def full_encoded_block_size_def)
qed (simp add: encode_def decode_def)

lemma encode_decode:
  assumes "decode e = Some data"
  shows "encode data = Some e"
proof (cases "e = []")
  case True
  then show ?thesis using assms by (simp add: encode_def decode_def)
next
  case False
  then have "decode_blocks (length e div 11) e = Some data"
    using assms by (auto simp: decode_def Let_def full_encoded_block_size_def split: if_splits)
  from decode_blocks_encode [OF refl this]
  have d: "encode_blocks (length data div 8) data = Some e" by simp
  moreover have "data \<noteq> []" using d False by auto
  ultimately show ?thesis by (simp add: encode_def full_block_size_def)
qed

section \<open>Addresses\<close>

lemma decode_encode_addr: "\<exists>a. encode_addr tag data = Some a \<and> decode_addr a = Some (tag, data)"
proof -
  let ?buf = "get_varint_data tag @ data"
  obtain h where h: "cn_fast_hash ?buf = Some h" "length h = 32" using cn_fast_hash_total by blast
  obtain a where a: "encode (?buf @ take 4 h) = Some a" "decode a = Some (?buf @ take 4 h)"
    using decode_encode by blast
  have r: "read_varint ?buf = (int (length (write_varint tag)), tag, data)"
    using read_varint_write [of tag data] by (simp add: get_varint_data_def)
  have "canonical (write_varint tag)" using write_varint_value [of tag] by simp
  then have pos: "0 < length (write_varint tag)" by (cases "write_varint tag") auto
  have "encode_addr tag data = Some a" using h a by (simp add: encode_addr_def addr_checksum_size_def Let_def)
  moreover have "decode_addr a = Some (tag, data)"
    using h a r pos by (simp add: decode_addr_def addr_checksum_size_def Let_def get_varint_data_def)
  ultimately show ?thesis by blast
qed

lemma encode_decode_addr:
  assumes "decode_addr addr = Some (tag, data)" and "data \<noteq> []"
  shows "encode_addr tag data = Some addr"
proof -
  obtain d where d: "decode addr = Some d" "4 < length d"
    using assms(1) by (auto simp: decode_addr_def addr_checksum_size_def split: option.splits if_splits)
  define b c where "b = take (length d - 4) d" and "c = drop (length d - 4) d"
  obtain h where h: "cn_fast_hash b = Some h" using cn_fast_hash_total by blast
  obtain n and t :: u64 and rest where rd: "read_varint b = (n, t, rest)" by (metis prod_cases3)
  have r: "take 4 h = c" "0 < n" "t = tag" "drop (nat n) b = data"
    using assms(1) d h rd
    by (auto simp: decode_addr_def addr_checksum_size_def Let_def simp flip: b_def c_def split: if_splits)
  have "b = write_varint tag @ data"
  proof -
    have "\<not> (rest = [] \<and> n = int (length b))" using r(4) assms(2) by auto
    then have "b = write_varint tag @ rest \<and> n = int (length (write_varint tag))"
      using read_varint_cases [OF _ rd r(2)] r(3) by auto
    then show ?thesis using r(4) by auto
  qed
  moreover have "encode d = Some addr" using encode_decode [OF d(1)] .
  moreover have "d = b @ c" by (simp add: b_def c_def)
  ultimately show ?thesis using h r(1) by (simp add: encode_addr_def addr_checksum_size_def Let_def get_varint_data_def)
qed

text \<open>C16. Base 58: every byte string encodes and decodes back to itself, and every text that decodes
  is the encoding of its result, so that no two texts stand for the same bytes; texts with a
  foreign letter, a wrong length or a block value that does not fit are refused.\<close>
theorem base58_roundtrip:
  "(\<exists>e. encode data = Some e \<and> decode e = Some data) \<and> (decode txt = Some data \<longrightarrow> encode data = Some txt)"
  using decode_encode encode_decode by blast

theorem base58_roundtrip_witness: "decode (replicate 11 49) = Some (replicate 8 0) \<and> encode (replicate 8 0) = Some (replicate 11 49)"
proof -
  have e: "encode (replicate 8 0) = Some (replicate 11 49)"
    using encode_block_digs [of "replicate 8 0"]
    by (simp add: encode_def full_block_size_def full_encoded_block_size_def table_ends digs_zero alphabet_list)
  obtain t where "encode (replicate 8 0) = Some t" "decode t = Some (replicate 8 0)"
    using base58_roundtrip [of "replicate 8 0"] by blast
  then show ?thesis using e base58_roundtrip [of "replicate 8 0" t] by simp
qed

text \<open>C10. Addresses: the text that \<open>encode_addr\<close> makes of a network tag and a payload decodes to the
  same tag and payload, and a text from which a non-empty payload decodes is the one text that
  \<open>encode_addr\<close> makes: the checksum, the canonical varint and base 58 leave no second spelling.\<close>
theorem address_roundtrip:
  "(\<exists>addr. encode_addr tag data = Some addr \<and> decode_addr addr = Some (tag, data)) \<and>
   (decode_addr txt = Some (tag, data) \<and> data \<noteq> [] \<longrightarrow> encode_addr tag data = Some txt)"
  using decode_encode_addr encode_decode_addr by blast

theorem address_roundtrip_witness:
  "\<exists>txt. decode_addr txt = Some (0x6c80, [1, 2, 3]) \<and> encode_addr 0x6c80 [1, 2, 3] = Some txt"
proof -
  obtain t where "encode_addr 0x6c80 [1, 2, 3] = Some t" "decode_addr t = Some (0x6c80, [1, 2, 3])"
    using address_roundtrip [of "0x6c80" "[1, 2, 3]"] by blast
  then show ?thesis using address_roundtrip [of "0x6c80" "[1, 2, 3]" t] by simp
qed

end
