(* ===== verification/Scalar.thy ===== *)
theory Scalar
  imports Cpp_Prelude "HOL-Library.Monad_Syntax"
begin

text \<open>
  Arithmetic modulo the order of the base point, the functions \<open>sc_*\<close> of \<open>src/crypto/crypto-ops.c\<close>.
  A scalar is an array of 32 bytes, held during the computation in 21-bit limbs \<open>s0\<close>, \<open>s1\<close>, ... of
  type \<open>int64_t\<close>: a list of 24 integers. Signed overflow is undefined, so every sum, difference,
  product and left shift goes through \<open>i64\<close>, which is \<open>None\<close> outside the 64 bit range. The long
  straight-line reductions are lists of four kinds of statement groups, executed by \<open>exec\<close>.
\<close>

section \<open>Loading\<close>

definition load_3 :: "bytes \<Rightarrow> nat \<Rightarrow> u64" where
  "load_3 inp p = ucast (inp ! p) OR push_bit 8 (ucast (inp ! (p + 1))) OR push_bit 16 (ucast (inp ! (p + 2)))"

definition load_4 :: "bytes \<Rightarrow> nat \<Rightarrow> u64" where
  "load_4 inp p =
     ucast (inp ! p) OR push_bit 8 (ucast (inp ! (p + 1))) OR push_bit 16 (ucast (inp ! (p + 2))) OR
     push_bit 24 (ucast (inp ! (p + 3)))"

text \<open>The limbs \<open>a0\<close> to \<open>a11\<close> of a 32 byte scalar; the last one takes the remaining 25 bits.\<close>

definition load_limbs :: "bytes \<Rightarrow> int list" where
  "load_limbs a =
     map sint
      [2097151 AND load_3 a 0,
       2097151 AND drop_bit 5 (load_4 a 2),
       2097151 AND drop_bit 2 (load_3 a 5),
       2097151 AND drop_bit 7 (load_4 a 7),
       2097151 AND drop_bit 4 (load_4 a 10),
       2097151 AND drop_bit 1 (load_3 a 13),
       2097151 AND drop_bit 6 (load_4 a 15),
       2097151 AND drop_bit 3 (load_3 a 18),
       2097151 AND load_3 a 21,
       2097151 AND drop_bit 5 (load_4 a 23),
       2097151 AND drop_bit 2 (load_3 a 26),
       drop_bit 7 (load_4 a 28)]"

text \<open>The limbs \<open>s0\<close> to \<open>s23\<close> of a 64 byte number; the last one takes the remaining 29 bits.\<close>

definition load_limbs_wide :: "bytes \<Rightarrow> int list" where
  "load_limbs_wide s =
     map sint
      [2097151 AND load_3 s 0,
       2097151 AND drop_bit 5 (load_4 s 2),
       2097151 AND drop_bit 2 (load_3 s 5),
       2097151 AND drop_bit 7 (load_4 s 7),
       2097151 AND drop_bit 4 (load_4 s 10),
       2097151 AND drop_bit 1 (load_3 s 13),
       2097151 AND drop_bit 6 (load_4 s 15),
       2097151 AND drop_bit 3 (load_3 s 18),
       2097151 AND load_3 s 21,
       2097151 AND drop_bit 5 (load_4 s 23),
       2097151 AND drop_bit 2 (load_3 s 26),
       2097151 AND drop_bit 7 (load_4 s 28),
       2097151 AND drop_bit 4 (load_4 s 31),
       2097151 AND drop_bit 1 (load_3 s 34),
       2097151 AND drop_bit 6 (load_4 s 36),
       2097151 AND drop_bit 3 (load_3 s 39),
       2097151 AND load_3 s 42,
       2097151 AND drop_bit 5 (load_4 s 44),
       2097151 AND drop_bit 2 (load_3 s 47),
       2097151 AND drop_bit 7 (load_4 s 49),
       2097151 AND drop_bit 4 (load_4 s 52),
       2097151 AND drop_bit 1 (load_3 s 55),
       2097151 AND drop_bit 6 (load_4 s 57),
       drop_bit 3 (load_4 s 60)]"

section \<open>Checked statements on limbs\<close>

definition i64 :: "int \<Rightarrow> int option" where
  "i64 x = (if - (2 ^ 63) \<le> x \<and> x < 2 ^ 63 then Some x else None)"

text \<open>
  \<open>CarryRound i\<close> is \<open>carry_i = (s_i + (1<<20)) >> 21; s_{i+1} += carry_i; s_i -= carry_i << 21\<close>,
  \<open>Carry i\<close> the same without the rounding term, \<open>Fold i\<close> the six statements that add the limb \<open>s_i\<close>,
  \<open>i >= 12\<close>, times the limbs of \<open>-27742317777372353535851937790883648493\<close> to \<open>s_{i-12}\<close> and the
  five limbs above, and \<open>Clear i\<close> is \<open>s_i = 0\<close>.
\<close>

datatype limb_op = CarryRound nat | Carry nat | Fold nat | Clear nat

definition carry_limb :: "int \<Rightarrow> nat \<Rightarrow> int list \<Rightarrow> int list option" where
  "carry_limb r i s =
     do {
       t \<leftarrow> i64 (s ! i + r);
       let carry = drop_bit 21 t;
       u \<leftarrow> i64 (s ! (i + 1) + carry);
       m \<leftarrow> i64 (push_bit 21 carry);
       v \<leftarrow> i64 (s ! i - m);
       Some (s[i + 1 := u, i := v])
     }"

text \<open>The signs and factors of the six statements.\<close>

definition fold_factors :: "(bool \<times> int) list" where
  "fold_factors = [(True, 666643), (True, 470296), (True, 654183), (False, 997805), (True, 136657), (False, 683901)]"

fun fold_limb :: "int \<Rightarrow> nat \<Rightarrow> (bool \<times> int) list \<Rightarrow> int list \<Rightarrow> int list option" where
  "fold_limb x j [] s = Some s"
| "fold_limb x j ((add, c) # cs) s =
     do {
       p \<leftarrow> i64 (x * c);
       v \<leftarrow> i64 (if add then s ! j + p else s ! j - p);
       fold_limb x (j + 1) cs (s[j := v])
     }"

fun exec :: "limb_op \<Rightarrow> int list \<Rightarrow> int list option" where
  "exec (CarryRound i) s = carry_limb (push_bit 20 1) i s"
| "exec (Carry i) s = carry_limb 0 i s"
| "exec (Fold i) s = fold_limb (s ! i) (i - 12) fold_factors s"
| "exec (Clear i) s = Some (s[i := 0])"

fun run :: "limb_op list \<Rightarrow> int list \<Rightarrow> int list option" where
  "run [] s = Some s"
| "run (p # ps) s = do { s \<leftarrow> exec p s; run ps s }"

section \<open>The reductions\<close>

text \<open>The last steps of every function: two carry chains around the last folding of \<open>s12\<close>.\<close>

definition last_steps :: "limb_op list" where
  "last_steps = map Carry [0, 1, 2, 3, 4, 5, 6, 7, 8, 9, 10, 11] @ [Fold 12] @ map Carry [0, 1, 2, 3, 4, 5, 6, 7, 8, 9, 10]"

text \<open>The balancing of the limbs \<open>s0\<close> to \<open>s12\<close> that comes before, with its folding.\<close>

definition low_steps :: "limb_op list" where
  "low_steps =
     map CarryRound [0, 2, 4, 6, 8, 10] @ map CarryRound [1, 3, 5, 7, 9, 11] @ [Fold 12, Clear 12]"

definition high_steps :: "limb_op list" where
  "high_steps =
     map Fold [23, 22, 21, 20, 19, 18] @
     map CarryRound [6, 8, 10, 12, 14, 16] @ map CarryRound [7, 9, 11, 13, 15] @
     map Fold [17, 16, 15, 14, 13, 12] @ [Clear 12]"

text \<open>The balancing of the products.\<close>

definition product_steps :: "limb_op list" where
  "product_steps =
     map CarryRound [0, 2, 4, 6, 8, 10, 12, 14, 16, 18, 20, 22] @
     map CarryRound [1, 3, 5, 7, 9, 11, 13, 15, 17, 19, 21]"

section \<open>Storing\<close>

definition store_limbs :: "int list \<Rightarrow> bytes" where
  "store_limbs s =
     map word_of_int
      [drop_bit 0 (s ! 0),
       drop_bit 8 (s ! 0),
       drop_bit 16 (s ! 0) OR push_bit 5 (s ! 1),
       drop_bit 3 (s ! 1),
       drop_bit 11 (s ! 1),
       drop_bit 19 (s ! 1) OR push_bit 2 (s ! 2),
       drop_bit 6 (s ! 2),
       drop_bit 14 (s ! 2) OR push_bit 7 (s ! 3),
       drop_bit 1 (s ! 3),
       drop_bit 9 (s ! 3),
       drop_bit 17 (s ! 3) OR push_bit 4 (s ! 4),
       drop_bit 4 (s ! 4),
       drop_bit 12 (s ! 4),
       drop_bit 20 (s ! 4) OR push_bit 1 (s ! 5),
       drop_bit 7 (s ! 5),
       drop_bit 15 (s ! 5) OR push_bit 6 (s ! 6),
       drop_bit 2 (s ! 6),
       drop_bit 10 (s ! 6),
       drop_bit 18 (s ! 6) OR push_bit 3 (s ! 7),
       drop_bit 5 (s ! 7),
       drop_bit 13 (s ! 7),
       drop_bit 0 (s ! 8),
       drop_bit 8 (s ! 8),
       drop_bit 16 (s ! 8) OR push_bit 5 (s ! 9),
       drop_bit 3 (s ! 9),
       drop_bit 11 (s ! 9),
       drop_bit 19 (s ! 9) OR push_bit 2 (s ! 10),
       drop_bit 6 (s ! 10),
       drop_bit 14 (s ! 10) OR push_bit 7 (s ! 11),
       drop_bit 1 (s ! 11),
       drop_bit 9 (s ! 11),
       drop_bit 17 (s ! 11)]"

section \<open>The functions\<close>

text \<open>\<open>s12\<close> is set to 0 where the function declares it; the limbs above are not used.\<close>

definition sc_reduce :: "bytes \<Rightarrow> bytes option" where
  "sc_reduce s = map_option store_limbs (run (high_steps @ low_steps @ last_steps) (load_limbs_wide s))"

definition sc_0 :: bytes where
  "sc_0 = replicate 32 0"

definition sc_reduce32 :: "bytes \<Rightarrow> bytes option" where
  "sc_reduce32 s = map_option store_limbs (run (low_steps @ last_steps) (load_limbs s @ replicate 12 0))"

fun map2_i64 :: "(int \<Rightarrow> int \<Rightarrow> int) \<Rightarrow> int list \<Rightarrow> int list \<Rightarrow> int list option" where
  "map2_i64 f (x # xs) (y # ys) = do { v \<leftarrow> i64 (f x y); vs \<leftarrow> map2_i64 f xs ys; Some (v # vs) }"
| "map2_i64 f _ _ = Some []"

definition sc_add :: "bytes \<Rightarrow> bytes \<Rightarrow> bytes option" where
  "sc_add a b =
     do {
       s \<leftarrow> map2_i64 (+) (load_limbs a) (load_limbs b);
       map_option store_limbs (run (low_steps @ last_steps) (s @ replicate 12 0))
     }"

definition sc_sub :: "bytes \<Rightarrow> bytes \<Rightarrow> bytes option" where
  "sc_sub a b =
     do {
       s \<leftarrow> map2_i64 (-) (load_limbs a) (load_limbs b);
       map_option store_limbs (run (low_steps @ last_steps) (s @ replicate 12 0))
     }"

text \<open>The sum \<open>a_i * b_{k-i} + a_{i+1} * b_{k-i-1} + ...\<close> over all indices up to 11, from the left.\<close>

fun sum_i64 :: "int \<Rightarrow> int list \<Rightarrow> int option" where
  "sum_i64 acc [] = Some acc"
| "sum_i64 acc (x # xs) = do { p \<leftarrow> i64 x; acc \<leftarrow> i64 (acc + p); sum_i64 acc xs }"

definition limb_product :: "int list \<Rightarrow> int list \<Rightarrow> nat \<Rightarrow> int option" where
  "limb_product a b k = sum_i64 0 (map (\<lambda>i. a ! i * b ! (k - i)) [k - 11..<Suc (min k 11)])"

text \<open>The statements \<open>s_k = f c_k (...)\<close> for \<open>s0\<close> to \<open>s22\<close>; beyond \<open>s11\<close> there is no \<open>c_k\<close>.\<close>

fun product_limbs :: "(int \<Rightarrow> int \<Rightarrow> int) \<Rightarrow> int list \<Rightarrow> int list \<Rightarrow> int list \<Rightarrow> nat list \<Rightarrow> int list option" where
  "product_limbs f a b c [] = Some []"
| "product_limbs f a b c (k # ks) =
     do {
       p \<leftarrow> limb_product a b k;
       v \<leftarrow> i64 (f (if k < 12 then c ! k else 0) p);
       vs \<leftarrow> product_limbs f a b c ks;
       Some (v # vs)
     }"

definition sc_mulsub :: "bytes \<Rightarrow> bytes \<Rightarrow> bytes \<Rightarrow> bytes option" where
  "sc_mulsub a b c =
     do {
       s \<leftarrow> product_limbs (-) (load_limbs a) (load_limbs b) (load_limbs c) [0..<23];
       map_option store_limbs (run (product_steps @ high_steps @ low_steps @ last_steps) (s @ [0]))
     }"

definition sc_mul :: "bytes \<Rightarrow> bytes \<Rightarrow> bytes option" where
  "sc_mul a b =
     do {
       s \<leftarrow> product_limbs (\<lambda>_ p. p) (load_limbs a) (load_limbs b) [] [0..<23];
       map_option store_limbs (run (product_steps @ high_steps @ low_steps @ last_steps) (s @ [0]))
     }"

definition sc_muladd :: "bytes \<Rightarrow> bytes \<Rightarrow> bytes \<Rightarrow> bytes option" where
  "sc_muladd a b c =
     do {
       s \<leftarrow> product_limbs (+) (load_limbs a) (load_limbs b) (load_limbs c) [0..<23];
       map_option store_limbs (run (product_steps @ high_steps @ low_steps @ last_steps) (s @ [0]))
     }"

definition signum :: "int \<Rightarrow> int" where
  "signum a = (if a > 0 then 1 else if a < 0 then - 1 else 0)"

definition sc_check :: "bytes \<Rightarrow> int" where
  "sc_check s =
     (let s0 = sint (load_4 s 0); s1 = sint (load_4 s 4); s2 = sint (load_4 s 8); s3 = sint (load_4 s 12);
          s4 = sint (load_4 s 16); s5 = sint (load_4 s 20); s6 = sint (load_4 s 24); s7 = sint (load_4 s 28)
      in drop_bit 8
          (signum (1559614444 - s0) + push_bit 1 (signum (1477600026 - s1)) + push_bit 2 (signum (2734136534 - s2)) +
           push_bit 3 (signum (350157278 - s3)) + push_bit 4 (signum (- s4)) + push_bit 5 (signum (- s5)) +
           push_bit 6 (signum (- s6)) + push_bit 7 (signum (268435456 - s7))))"

definition sc_isnonzero :: "bytes \<Rightarrow> int" where
  "sc_isnonzero s = drop_bit 8 (uint (foldl (OR) (s ! 0) (map (\<lambda>i. s ! i) [1..<32])) - 1) + 1"

end
