(* ===== verification/Scalar_Limbs.thy ===== *)
theory Scalar_Limbs
  imports Scalar
begin

text \<open>
  What the statements of the scalar arithmetic do to the value of the limbs: each keeps it modulo the
  group order. An interval analysis of statement lists, shown sound here once, gives that no
  operation leaves the 64 bit range. The last steps make the value canonical.
\<close>

section \<open>The value of limbs\<close>

definition sc_order :: int where
  "sc_order = 2 ^ 252 + 27742317777372353535851937790883648493"

definition lval :: "nat \<Rightarrow> int list \<Rightarrow> int" where
  "lval k s = (\<Sum>i<k. s ! i * 2 ^ (21 * i))"

lemma lval_0 [simp]: "lval 0 s = 0"
  by (simp add: lval_def)

lemma lval_Suc: "lval (Suc k) s = lval k s + s ! k * 2 ^ (21 * k)"
  by (simp add: lval_def)

lemma lval_cong: "(\<And>i. i < k \<Longrightarrow> s ! i = t ! i) \<Longrightarrow> lval k s = lval k t"
  by (simp add: lval_def)

lemma lval_update:
  assumes "j < length s"
  shows "lval k (s[j := x]) = (if j < k then lval k s + (x - s ! j) * 2 ^ (21 * j) else lval k s)"
proof (induction k)
  case (Suc k)
  then show ?case using assms by (auto simp: lval_Suc nth_list_update algebra_simps less_Suc_eq)
qed simp

lemma div_minus_one: "- m \<le> y \<Longrightarrow> y < 0 \<Longrightarrow> y div m = - (1 :: int)"
proof -
  assume "- m \<le> y" "y < 0"
  then have "(y + m) div m = 0" "m \<noteq> 0" by (auto intro: div_pos_pos_trivial)
  moreover have "(y + m) div m = y div m + 1" using calculation(2) by (rule div_add_self2)
  ultimately show ?thesis by simp
qed

section \<open>Interval analysis\<close>

type_synonym bounds = "(int \<times> int) list"

definition fits :: "int \<Rightarrow> int \<Rightarrow> bool" where
  "fits lo hi \<longleftrightarrow> - (2 ^ 63) \<le> lo \<and> hi < 2 ^ 63"

definition in_bounds :: "bounds \<Rightarrow> int list \<Rightarrow> bool" where
  "in_bounds bs s \<longleftrightarrow> length bs = length s \<and> (\<forall>i < length s. fst (bs ! i) \<le> s ! i \<and> s ! i \<le> snd (bs ! i))"

definition abs_carry :: "int \<Rightarrow> nat \<Rightarrow> bounds \<Rightarrow> bounds option" where
  "abs_carry r i bs =
     (let (lo, hi) = bs ! i; cl = (lo + r) div 2097152; ch = (hi + r) div 2097152; (lo1, hi1) = bs ! (i + 1)
      in if fits (lo + r) (hi + r) \<and> fits (cl * 2097152) (ch * 2097152) \<and> fits (lo1 + cl) (hi1 + ch) \<and>
            0 \<le> r \<and> r < 2097152
         then Some (bs[i + 1 := (lo1 + cl, hi1 + ch), i := (- r, 2097151 - r)]) else None)"

fun abs_fold :: "int \<times> int \<Rightarrow> nat \<Rightarrow> (bool \<times> int) list \<Rightarrow> bounds \<Rightarrow> bounds option" where
  "abs_fold b j [] bs = Some bs"
| "abs_fold b j ((add, c) # cs) bs =
     (let (lo, hi) = b; (l, h) = bs ! j; (l', h') = (if add then (l + lo * c, h + hi * c) else (l - hi * c, h - lo * c))
      in if 0 \<le> c \<and> fits (lo * c) (hi * c) \<and> fits l' h' then abs_fold b (j + 1) cs (bs[j := (l', h')]) else None)"

text \<open>The number of limbs that count is part of the abstract state.\<close>

fun abs_exec :: "limb_op \<Rightarrow> nat \<times> bounds \<Rightarrow> (nat \<times> bounds) option" where
  "abs_exec (CarryRound i) (k, bs) = (if i + 1 < k then map_option (Pair k) (abs_carry 1048576 i bs) else None)"
| "abs_exec (Carry i) (k, bs) = (if i + 1 < k then map_option (Pair k) (abs_carry 0 i bs) else None)"
| "abs_exec (Fold i) (k, bs) =
     (if i + 1 = k \<and> 12 \<le> i then map_option (Pair i) (abs_fold (bs ! i) (i - 12) fold_factors bs) else None)"
| "abs_exec (Clear i) (k, bs) = (if i = k \<and> i < length bs then Some (i + 1, bs[i := (0, 0)]) else None)"

fun abs_run :: "limb_op list \<Rightarrow> nat \<times> bounds \<Rightarrow> (nat \<times> bounds) option" where
  "abs_run [] a = Some a"
| "abs_run (p # ps) a = (case abs_exec p a of None \<Rightarrow> None | Some a \<Rightarrow> abs_run ps a)"

lemma i64_fits: "fits lo hi \<Longrightarrow> lo \<le> x \<Longrightarrow> x \<le> hi \<Longrightarrow> i64 x = Some x"
  by (simp add: fits_def i64_def)

lemma i64_SomeD: "i64 x = Some y \<Longrightarrow> y = x"
  by (simp add: i64_def split: if_splits)

lemma in_boundsD: "in_bounds bs s \<Longrightarrow> i < length s \<Longrightarrow> bs ! i = (lo, hi) \<Longrightarrow> lo \<le> s ! i \<and> s ! i \<le> hi"
  unfolding in_bounds_def by (metis fst_conv snd_conv)

lemma in_bounds_update: "in_bounds bs s \<Longrightarrow> lo \<le> x \<Longrightarrow> x \<le> hi \<Longrightarrow> in_bounds (bs[i := (lo, hi)]) (s[i := x])"
  unfolding in_bounds_def by (cases "i < length s") (auto simp: nth_list_update)

subsection \<open>Carries\<close>

text \<open>What a carry does, in terms of the plain integers.\<close>

definition carried :: "int \<Rightarrow> nat \<Rightarrow> int list \<Rightarrow> int list" where
  "carried r i s =
     s[i + 1 := s ! (i + 1) + (s ! i + r) div 2097152, i := s ! i - (s ! i + r) div 2097152 * 2097152]"

lemma length_carried [simp]: "length (carried r i s) = length s"
  by (simp add: carried_def)

lemma carry_limb_eq:
  assumes "i64 (s ! i + r) = Some (s ! i + r)"
    and "i64 (s ! (i + 1) + (s ! i + r) div 2097152) = Some (s ! (i + 1) + (s ! i + r) div 2097152)"
    and "i64 ((s ! i + r) div 2097152 * 2097152) = Some ((s ! i + r) div 2097152 * 2097152)"
    and "i64 (s ! i - (s ! i + r) div 2097152 * 2097152) = Some (s ! i - (s ! i + r) div 2097152 * 2097152)"
  shows "carry_limb r i s = Some (carried r i s)"
  using assms by (simp add: carry_limb_def carried_def drop_bit_eq_div push_bit_eq_mult Let_def)

lemma carry_limbD: "carry_limb r i s = Some t \<Longrightarrow> t = carried r i s"
  by (auto simp: carry_limb_def carried_def drop_bit_eq_div push_bit_eq_mult Let_def bind_eq_Some_conv dest!: i64_SomeD)

lemma carried_rest: "- r \<le> x - (x + r) div 2097152 * (2097152 :: int)" "x - (x + r) div 2097152 * 2097152 \<le> 2097151 - r"
proof -
  have "(x + r) mod 2097152 = (x + r) - (x + r) div 2097152 * 2097152" by (simp add: minus_div_mult_eq_mod)
  moreover have "0 \<le> (x + r) mod 2097152" "(x + r) mod 2097152 < 2097152" by simp_all
  ultimately show "- r \<le> x - (x + r) div 2097152 * 2097152" "x - (x + r) div 2097152 * 2097152 \<le> 2097151 - r"
    by linarith+
qed

lemma abs_carry_sound:
  assumes "in_bounds bs s" and "abs_carry r i bs = Some bs'" and "i + 1 < length s"
  shows "carry_limb r i s = Some (carried r i s)" and "in_bounds bs' (carried r i s)"
proof -
  obtain lo hi lo1 hi1 where b: "bs ! i = (lo, hi)" "bs ! (i + 1) = (lo1, hi1)" by fastforce
  let ?c = "(s ! i + r) div 2097152" and ?cl = "(lo + r) div 2097152" and ?ch = "(hi + r) div 2097152"
  have f: "fits (lo + r) (hi + r)" "fits (?cl * 2097152) (?ch * 2097152)" "fits (lo1 + ?cl) (hi1 + ?ch)"
      "0 \<le> r" "r < 2097152" and bs': "bs' = bs[i + 1 := (lo1 + ?cl, hi1 + ?ch), i := (- r, 2097151 - r)]"
    using assms(2) b by (auto simp: abs_carry_def Let_def split: if_splits)
  have x: "lo \<le> s ! i" "s ! i \<le> hi" and y: "lo1 \<le> s ! (i + 1)" "s ! (i + 1) \<le> hi1"
    using in_boundsD [OF assms(1) _ b(1)] in_boundsD [OF assms(1) _ b(2)] assms(3) by auto
  have c: "?cl \<le> ?c" "?c \<le> ?ch" using x by (auto intro: zdiv_mono1)
  have "fits (- r) (2097151 - r)" using f(4,5) by (simp add: fits_def)
  then have "i64 (s ! i - ?c * 2097152) = Some (s ! i - ?c * 2097152)"
    by (rule i64_fits) (rule carried_rest)+
  moreover have "i64 (?c * 2097152) = Some (?c * 2097152)" by (rule i64_fits [OF f(2)]) (use c in simp_all)
  moreover have "i64 (s ! (i + 1) + ?c) = Some (s ! (i + 1) + ?c)" by (rule i64_fits [OF f(3)]) (use c y in simp_all)
  moreover have "i64 (s ! i + r) = Some (s ! i + r)" by (rule i64_fits [OF f(1)]) (use x in simp_all)
  ultimately show "carry_limb r i s = Some (carried r i s)" by (intro carry_limb_eq)
  show "in_bounds bs' (carried r i s)"
    unfolding bs' carried_def by (intro in_bounds_update assms(1) carried_rest) (use c y in simp_all)
qed

lemma lval_carried:
  assumes "i + 1 < k" and "k \<le> length s"
  shows "lval k (carried r i s) = lval k s"
proof -
  let ?c = "(s ! i + r) div 2097152"
  have "lval k (carried r i s) = lval k s + ?c * 2 ^ (21 * (i + 1)) - ?c * 2097152 * 2 ^ (21 * i)"
    using assms by (simp add: carried_def lval_update algebra_simps)
  also have "(2 :: int) ^ (21 * (i + 1)) = 2097152 * 2 ^ (21 * i)" by (simp add: power_add)
  finally show ?thesis by simp
qed

subsection \<open>Folding\<close>

fun folded :: "int \<Rightarrow> nat \<Rightarrow> (bool \<times> int) list \<Rightarrow> int list \<Rightarrow> int list" where
  "folded x j [] s = s"
| "folded x j ((add, c) # cs) s = folded x (j + 1) cs (s[j := (if add then s ! j + x * c else s ! j - x * c)])"

lemma abs_fold_sound:
  assumes "in_bounds bs s" and "abs_fold (lo, hi) j cs bs = Some bs'" and "lo \<le> x" and "x \<le> hi" and "j + length cs \<le> length s"
  shows "fold_limb x j cs s = Some (folded x j cs s) \<and> in_bounds bs' (folded x j cs s)"
  using assms
proof (induction cs arbitrary: j s bs)
  case (Cons ac cs)
  obtain add c where ac: "ac = (add, c)" by fastforce
  obtain l h where b: "bs ! j = (l, h)" by fastforce
  define l' h' where "l' = (if add then l + lo * c else l - hi * c)" and "h' = (if add then h + hi * c else h - lo * c)"
  have f: "0 \<le> c" "fits (lo * c) (hi * c)" "fits l' h'" "abs_fold (lo, hi) (j + 1) cs (bs[j := (l', h')]) = Some bs'"
    using Cons.prems(2) b by (auto simp: ac l'_def h'_def Let_def split: if_splits)
  have y: "l \<le> s ! j" "s ! j \<le> h" using in_boundsD [OF Cons.prems(1) _ b] Cons.prems(5) by auto
  let ?v = "if add then s ! j + x * c else s ! j - x * c"
  have m: "lo * c \<le> x * c" "x * c \<le> hi * c" using Cons.prems(3,4) f(1) by (auto intro: mult_right_mono)
  then have v: "l' \<le> ?v" "?v \<le> h'" using y by (auto simp: l'_def h'_def)
  have "in_bounds (bs[j := (l', h')]) (s[j := ?v])" using in_bounds_update [OF Cons.prems(1) v] .
  then have "fold_limb x (j + 1) cs (s[j := ?v]) = Some (folded x (j + 1) cs (s[j := ?v])) \<and>
      in_bounds bs' (folded x (j + 1) cs (s[j := ?v]))"
    using Cons.prems(3-5) f(4) by (intro Cons.IH) auto
  moreover have "i64 (x * c) = Some (x * c)" by (rule i64_fits [OF f(2) m])
  moreover have "i64 ?v = Some ?v" by (rule i64_fits [OF f(3) v])
  ultimately show ?case by (simp add: ac)
qed simp

lemma length_folded [simp]: "length (folded x j cs s) = length s"
  by (induction x j cs s rule: folded.induct) auto

lemma folded_above: "j + length cs \<le> i \<Longrightarrow> folded x j cs s ! i = s ! i"
  by (induction x j cs s rule: folded.induct) auto

lemma fold_limbD: "fold_limb x j cs s = Some t \<Longrightarrow> t = folded x j cs s"
  by (induction x j cs s rule: folded.induct) (auto simp: bind_eq_Some_conv dest!: i64_SomeD)

fun factors_val :: "(bool \<times> int) list \<Rightarrow> int" where
  "factors_val [] = 0"
| "factors_val ((add, c) # cs) = (if add then c else - c) + 2097152 * factors_val cs"

lemma lval_folded:
  assumes "j + length cs \<le> k" and "k \<le> length s"
  shows "lval k (folded x j cs s) = lval k s + x * factors_val cs * 2 ^ (21 * j)"
  using assms
proof (induction x j cs s rule: folded.induct)
  case (2 x j add c cs s)
  have "(2 :: int) ^ (21 * (j + 1)) = 2097152 * 2 ^ (21 * j)" by (simp add: power_add)
  then show ?case using 2 by (cases add) (simp_all add: lval_update algebra_simps)
qed simp

lemma length_factors: "length fold_factors = 6"
  by (simp add: fold_factors_def)

lemma factors_val_order: "factors_val fold_factors = 2 ^ 252 - sc_order"
  by (simp add: fold_factors_def sc_order_def)

lemma lval_fold:
  assumes "12 \<le> i" and "i < length s"
  shows "lval i (folded (s ! i) (i - 12) fold_factors s) = lval (Suc i) s - s ! i * 2 ^ (21 * (i - 12)) * sc_order"
proof -
  have "(2 :: int) ^ (21 * i) = 2 ^ (21 * (i - 12) + 252)" using assms(1) by (intro arg_cong [of _ _ "(^) 2"]) linarith
  then have "(2 :: int) ^ (21 * i) = 2 ^ (21 * (i - 12)) * 2 ^ 252" by (simp only: power_add)
  moreover have "lval i (folded (s ! i) (i - 12) fold_factors s) =
      lval i s + s ! i * (2 ^ 252 - sc_order) * 2 ^ (21 * (i - 12))"
    using lval_folded [of "i - 12" fold_factors i s "s ! i"] assms unfolding factors_val_order
    by (simp add: length_factors)
  ultimately show ?thesis by (simp add: lval_Suc algebra_simps)
qed

subsection \<open>Whole lists\<close>

lemma abs_exec_sound:
  assumes "in_bounds bs s" and "abs_exec p (k, bs) = Some (k', bs')" and "k \<le> length s"
  shows "\<exists>t. exec p s = Some t \<and> in_bounds bs' t \<and> length t = length s \<and> k' \<le> length s \<and>
      lval k' t mod sc_order = lval k s mod sc_order"
proof (cases p)
  case (CarryRound i)
  then have i: "i + 1 < k" "abs_carry 1048576 i bs = Some bs'" "k' = k" using assms(2) by (auto split: if_splits)
  then show ?thesis
    using abs_carry_sound [OF assms(1) i(2)] assms(3) lval_carried [OF i(1) assms(3)] CarryRound
    by (simp add: push_bit_eq_mult)
next
  case (Carry i)
  then have i: "i + 1 < k" "abs_carry 0 i bs = Some bs'" "k' = k" using assms(2) by (auto split: if_splits)
  then show ?thesis
    using abs_carry_sound [OF assms(1) i(2)] assms(3) lval_carried [OF i(1) assms(3)] Carry by simp
next
  case (Fold i)
  then have i: "i + 1 = k" "12 \<le> i" "abs_fold (bs ! i) (i - 12) fold_factors bs = Some bs'" "k' = i"
    using assms(2) by (auto split: if_splits)
  obtain lo hi where b: "bs ! i = (lo, hi)" by fastforce
  have "lo \<le> s ! i" "s ! i \<le> hi" using in_boundsD [OF assms(1) _ b] i(1) assms(3) by auto
  then have f: "fold_limb (s ! i) (i - 12) fold_factors s = Some (folded (s ! i) (i - 12) fold_factors s)"
      "in_bounds bs' (folded (s ! i) (i - 12) fold_factors s)"
    using abs_fold_sound [OF assms(1), of lo hi "i - 12" fold_factors bs' "s ! i"] i b assms(3) by (auto simp: length_factors)
  have "lval i (folded (s ! i) (i - 12) fold_factors s) = lval k s + (- (s ! i * 2 ^ (21 * (i - 12)))) * sc_order"
    using lval_fold [OF i(2), of s] i(1) assms(3) by simp
  then have "lval i (folded (s ! i) (i - 12) fold_factors s) mod sc_order = lval k s mod sc_order"
    by (simp only: mod_mult_self1)
  then show ?thesis using f i Fold assms(3) by simp
next
  case (Clear i)
  then have i: "i = k" "i < length s" "k' = i + 1" "bs' = bs[i := (0, 0)]"
    using assms(1,2) by (auto simp: in_bounds_def split: if_splits)
  have "in_bounds bs' (s[i := 0])" unfolding i(4) by (intro in_bounds_update assms(1)) auto
  moreover have "lval (Suc k) (s[i := 0]) = lval k s"
    using i by (simp add: lval_Suc lval_update)
  ultimately show ?thesis using i Clear by simp
qed

lemma abs_run_sound:
  assumes "in_bounds bs s" and "abs_run ps (k, bs) = Some (k', bs')" and "k \<le> length s"
  shows "\<exists>t. run ps s = Some t \<and> in_bounds bs' t \<and> length t = length s \<and> k' \<le> length s \<and>
      lval k' t mod sc_order = lval k s mod sc_order"
  using assms
proof (induction ps arbitrary: k bs s)
  case (Cons p ps)
  obtain k1 bs1 where a: "abs_exec p (k, bs) = Some (k1, bs1)" "abs_run ps (k1, bs1) = Some (k', bs')"
    using Cons.prems(2) by (auto split: option.splits)
  obtain t1 where t1: "exec p s = Some t1" "in_bounds bs1 t1" "length t1 = length s" "k1 \<le> length s"
      "lval k1 t1 mod sc_order = lval k s mod sc_order"
    using abs_exec_sound [OF Cons.prems(1) a(1) Cons.prems(3)] by auto
  then show ?case using Cons.IH [OF t1(2) a(2)] by auto
qed auto

lemma run_append: "run (ps @ qs) s = Option.bind (run ps s) (run qs)"
  by (induction ps arbitrary: s) (auto split: bind_splits)

lemma abs_run_append: "abs_run (ps @ qs) a = Option.bind (abs_run ps a) (abs_run qs)"
  by (induction ps arbitrary: a) (auto split: option.splits)

section \<open>The last steps\<close>

text \<open>A chain of carries from the lowest limb makes the limbs below its end digits.\<close>

lemma limb_carry_chain:
  assumes "run (map Carry [0..<n]) s = Some t" and "n < length s"
  shows "length t = length s" and "lval (Suc n) t = lval (Suc n) s" and "\<And>i. i < n \<Longrightarrow> 0 \<le> t ! i \<and> t ! i < 2097152"
    and "\<And>i. n < i \<Longrightarrow> t ! i = s ! i"
proof -
  have "length t = length s \<and> lval (Suc n) t = lval (Suc n) s \<and> (\<forall>i < n. 0 \<le> t ! i \<and> t ! i < 2097152) \<and> (\<forall>i > n. t ! i = s ! i)"
    using assms
  proof (induction n arbitrary: t)
    case (Suc n)
    obtain u where u: "run (map Carry [0..<n]) s = Some u" "carry_limb 0 n u = Some t"
      using Suc.prems(1) by (auto simp: run_append bind_eq_Some_conv)
    note IH = Suc.IH [OF u(1)]
    have t: "t = carried 0 n u" using carry_limbD [OF u(2)] .
    have len: "length u = length s" "Suc n < length u" using IH Suc.prems(2) by auto
    have "lval (Suc (Suc n)) t = lval (Suc (Suc n)) u" unfolding t using len by (intro lval_carried) auto
    also have "\<dots> = lval (Suc (Suc n)) s" using IH Suc.prems(2) by (simp add: lval_Suc [of "Suc n"])
    finally have v: "lval (Suc (Suc n)) t = lval (Suc (Suc n)) s" .
    have n: "t ! n = u ! n - u ! n div 2097152 * 2097152" using len by (simp add: t carried_def)
    then have "0 \<le> t ! n \<and> t ! n < 2097152" using carried_rest [of 0 "u ! n"] by simp
    moreover have "0 \<le> t ! i \<and> t ! i < 2097152" if "i < n" for i using that IH Suc.prems(2) by (simp add: t carried_def)
    moreover have "t ! i = s ! i" if "Suc n < i" for i using that IH Suc.prems(2) by (simp add: t carried_def)
    ultimately show ?case using v len by (auto simp: t carried_def less_Suc_eq)
  qed simp
  then show "length t = length s" "lval (Suc n) t = lval (Suc n) s" "\<And>i. i < n \<Longrightarrow> 0 \<le> t ! i \<and> t ! i < 2097152"
    "\<And>i. n < i \<Longrightarrow> t ! i = s ! i" by auto
qed

lemma lval_digits:
  assumes "\<And>i. i < n \<Longrightarrow> 0 \<le> t ! i \<and> t ! i < 2097152"
  shows "0 \<le> lval n t \<and> lval n t < 2 ^ (21 * n)"
  using assms
proof (induction n)
  case (Suc n)
  have "t ! n * 2 ^ (21 * n) \<le> 2097151 * (2 :: int) ^ (21 * n)" using Suc.prems [of n] by (intro mult_right_mono) auto
  moreover have "0 \<le> t ! n * (2 :: int) ^ (21 * n)" using Suc.prems [of n] by simp
  moreover have "(2 :: int) ^ (21 * Suc n) = 2097152 * 2 ^ (21 * n)" by (simp add: power_add)
  moreover have "0 \<le> lval n t \<and> lval n t < 2 ^ (21 * n)" using Suc by simp
  ultimately show ?case unfolding lval_Suc by linarith
qed simp

lemma top_limb:
  assumes "\<And>i. i < n \<Longrightarrow> 0 \<le> t ! i \<and> t ! i < 2097152"
  shows "t ! n = lval (Suc n) t div 2 ^ (21 * n)"
  using lval_digits [OF assms, of n] by (simp add: lval_Suc)

lemma carry_upt: "map Carry [0, 1, 2, 3, 4, 5, 6, 7, 8, 9, 10, 11] = map Carry [0..<12]"
    "map Carry [0, 1, 2, 3, 4, 5, 6, 7, 8, 9, 10] = map Carry [0..<11]"
  by (simp_all add: upt_rec)

lemma last_steps_canonical:
  assumes "run last_steps s = Some t" and "12 < length s" and "s ! 12 = 0"
    and "- (2 ^ 252) \<le> lval 12 s" and "lval 12 s < 2 ^ 252"
  shows "lval 12 t = lval 12 s mod sc_order" and "\<And>i. i < 11 \<Longrightarrow> 0 \<le> t ! i \<and> t ! i < 2097152"
proof -
  obtain u where u: "run (map Carry [0..<12]) s = Some u" and t: "run (map Carry [0..<11]) (folded (u ! 12) 0 fold_factors u) = Some t"
    using assms(1) unfolding last_steps_def carry_upt
    by (auto simp: run_append bind_eq_Some_conv dest!: fold_limbD)
  note c = limb_carry_chain [OF u assms(2)]
  let ?v = "lval 12 s" and ?f = "folded (u ! 12) 0 fold_factors u"
  have v13: "lval 13 u = ?v" using c(2) assms(3) lval_Suc [of 12 s] by (simp del: One_nat_def)
  have q: "u ! 12 = ?v div 2 ^ 252" using top_limb [of 12 u] c(3) v13 by simp
  have "lval 12 ?f = ?v - ?v div 2 ^ 252 * sc_order"
    using lval_fold [of 12 u] c(1) assms(2) v13 q by simp
  moreover have "?v div 2 ^ 252 = (if ?v < 0 then - 1 else 0)"
  proof (cases "?v < 0")
    case True
    then show ?thesis using div_minus_one [OF assms(4)] by simp
  qed (use assms(5) in simp)
  moreover have "?v mod sc_order = (if ?v < 0 then ?v + sc_order else ?v)"
  proof (cases "?v < 0")
    case True
    have "?v mod sc_order = (?v + sc_order) mod sc_order" by simp
    also have "\<dots> = ?v + sc_order" using True assms(4) by (intro mod_pos_pos_trivial) (auto simp: sc_order_def)
    finally show ?thesis using True by simp
  qed (use assms(5) in \<open>simp add: sc_order_def\<close>)
  ultimately have f: "lval 12 ?f = ?v mod sc_order" by (simp split: if_splits)
  have l: "11 < length ?f" using c(1) assms(2) by simp
  note d = limb_carry_chain [OF t l]
  show "lval 12 t = ?v mod sc_order" using d(2) f by simp
  show "\<And>i. i < 11 \<Longrightarrow> 0 \<le> t ! i \<and> t ! i < 2097152" using d(3) by blast
qed

end
