(* ===== verification/Scalar_Bytes.thy ===== *)
theory Scalar_Bytes
  imports Scalar_Limbs
begin

text \<open>
  Scalars as bytes and as limbs: loading gives the digits of the number in base \<open>2^21\<close>, and storing
  digits gives the bytes of their value.
\<close>

section \<open>Loading\<close>

lemma bit_le_nat: "bit (le_nat a) n \<longleftrightarrow> n div 8 < length a \<and> bit (a ! (n div 8)) (n mod 8)"
proof (induction a arbitrary: n)
  case (Cons b a)
  have u: "le_nat (b # a) = unat b OR push_bit 8 (le_nat a)"
  proof -
    have "unat b AND push_bit 8 (le_nat a) = 0"
      by (rule bit_eqI) (auto simp: bit_simps dest: bit_imp_le_length)
    then have "unat b + push_bit 8 (le_nat a) = unat b OR push_bit 8 (le_nat a)" by (simp add: disjunctive_add_eq_or)
    then show ?thesis by (simp add: push_bit_eq_mult)
  qed
  show ?case
  proof (cases "n < 8")
    case True
    then show ?thesis unfolding u by (simp add: bit_simps)
  next
    case False
    then have "n div 8 = Suc ((n - 8) div 8)" "n mod 8 = (n - 8) mod 8" by (simp_all add: le_div_geq le_mod_geq)
    moreover have "\<not> bit (unat b) n" using False by (auto simp: bit_simps dest: bit_imp_le_length)
    ultimately show ?thesis unfolding u using False Cons.IH [of "n - 8"] by (simp add: bit_simps)
  qed
qed simp

lemma byte_bit: "p < length a \<Longrightarrow> k < 8 \<Longrightarrow> bit (le_nat a) (8 * p + k) \<longleftrightarrow> bit (a ! p) k"
  by (simp add: bit_le_nat)

lemma bit_load_4:
  assumes "p + 3 < length a"
  shows "bit (load_4 a p) n \<longleftrightarrow> n < 32 \<and> bit (le_nat a) (8 * p + n)"
proof -
  consider "n < 8" | "8 \<le> n" "n < 16" | "16 \<le> n" "n < 24" | "24 \<le> n" "n < 32" | "32 \<le> n" by linarith
  then show ?thesis
  proof cases
    case 1
    then show ?thesis using assms by (simp add: load_4_def bit_simps byte_bit)
  next
    case 2
    then have e: "8 * p + n = 8 * (p + 1) + (n - 8)" by simp
    show ?thesis unfolding e using 2 assms byte_bit [of "p + 1" a "n - 8"] by (auto simp: load_4_def bit_simps dest: bit_imp_le_length)
  next
    case 3
    then have e: "8 * p + n = 8 * (p + 2) + (n - 16)" by simp
    show ?thesis unfolding e using 3 assms byte_bit [of "p + 2" a "n - 16"] by (auto simp: load_4_def bit_simps dest: bit_imp_le_length)
  next
    case 4
    then have e: "8 * p + n = 8 * (p + 3) + (n - 24)" by simp
    show ?thesis unfolding e using 4 assms byte_bit [of "p + 3" a "n - 24"] by (auto simp: load_4_def bit_simps dest: bit_imp_le_length)
  next
    case 5
    then show ?thesis by (auto simp: load_4_def bit_simps dest: bit_imp_le_length)
  qed
qed

lemma bit_load_3:
  assumes "p + 2 < length a"
  shows "bit (load_3 a p) n \<longleftrightarrow> n < 24 \<and> bit (le_nat a) (8 * p + n)"
proof -
  consider "n < 8" | "8 \<le> n" "n < 16" | "16 \<le> n" "n < 24" | "24 \<le> n" by linarith
  then show ?thesis
  proof cases
    case 1
    then show ?thesis using assms by (simp add: load_3_def bit_simps byte_bit)
  next
    case 2
    then have e: "8 * p + n = 8 * (p + 1) + (n - 8)" by simp
    show ?thesis unfolding e using 2 assms byte_bit [of "p + 1" a "n - 8"] by (auto simp: load_3_def bit_simps dest: bit_imp_le_length)
  next
    case 3
    then have e: "8 * p + n = 8 * (p + 2) + (n - 16)" by simp
    show ?thesis unfolding e using 3 assms byte_bit [of "p + 2" a "n - 16"] by (auto simp: load_3_def bit_simps dest: bit_imp_le_length)
  next
    case 4
    then show ?thesis by (auto simp: load_3_def bit_simps dest: bit_imp_le_length)
  qed
qed

text \<open>Digit \<open>i\<close> of \<open>N\<close> in base 2^21.\<close>

definition digit21 :: "nat \<Rightarrow> nat \<Rightarrow> int" where
  "digit21 i N = int (take_bit 21 (drop_bit (21 * i) N))"

lemma sint_bits:
  assumes "\<And>n. bit (w :: u64) n \<longleftrightarrow> bit N n" and "\<not> bit N 63"
  shows "sint w = int N"
proof (rule bit_eqI)
  fix n
  have "\<not> bit N (63 + m)" for m
    using assms bit_imp_le_length [of w "63 + m"] by (cases m) auto
  then have "\<not> bit N n" if "63 \<le> n" using that le_Suc_ex by blast
  then show "bit (sint w) n \<longleftrightarrow> bit (int N) n"
    using assms by (cases "n < 63") (auto simp: bit_signed_iff bit_of_nat_iff_bit min_def)
qed

lemma limb_load_4:
  assumes "p + 3 < length a" and "k + 21 \<le> 32"
  shows "sint (2097151 AND drop_bit k (load_4 a p)) = int (take_bit 21 (drop_bit (8 * p + k) (le_nat a)))"
proof (rule sint_bits)
  have m: "(2097151 :: u64) = mask 21" by (simp add: mask_eq_exp_minus_1)
  show "bit (2097151 AND drop_bit k (load_4 a p)) n \<longleftrightarrow> bit (take_bit 21 (drop_bit (8 * p + k) (le_nat a))) n" for n
    unfolding m using assms by (auto simp: bit_simps bit_load_4 add.assoc)
qed (simp add: bit_simps)

lemma limb_load_3:
  assumes "p + 2 < length a" and "k + 21 \<le> 24"
  shows "sint (2097151 AND drop_bit k (load_3 a p)) = int (take_bit 21 (drop_bit (8 * p + k) (le_nat a)))"
proof (rule sint_bits)
  have m: "(2097151 :: u64) = mask 21" by (simp add: mask_eq_exp_minus_1)
  show "bit (2097151 AND drop_bit k (load_3 a p)) n \<longleftrightarrow> bit (take_bit 21 (drop_bit (8 * p + k) (le_nat a))) n" for n
    unfolding m using assms by (auto simp: bit_simps bit_load_3 add.assoc)
qed (simp add: bit_simps)

lemma limb_load_3_0: "p + 2 < length a \<Longrightarrow> sint (2097151 AND load_3 a p) = int (take_bit 21 (drop_bit (8 * p) (le_nat a)))"
  using limb_load_3 [of p a 0] by simp

lemma limb_load_top:
  assumes "p + 4 = length a"
  shows "sint (drop_bit k (load_4 a p)) = int (drop_bit (8 * p + k) (le_nat a))"
proof (rule sint_bits)
  have "bit (le_nat a) n \<Longrightarrow> n < 8 * p + 32" for n using assms by (auto simp: bit_le_nat)
  then show "bit (drop_bit k (load_4 a p)) n \<longleftrightarrow> bit (drop_bit (8 * p + k) (le_nat a)) n" for n
    using assms by (force simp: bit_simps bit_load_4 add.assoc)
  show "\<not> bit (drop_bit (8 * p + k) (le_nat a)) 63" using assms by (auto simp: bit_simps bit_le_nat)
qed

lemma load_limbs_digits:
  assumes "length a = 32"
  shows "load_limbs a = map (\<lambda>i. digit21 i (le_nat a)) [0..<11] @ [int (drop_bit 231 (le_nat a))]"
  using assms by (simp add: load_limbs_def digit21_def limb_load_4 limb_load_3 limb_load_3_0 limb_load_top upt_rec)

lemma load_limbs_wide_digits:
  assumes "length a = 64"
  shows "load_limbs_wide a = map (\<lambda>i. digit21 i (le_nat a)) [0..<23] @ [int (drop_bit 483 (le_nat a))]"
  using assms by (simp add: load_limbs_wide_def digit21_def limb_load_4 limb_load_3 limb_load_3_0 limb_load_top upt_rec)

lemma take_bit_add: "take_bit (m + n) (N :: nat) = take_bit m N + 2 ^ m * take_bit n (drop_bit m N)"
  by (simp add: take_bit_eq_mod drop_bit_eq_div power_add mod_mult2_eq)

lemma lval_digits21:
  assumes "\<And>i. i < k \<Longrightarrow> s ! i = digit21 i N"
  shows "lval k s = int (take_bit (21 * k) N)"
  using assms
proof (induction k)
  case (Suc k)
  have "int (take_bit (21 * Suc k) N) = int (take_bit (21 * k) N) + 2 ^ (21 * k) * digit21 k N"
    using take_bit_add [of "21 * k" 21 N] by (simp add: digit21_def add.commute)
  then show ?case using Suc by (simp add: lval_Suc)
qed simp

lemma lval_loaded:
  assumes "s = map (\<lambda>i. digit21 i N) [0..<k] @ [int (drop_bit (21 * k) N)] @ r"
  shows "lval (Suc k) s = int N"
proof -
  have "lval k s = int (take_bit (21 * k) N)" by (rule lval_digits21) (simp add: assms nth_append)
  moreover have "s ! k = int (drop_bit (21 * k) N)" by (simp add: assms nth_append)
  moreover have "take_bit (21 * k) N + 2 ^ (21 * k) * drop_bit (21 * k) N = N"
    by (simp add: take_bit_eq_mod drop_bit_eq_div)
  moreover have "int (take_bit (21 * k) N) + int (drop_bit (21 * k) N) * 2 ^ (21 * k) =
      int (take_bit (21 * k) N + 2 ^ (21 * k) * drop_bit (21 * k) N)" by simp
  ultimately show ?thesis unfolding lval_Suc by (simp only:)
qed

section \<open>Storing\<close>

lemma digit_of_lval:
  assumes "\<And>i. i < n \<Longrightarrow> 0 \<le> t ! i \<and> t ! i < 2097152" and "j < n"
  shows "t ! j = take_bit 21 (drop_bit (21 * j) (lval (Suc n) t))"
  using assms
proof (induction n)
  case (Suc n)
  have e: "lval (Suc (Suc n)) t = lval (Suc n) t + 2 ^ (21 * Suc n) * t ! Suc n" by (simp add: lval_Suc)
  show ?case
  proof (cases "j = n")
    case True
    have "lval (Suc (Suc n)) t = lval (Suc n) t + 2 ^ (21 * n) * (2097152 * t ! Suc n)" unfolding e by (simp add: power_add)
    then have "lval (Suc (Suc n)) t div 2 ^ (21 * n) = lval (Suc n) t div 2 ^ (21 * n) + 2097152 * t ! Suc n" by simp
    also have "lval (Suc n) t div 2 ^ (21 * n) = t ! n" using top_limb [of n t] Suc.prems by simp
    finally show ?thesis using True Suc.prems(1) [of n] by (simp add: take_bit_eq_mod drop_bit_eq_div)
  next
    case False
    then have j: "j < n" using Suc.prems(2) by simp
    obtain d where d: "n = Suc (j + d)" using j less_iff_Suc_add by blast
    have "(2 :: int) ^ (21 * Suc n) = 2 ^ (21 * j) * (2097152 * 2 ^ (21 * (d + 1)))" by (simp add: d power_add)
    then have "lval (Suc (Suc n)) t = lval (Suc n) t + 2 ^ (21 * j) * (2097152 * (2 ^ (21 * (d + 1)) * t ! Suc n))"
      unfolding e by simp
    then have "lval (Suc (Suc n)) t div 2 ^ (21 * j) = lval (Suc n) t div 2 ^ (21 * j) + 2097152 * (2 ^ (21 * (d + 1)) * t ! Suc n)" by simp
    then show ?thesis using Suc.IH [OF _ j] Suc.prems(1) by (simp add: take_bit_eq_mod drop_bit_eq_div)
  qed
qed simp

lemma le_nat_int_bytes: "le_nat (map (\<lambda>j. word_of_int (drop_bit (8 * j) V) :: u8) [0..<n]) = nat (V mod 256 ^ n)"
proof (induction n)
  case (Suc n)
  have "unat (word_of_int (drop_bit (8 * n) V) :: u8) = nat (V div 256 ^ n mod 256)"
    by (simp add: unat_eq_nat_uint uint_word_of_int drop_bit_eq_div power_mult take_bit_eq_mod)
  moreover have "V mod 256 ^ Suc n = V mod 256 ^ n + 256 ^ n * (V div 256 ^ n mod 256)"
    by (simp add: mult.commute [of 256] zmod_zmult2_eq)
  ultimately show ?case using Suc by (simp add: le_nat_append nat_add_distrib nat_mult_distrib nat_power_eq)
qed simp

lemma straddle:
  assumes "13 < a" and "a < 21" and "y = take_bit 21 (drop_bit (b + 21) x) \<or> y = drop_bit (b + 21) x"
  shows "word_of_int (drop_bit a (take_bit 21 (drop_bit b x)) OR push_bit (21 - a) y) = (word_of_int (drop_bit (b + a) x) :: u8)"
proof (rule bit_word_eqI)
  fix n assume "n < LENGTH(8)"
  then have n: "n < 8" by simp
  show "bit (word_of_int (drop_bit a (take_bit 21 (drop_bit b x)) OR push_bit (21 - a) y) :: u8) n \<longleftrightarrow>
        bit (word_of_int (drop_bit (b + a) x) :: u8) n"
  proof (cases "a + n < 21")
    case True
    then have "\<not> 21 - a \<le> n" using assms(2) by linarith
    then show ?thesis using n True by (simp add: bit_simps add.assoc)
  next
    case False
    then obtain m where m: "n = (21 - a) + m" using assms(2) by (metis add_diff_inverse_nat add.commute less_diff_conv)
    then have "m < 8" "a + n = 21 + m" "b + a + n = b + 21 + m" using n assms(2) by auto
    then show ?thesis using n assms m by (auto simp: bit_simps add.assoc)
  qed
qed

lemma store_limbs_bytes:
  assumes "\<And>i. i < 11 \<Longrightarrow> 0 \<le> t ! i \<and> t ! i < 2097152"
  shows "store_limbs t = map (\<lambda>j. word_of_int (drop_bit (8 * j) (lval 12 t))) [0..<32]"
proof -
  let ?v = "lval 12 t"
  have d: "t ! j = take_bit 21 (drop_bit (21 * j) ?v)" if "j < 11" for j using digit_of_lval [of 11 t j] that assms by simp
  have t: "t ! 11 = drop_bit 231 ?v" using top_limb [of 11 t] assms by (simp add: drop_bit_eq_div)
  have one: "word_of_int (drop_bit a (take_bit 21 (drop_bit b x))) = (word_of_int (drop_bit (b + a) x) :: u8)" if "a + 8 \<le> 21" for a b x
    using that by (intro bit_word_eqI) (auto simp: bit_simps ac_simps)
  show ?thesis
    unfolding store_limbs_def
    by (simp add: upt_rec d t one [of 0 _ ?v, simplified] one one [of _ 0 ?v, simplified] one [of 0 0 ?v, simplified]
      straddle [of 16 _ 0 ?v, simplified] straddle [of 16 _ _ ?v, simplified] straddle [of 19 _ _ ?v, simplified] straddle [of 14 _ _ ?v, simplified]
      straddle [of 17 _ _ ?v, simplified] straddle [of 20 _ _ ?v, simplified] straddle [of 15 _ _ ?v, simplified] straddle [of 18 _ _ ?v, simplified])
qed

end
