(* ===== verification/Scalar_Correct.thy ===== *)
theory Scalar_Correct
  imports Scalar_Bytes
begin

text \<open>
  The functions \<open>sc_*\<close> compute exactly modulo the group order: the interval analysis is evaluated on
  the statement lists of the source, the products are those of polynomials, and the results are
  canonical. The locale states what the signature code relies on.
\<close>

section \<open>The reductions\<close>

definition horner :: "int list \<Rightarrow> int" where
  "horner xs = foldr (\<lambda>x v. x + 2097152 * v) xs 0"

lemma lval_horner: "lval (length xs) xs = horner xs"
proof (induction xs)
  case (Cons x xs)
  have "lval (Suc k) (x # xs) = x + 2097152 * lval k xs" for k
    by (induction k) (simp_all add: lval_Suc power_add algebra_simps)
  then show ?case using Cons by (simp add: horner_def)
qed (simp add: horner_def)

lemma lval_take: "k \<le> length s \<Longrightarrow> lval k s = horner (take k s)"
  using lval_horner [of "take k s"] lval_cong [of k "take k s" s] by (simp add: min_absorb2)

text \<open>A list of statements passes the analysis when it ends with \<open>s12 = 0\<close>, with a value between
  \<open>-2^252\<close> and \<open>2^252\<close>, and the last steps then stay in range.\<close>

definition analysed :: "limb_op list \<Rightarrow> nat \<Rightarrow> bounds \<Rightarrow> bool" where
  "analysed ps k bs \<longleftrightarrow>
     (case abs_run ps (k, bs) of
        None \<Rightarrow> False
      | Some (k', bs') \<Rightarrow>
          k' = 13 \<and> bs' ! 12 = (0, 0) \<and> - (2 ^ 252) \<le> horner (map fst (take 12 bs')) \<and>
          horner (map snd (take 12 bs')) < 2 ^ 252 \<and> abs_run last_steps (13, bs') \<noteq> None)"

lemma lval_in_bounds:
  assumes "in_bounds bs s" and "k \<le> length s"
  shows "horner (map fst (take k bs)) \<le> lval k s \<and> lval k s \<le> horner (map snd (take k bs))"
proof -
  have l: "length bs = length s" and b: "\<And>i. i < length s \<Longrightarrow> fst (bs ! i) \<le> s ! i \<and> s ! i \<le> snd (bs ! i)"
    using assms(1) by (auto simp: in_bounds_def)
  have e: "horner (map f (take k bs)) = lval k (map f bs)" for f using assms(2) l by (simp add: lval_take take_map)
  have "lval k (map fst bs) \<le> lval k s" "lval k s \<le> lval k (map snd bs)"
    unfolding lval_def using b assms(2) l by (auto intro!: sum_mono mult_right_mono)
  then show ?thesis by (simp only: e)
qed

lemma run_reduces:
  assumes "analysed ps k bs" and "in_bounds bs s" and "length s = 24" and "k \<le> 24"
  shows "\<exists>t. run (ps @ last_steps) s = Some t \<and> le_nat (store_limbs t) = nat (lval k s mod sc_order) \<and> length (store_limbs t) = 32"
proof -
  obtain bs' where a: "abs_run ps (k, bs) = Some (13, bs')" "bs' ! 12 = (0, 0)"
      "- (2 ^ 252) \<le> horner (map fst (take 12 bs'))" "horner (map snd (take 12 bs')) < 2 ^ 252" "abs_run last_steps (13, bs') \<noteq> None"
    using assms(1) by (auto simp: analysed_def split: option.splits)
  obtain u where u: "run ps s = Some u" "in_bounds bs' u" "length u = 24" "lval 13 u mod sc_order = lval k s mod sc_order"
    using abs_run_sound [OF assms(2) a(1)] assms(3,4) by auto
  obtain t where t: "run last_steps u = Some t"
    using a(5) abs_run_sound [OF u(2), of last_steps 13] u(3) by fastforce
  have z: "u ! 12 = 0" using in_boundsD [OF u(2), of 12 0 0] u(3) a(2) by simp
  then have v: "lval 13 u = lval 12 u" using lval_Suc [of 12 u] by simp
  have "- (2 ^ 252) \<le> lval 12 u" "lval 12 u < 2 ^ 252" using lval_in_bounds [OF u(2), of 12] a(3,4) u(3) by auto
  note c = last_steps_canonical [OF t _ z this]
  have w: "lval 12 t = lval k s mod sc_order" using c(1) u(3,4) v by simp
  have "sc_order < 256 ^ 32" "0 < sc_order" by (simp_all add: sc_order_def)
  then have "0 \<le> lval 12 t" "lval 12 t < 256 ^ 32" unfolding w by (auto intro: less_trans [OF pos_mod_bound])
  then have "lval 12 t mod 256 ^ 32 = lval 12 t" by (rule mod_pos_pos_trivial)
  moreover have "store_limbs t = map (\<lambda>j. word_of_int (drop_bit (8 * j) (lval 12 t))) [0..<32]"
    using c(2) u(3) by (intro store_limbs_bytes) auto
  ultimately have "le_nat (store_limbs t) = nat (lval k s mod sc_order)"
    using le_nat_int_bytes [of "lval 12 t" 32] w by simp
  then show ?thesis using u(1) t by (simp add: run_append store_limbs_def)
qed

definition wide_bounds :: bounds where
  "wide_bounds = replicate 23 (0, 2097151) @ [(0, 536870911)]"

definition narrow_bounds :: "int \<Rightarrow> int \<Rightarrow> int \<Rightarrow> int \<Rightarrow> bounds" where
  "narrow_bounds lo hi lo' hi' = replicate 11 (lo, hi) @ [(lo', hi')] @ replicate 12 (0, 0)"

definition product_bounds :: "int \<Rightarrow> int \<Rightarrow> bounds" where
  "product_bounds lo hi = replicate 23 (lo, hi) @ [(0, 0)]"

lemma analysed_wide: "analysed (high_steps @ low_steps) 24 wide_bounds"
  by code_simp

lemma analysed_add: "analysed low_steps 13 (narrow_bounds 0 4194302 0 67108862)"
  by code_simp

lemma analysed_sub: "analysed low_steps 13 (narrow_bounds (- 2097151) 2097151 (- 33554431) 33554431)"
  by code_simp

lemma analysed_product: "analysed (product_steps @ high_steps @ low_steps) 24 (product_bounds (- 13510798882111488) 13510798915665920)"
  by code_simp

section \<open>Loaded scalars\<close>

lemma digit21_bounds: "0 \<le> digit21 i N \<and> digit21 i N \<le> 2097151"
proof -
  have "take_bit 21 (drop_bit (21 * i) N) < 2 ^ 21" by (rule take_bit_nat_less_exp)
  then show ?thesis by (simp add: digit21_def)
qed

lemma in_bounds_append:
  assumes "in_bounds bs s" and "in_bounds bs' s'"
  shows "in_bounds (bs @ bs') (s @ s')"
  using assms unfolding in_bounds_def by (auto simp: nth_append)

lemma in_bounds_map: "(\<And>i. i < n \<Longrightarrow> lo \<le> f i \<and> f i \<le> hi) \<Longrightarrow> in_bounds (replicate n (lo, hi)) (map f [0..<n])"
  by (simp add: in_bounds_def)

lemma in_bounds_single: "lo \<le> x \<Longrightarrow> x \<le> hi \<Longrightarrow> in_bounds [(lo, hi)] [x]"
  by (simp add: in_bounds_def)

lemma in_bounds_zeros: "in_bounds (replicate n (0, 0)) (replicate n 0)"
  by (simp add: in_bounds_def)

lemma top_digit:
  assumes "N < 2 ^ (k + j)"
  shows "0 \<le> int (drop_bit k N) \<and> int (drop_bit k N) \<le> 2 ^ j - 1"
proof -
  have "drop_bit k N < 2 ^ j" using assms unfolding drop_bit_eq_div power_add by (intro less_mult_imp_div_less) (simp add: mult.commute)
  then have "int (drop_bit k N) < int (2 ^ j)" by (simp only: of_nat_less_iff)
  then show ?thesis by simp
qed

lemma le_nat_bits: "length a = n \<Longrightarrow> le_nat a < 2 ^ (8 * n)"
  using le_nat_bound [of a] by (simp add: power_mult)

lemma load_limbs_value:
  assumes "length a = 32"
  shows "lval 12 (load_limbs a @ r) = int (le_nat a)" and "length (load_limbs a) = 12"
    and "\<And>i. i < 11 \<Longrightarrow> 0 \<le> load_limbs a ! i \<and> load_limbs a ! i \<le> 2097151"
    and "0 \<le> load_limbs a ! 11 \<and> load_limbs a ! 11 \<le> 33554431"
proof -
  note d = load_limbs_digits [OF assms]
  show "lval 12 (load_limbs a @ r) = int (le_nat a)" using lval_loaded [of "load_limbs a @ r" "le_nat a" 11 r] d by simp
  show "length (load_limbs a) = 12" by (simp add: d)
  show "0 \<le> load_limbs a ! i \<and> load_limbs a ! i \<le> 2097151" if "i < 11" for i
    using that digit21_bounds by (simp add: d nth_append)
  show "0 \<le> load_limbs a ! 11 \<and> load_limbs a ! 11 \<le> 33554431"
    using top_digit [of "le_nat a" 231 25] le_nat_bits [OF assms] by (simp add: d nth_append)
qed

lemma load_limbs_wide_value:
  assumes "length a = 64"
  shows "lval 24 (load_limbs_wide a) = int (le_nat a)" and "in_bounds wide_bounds (load_limbs_wide a)"
proof -
  note d = load_limbs_wide_digits [OF assms]
  show "lval 24 (load_limbs_wide a) = int (le_nat a)"
    using lval_loaded [of "load_limbs_wide a" "le_nat a" 23 "[]"] d by simp
  show "in_bounds wide_bounds (load_limbs_wide a)"
    unfolding d wide_bounds_def using digit21_bounds top_digit [of "le_nat a" 483 29] le_nat_bits [OF assms]
    by (intro in_bounds_append in_bounds_map in_bounds_single) simp_all
qed

lemma sc_reduce_value:
  assumes "length s = 64"
  shows "\<exists>r. sc_reduce s = Some r \<and> length r = 32 \<and> le_nat r = le_nat s mod nat sc_order"
proof -
  note v = load_limbs_wide_value [OF assms]
  have "length (load_limbs_wide s) = 24" by (simp add: load_limbs_wide_def)
  then obtain t where "run (high_steps @ low_steps @ last_steps) (load_limbs_wide s) = Some t"
      "le_nat (store_limbs t) = nat (lval 24 (load_limbs_wide s) mod sc_order)" "length (store_limbs t) = 32"
    using run_reduces [OF analysed_wide v(2)] by auto
  moreover have "nat (int (le_nat s) mod sc_order) = le_nat s mod nat sc_order"
    by (simp add: nat_mod_distrib sc_order_def)
  ultimately show ?thesis by (auto simp: sc_reduce_def v)
qed

section \<open>Sums and differences\<close>

lemma map2_i64_value:
  assumes "\<And>i. i < length xs \<Longrightarrow> - (2 ^ 63) \<le> f (xs ! i) (ys ! i) \<and> f (xs ! i) (ys ! i) < 2 ^ 63" and "length xs = length ys"
  shows "map2_i64 f xs ys = Some (map2 f xs ys)"
  using assms(2,1)
proof (induction xs ys rule: list_induct2)
  case (Cons x xs y ys)
  have "i64 (f x y) = Some (f x y)" using Cons.prems [of 0] by (simp add: i64_def)
  moreover have "map2_i64 f xs ys = Some (map2 f xs ys)" using Cons.prems [of "Suc _"] by (intro Cons.IH) auto
  ultimately show ?case by simp
qed simp

lemma lval_map2:
  assumes "k \<le> length xs" and "length xs = length ys"
  shows "lval k (map2 (+) xs ys @ r) = lval k xs + lval k ys" and "lval k (map2 (-) xs ys @ r) = lval k xs - lval k ys"
proof -
  have "(map2 f xs ys @ r) ! i = f (xs ! i) (ys ! i)" if "i < k" for f and i
    using that assms by (simp add: nth_append)
  then show "lval k (map2 (+) xs ys @ r) = lval k xs + lval k ys" "lval k (map2 (-) xs ys @ r) = lval k xs - lval k ys"
    by (simp_all add: lval_def sum.distrib sum_subtractf algebra_simps)
qed

lemma in_bounds_narrow:
  assumes "length s = 12" and "\<And>i. i < 11 \<Longrightarrow> lo \<le> s ! i \<and> s ! i \<le> hi" and "lo' \<le> s ! 11 \<and> s ! 11 \<le> hi'"
  shows "in_bounds (narrow_bounds lo hi lo' hi') (s @ replicate 12 0)"
proof -
  have "s = map ((!) s) [0..<11] @ [s ! 11]"
  proof (rule nth_equalityI)
    fix i assume "i < length s"
    then show "s ! i = (map ((!) s) [0..<11] @ [s ! 11]) ! i" using assms(1) by (cases "i = 11") (simp_all add: nth_append)
  qed (simp add: assms(1))
  then have "s @ replicate 12 0 = map ((!) s) [0..<11] @ [s ! 11] @ replicate 12 0" by simp
  then show ?thesis
    unfolding narrow_bounds_def using assms by (simp only:) (intro in_bounds_append in_bounds_map in_bounds_single in_bounds_zeros; simp)
qed

lemma narrow_reduces:
  assumes "analysed low_steps 13 (narrow_bounds lo hi lo' hi')" and "length s = 12"
    and "\<And>i. i < 11 \<Longrightarrow> lo \<le> s ! i \<and> s ! i \<le> hi" and "lo' \<le> s ! 11 \<and> s ! 11 \<le> hi'"
  shows "\<exists>r. map_option store_limbs (run (low_steps @ last_steps) (s @ replicate 12 0)) = Some r \<and> length r = 32 \<and>
      le_nat r = nat (lval 12 s mod sc_order)"
proof -
  have "lval 13 (s @ replicate 12 0) = lval 12 s"
    using lval_Suc [of 12 "s @ replicate 12 0"] lval_cong [of 12 "s @ replicate 12 0" s] assms(2) by (simp add: nth_append)
  then show ?thesis using run_reduces [OF assms(1) in_bounds_narrow] assms(2-4) by fastforce
qed

lemma sc_narrow_values:
  assumes "length a = 32" and "length b = 32"
  shows "\<exists>r. sc_reduce32 a = Some r \<and> length r = 32 \<and> le_nat r = nat (int (le_nat a) mod sc_order)"
    and "\<exists>r. sc_add a b = Some r \<and> length r = 32 \<and> le_nat r = nat ((int (le_nat a) + int (le_nat b)) mod sc_order)"
    and "\<exists>r. sc_sub a b = Some r \<and> length r = 32 \<and> le_nat r = nat ((int (le_nat a) - int (le_nat b)) mod sc_order)"
proof -
  note a = load_limbs_value [OF assms(1)] and b = load_limbs_value [OF assms(2)]
  have a0: "lval 12 (load_limbs a) = int (le_nat a)" and b0: "lval 12 (load_limbs b) = int (le_nat b)"
    using a(1) [of "[]"] b(1) [of "[]"] by simp_all
  have top: "0 \<le> load_limbs a ! i \<and> load_limbs a ! i \<le> 33554431" "0 \<le> load_limbs b ! i \<and> load_limbs b ! i \<le> 33554431" if "i < 12" for i
    using that a(3) [of i] a(4) b(3) [of i] b(4) by (cases "i = 11"; fastforce)+
  show "\<exists>r. sc_reduce32 a = Some r \<and> length r = 32 \<and> le_nat r = nat (int (le_nat a) mod sc_order)"
    unfolding sc_reduce32_def a0 [symmetric]
    by (rule narrow_reduces [OF analysed_add a(2)]) (use a(3,4) in fastforce)+
  have "map2_i64 (+) (load_limbs a) (load_limbs b) = Some (map2 (+) (load_limbs a) (load_limbs b))"
    using top by (intro map2_i64_value) (fastforce simp: a(2) b(2))+
  moreover have "\<exists>r. map_option store_limbs (run (low_steps @ last_steps) (map2 (+) (load_limbs a) (load_limbs b) @ replicate 12 0)) = Some r \<and>
      length r = 32 \<and> le_nat r = nat (lval 12 (map2 (+) (load_limbs a) (load_limbs b)) mod sc_order)"
    by (rule narrow_reduces [OF analysed_add]) (use a b in \<open>fastforce simp: a(2) b(2)\<close>)+
  ultimately show "\<exists>r. sc_add a b = Some r \<and> length r = 32 \<and> le_nat r = nat ((int (le_nat a) + int (le_nat b)) mod sc_order)"
    using lval_map2(1) [of 12 "load_limbs a" "load_limbs b" "[]"] by (simp add: sc_add_def a(2) b(2) a0 b0)
  have "map2_i64 (-) (load_limbs a) (load_limbs b) = Some (map2 (-) (load_limbs a) (load_limbs b))"
    using top by (intro map2_i64_value) (fastforce simp: a(2) b(2))+
  moreover have "\<exists>r. map_option store_limbs (run (low_steps @ last_steps) (map2 (-) (load_limbs a) (load_limbs b) @ replicate 12 0)) = Some r \<and>
      length r = 32 \<and> le_nat r = nat (lval 12 (map2 (-) (load_limbs a) (load_limbs b)) mod sc_order)"
    by (rule narrow_reduces [OF analysed_sub]) (use a b in \<open>fastforce simp: a(2) b(2)\<close>)+
  ultimately show "\<exists>r. sc_sub a b = Some r \<and> length r = 32 \<and> le_nat r = nat ((int (le_nat a) - int (le_nat b)) mod sc_order)"
    using lval_map2(2) [of 12 "load_limbs a" "load_limbs b" "[]"] by (simp add: sc_sub_def a(2) b(2) a0 b0)
qed

section \<open>Products\<close>

lemma sum_i64_value:
  assumes "\<And>x. x \<in> set xs \<Longrightarrow> 0 \<le> x \<and> x \<le> 2 ^ 50" and "0 \<le> acc" and "acc + int (length xs) * 2 ^ 50 < 2 ^ 63"
  shows "sum_i64 acc xs = Some (acc + sum_list xs) \<and> acc + sum_list xs \<le> acc + int (length xs) * 2 ^ 50 \<and> 0 \<le> acc + sum_list xs"
  using assms
proof (induction xs arbitrary: acc)
  case (Cons x xs)
  have x: "0 \<le> x" "x \<le> 2 ^ 50" using Cons.prems(1) by auto
  have l: "int (length (x # xs)) * 2 ^ 50 = int (length xs) * 2 ^ 50 + 2 ^ 50" by (simp add: algebra_simps)
  have "i64 x = Some x" using x by (simp add: i64_def)
  moreover have "i64 (acc + x) = Some (acc + x)" using x Cons.prems(2,3) l by (simp add: i64_def)
  moreover have "sum_i64 (acc + x) xs = Some (acc + x + sum_list xs) \<and> acc + x + sum_list xs \<le> acc + x + int (length xs) * 2 ^ 50 \<and> 0 \<le> acc + x + sum_list xs"
    by (rule Cons.IH) (use x Cons.prems l in \<open>force+\<close>)
  ultimately show ?case using x l by (simp add: add.assoc)
qed simp

definition limbs12 :: "int list \<Rightarrow> bool" where
  "limbs12 a \<longleftrightarrow> length a = 12 \<and> (\<forall>i < 12. 0 \<le> a ! i \<and> a ! i \<le> 33554431)"

text \<open>The coefficients of a product of two polynomials.\<close>

definition conv :: "int list \<Rightarrow> int list \<Rightarrow> nat \<Rightarrow> int" where
  "conv a b k = (\<Sum>i \<in> {k - 11..<Suc (min k 11)}. a ! i * b ! (k - i))"

lemma limb_product_value:
  assumes "limbs12 a" and "limbs12 b" and "k < 23"
  shows "limb_product a b k = Some (conv a b k)" and "0 \<le> conv a b k" and "conv a b k \<le> 13510798882111488"
proof -
  let ?xs = "map (\<lambda>i. a ! i * b ! (k - i)) [k - 11..<Suc (min k 11)]"
  have s: "sum_list ?xs = conv a b k" unfolding conv_def by (simp only: interv_sum_list_conv_sum_set_nat set_upt)
  have "0 \<le> x \<and> x \<le> 2 ^ 50" if x: "x \<in> set ?xs" for x
  proof -
    obtain i where i: "x = a ! i * b ! (k - i)" "i < 12" "k - i < 12" using x by auto
    have "0 \<le> a ! i" "a ! i \<le> 33554431" "0 \<le> b ! (k - i)" "b ! (k - i) \<le> 33554431"
      using i assms(1,2) by (auto simp: limbs12_def)
    then have "0 \<le> x" "x \<le> 33554431 * 33554431"
      unfolding i(1) by (simp, intro mult_mono) simp_all
    then show ?thesis by simp
  qed
  moreover have l: "length ?xs \<le> 12" by (auto simp: min_def)
  then have b: "int (length ?xs) * 2 ^ 50 \<le> 12 * 2 ^ 50" by (intro mult_right_mono) auto
  ultimately have "sum_i64 0 ?xs = Some (0 + sum_list ?xs) \<and> 0 + sum_list ?xs \<le> 0 + int (length ?xs) * 2 ^ 50 \<and> 0 \<le> 0 + sum_list ?xs"
    by (intro sum_i64_value) auto
  then show "limb_product a b k = Some (conv a b k)" "0 \<le> conv a b k" "conv a b k \<le> 13510798882111488"
    using s b by (auto simp: limb_product_def)
qed

lemma conv_sum:
  assumes "length a = 12" and "length b = 12"
  shows "(\<Sum>k<23. conv a b k * 2 ^ (21 * k)) = lval 12 a * lval 12 b"
proof -
  define f g :: "nat \<Rightarrow> int" where "f i = (if i \<le> 11 then a ! i else 0)" and "g i = (if i \<le> 11 then b ! i else 0)" for i
  have c: "conv a b k = (\<Sum>i\<le>k. f i * g (k - i))" if "k \<le> 22" for k
  proof -
    have "(\<Sum>i\<le>k. f i * g (k - i)) = (\<Sum>i \<in> {k - 11..<Suc (min k 11)}. f i * g (k - i))"
      by (rule sum.mono_neutral_right) (auto simp: f_def g_def)
    also have "\<dots> = conv a b k" unfolding conv_def by (rule sum.cong) (auto simp: f_def g_def)
    finally show ?thesis by simp
  qed
  have "lval 12 a = (\<Sum>i\<le>11. f i * (2 ^ 21) ^ i)" "lval 12 b = (\<Sum>i\<le>11. g i * (2 ^ 21) ^ i)"
    unfolding lval_def by (rule sum.cong; force simp: f_def g_def power_mult)+
  then have "lval 12 a * lval 12 b = (\<Sum>r\<le>11 + 11. (\<Sum>k\<le>r. f k * g (r - k)) * (2 ^ 21) ^ r)"
    using polynomial_product [of 11 f 11 g "2 ^ 21"] by (simp add: f_def g_def)
  also have "\<dots> = (\<Sum>k<23. conv a b k * 2 ^ (21 * k))"
    by (rule sum.cong) (auto simp: c power_mult)
  finally show ?thesis by simp
qed

lemma product_limbs_value:
  assumes "limbs12 a" and "limbs12 b" and "set ks \<subseteq> {..<23}"
    and "\<And>k. k < 23 \<Longrightarrow> - 13510798882111488 \<le> f (if k < 12 then c ! k else 0) (conv a b k) \<and>
        f (if k < 12 then c ! k else 0) (conv a b k) \<le> 13510798915665920"
  shows "product_limbs f a b c ks = Some (map (\<lambda>k. f (if k < 12 then c ! k else 0) (conv a b k)) ks)"
  using assms(3)
proof (induction ks)
  case (Cons k ks)
  have "k < 23" using Cons.prems by simp
  moreover have "i64 (f (if k < 12 then c ! k else 0) (conv a b k)) = Some (f (if k < 12 then c ! k else 0) (conv a b k))"
    using assms(4) [OF calculation] by (intro i64_fits [of "- 13510798882111488" 13510798915665920]) (simp_all only: fits_def, simp)
  ultimately show ?case using Cons limb_product_value(1) [OF assms(1,2)] by simp
qed simp

lemma product_reduces:
  assumes "limbs12 a" and "limbs12 b"
    and "\<And>k. k < 23 \<Longrightarrow> - 13510798882111488 \<le> f (if k < 12 then c ! k else 0) (conv a b k) \<and>
        f (if k < 12 then c ! k else 0) (conv a b k) \<le> 13510798915665920"
  shows "\<exists>r. do { s \<leftarrow> product_limbs f a b c [0..<23];
        map_option store_limbs (run (product_steps @ high_steps @ low_steps @ last_steps) (s @ [0])) } = Some r \<and>
      length r = 32 \<and> le_nat r = nat ((\<Sum>k<23. f (if k < 12 then c ! k else 0) (conv a b k) * 2 ^ (21 * k)) mod sc_order)"
proof -
  let ?s = "map (\<lambda>k. f (if k < 12 then c ! k else 0) (conv a b k)) [0..<23]"
  have p: "product_limbs f a b c [0..<23] = Some ?s" using assms by (intro product_limbs_value) auto
  have b: "in_bounds (product_bounds (- 13510798882111488) 13510798915665920) (?s @ [0])"
    unfolding product_bounds_def using assms(3) by (intro in_bounds_append in_bounds_map in_bounds_single) auto
  have "lval 24 (?s @ [0]) = lval 23 (?s @ [0])" using lval_Suc [of 23 "?s @ [0]"] by (simp add: nth_append)
  also have "\<dots> = (\<Sum>k<23. f (if k < 12 then c ! k else 0) (conv a b k) * 2 ^ (21 * k))"
    unfolding lval_def by (rule sum.cong) (auto simp: nth_append)
  finally have v: "lval 24 (?s @ [0]) = \<dots>" .
  obtain t where "run (product_steps @ high_steps @ low_steps @ last_steps) (?s @ [0]) = Some t"
      "le_nat (store_limbs t) = nat (lval 24 (?s @ [0]) mod sc_order)" "length (store_limbs t) = 32"
    using run_reduces [OF analysed_product b] by auto
  then show ?thesis unfolding p v by simp
qed

lemma limbs12_load: "length a = 32 \<Longrightarrow> limbs12 (load_limbs a)"
proof -
  assume a: "length a = 32"
  have "0 \<le> load_limbs a ! i \<and> load_limbs a ! i \<le> 33554431" if "i < 12" for i
    using that load_limbs_value(3) [OF a, of i] load_limbs_value(4) [OF a] by (cases "i = 11") auto
  then show ?thesis using load_limbs_value(2) [OF a] by (simp add: limbs12_def)
qed

lemma sum_c: "(\<Sum>k<23. (if k < 12 then c ! k else 0) * 2 ^ (21 * k)) = lval 12 c"
  unfolding lval_def by (rule sum.mono_neutral_cong_right) auto

lemma sc_product_values:
  assumes "length a = 32" and "length b = 32" and "length c = 32"
  shows "\<exists>r. sc_mul a b = Some r \<and> length r = 32 \<and> le_nat r = nat (int (le_nat a) * int (le_nat b) mod sc_order)"
    and "\<exists>r. sc_muladd a b c = Some r \<and> length r = 32 \<and> le_nat r = nat ((int (le_nat c) + int (le_nat a) * int (le_nat b)) mod sc_order)"
    and "\<exists>r. sc_mulsub a b c = Some r \<and> length r = 32 \<and> le_nat r = nat ((int (le_nat c) - int (le_nat a) * int (le_nat b)) mod sc_order)"
proof -
  let ?a = "load_limbs a" and ?b = "load_limbs b" and ?c = "load_limbs c"
  have l: "limbs12 ?a" "limbs12 ?b" "limbs12 ?c" using assms by (auto intro: limbs12_load)
  have v: "lval 12 ?a = int (le_nat a)" "lval 12 ?b = int (le_nat b)" "lval 12 ?c = int (le_nat c)"
    using load_limbs_value(1) [OF assms(1), of "[]"] load_limbs_value(1) [OF assms(2), of "[]"] load_limbs_value(1) [OF assms(3), of "[]"]
    by simp_all
  have s: "(\<Sum>k<23. conv ?a ?b k * 2 ^ (21 * k)) = int (le_nat a) * int (le_nat b)"
    using conv_sum [of ?a ?b] l v by (simp add: limbs12_def)
  have k: "0 \<le> conv ?a ?b k \<and> conv ?a ?b k \<le> 13510798882111488" if "k < 23" for k
    using limb_product_value(2,3) [OF l(1,2) that] by simp
  have c: "0 \<le> (if k < 12 then ?c ! k else 0) \<and> (if k < 12 then ?c ! k else 0) \<le> 33554431" for k
    using l(3) by (auto simp: limbs12_def)
  show "\<exists>r. sc_mul a b = Some r \<and> length r = 32 \<and> le_nat r = nat (int (le_nat a) * int (le_nat b) mod sc_order)"
    using product_reduces [OF l(1,2), of "\<lambda>_ p. p" "[]"] k s unfolding sc_mul_def by fastforce
  have "(\<Sum>k<23. ((if k < 12 then ?c ! k else 0) + conv ?a ?b k) * 2 ^ (21 * k)) = int (le_nat c) + int (le_nat a) * int (le_nat b)"
    using s sum_c [of ?c] v(3) by (simp only: distrib_right sum.distrib)
  moreover have "- 13510798882111488 \<le> (if k < 12 then ?c ! k else 0) + conv ?a ?b k \<and>
      (if k < 12 then ?c ! k else 0) + conv ?a ?b k \<le> 13510798915665920" if "k < 23" for k
    using k [OF that] c [of k] by linarith
  ultimately show "\<exists>r. sc_muladd a b c = Some r \<and> length r = 32 \<and> le_nat r = nat ((int (le_nat c) + int (le_nat a) * int (le_nat b)) mod sc_order)"
    using product_reduces [OF l(1,2), of "(+)" ?c] unfolding sc_muladd_def by (simp only:)
  have "(\<Sum>k<23. ((if k < 12 then ?c ! k else 0) - conv ?a ?b k) * 2 ^ (21 * k)) = int (le_nat c) - int (le_nat a) * int (le_nat b)"
    using s sum_c [of ?c] v(3) by (simp only: left_diff_distrib sum_subtractf)
  moreover have "- 13510798882111488 \<le> (if k < 12 then ?c ! k else 0) - conv ?a ?b k \<and>
      (if k < 12 then ?c ! k else 0) - conv ?a ?b k \<le> 13510798915665920" if "k < 23" for k
    using k [OF that] c [of k] by linarith
  ultimately show "\<exists>r. sc_mulsub a b c = Some r \<and> length r = 32 \<and> le_nat r = nat ((int (le_nat c) - int (le_nat a) * int (le_nat b)) mod sc_order)"
    using product_reduces [OF l(1,2), of "(-)" ?c] unfolding sc_mulsub_def by (simp only:)
qed

section \<open>Range and zero tests\<close>

lemma lex_sign:
  fixes d :: "nat \<Rightarrow> int"
  assumes "\<And>i. i < n \<Longrightarrow> \<bar>d i\<bar> < B"
  shows "\<bar>\<Sum>i<n. d i * B ^ i\<bar> < B ^ n \<and> \<bar>\<Sum>i<n. signum (d i) * 2 ^ i\<bar> < 2 ^ n \<and>
    (0 \<le> (\<Sum>i<n. signum (d i) * 2 ^ i) \<longleftrightarrow> 0 \<le> (\<Sum>i<n. d i * B ^ i))"
  using assms
proof (induction n)
  case (Suc n)
  let ?s = "\<Sum>i<n. d i * B ^ i" and ?t = "\<Sum>i<n. signum (d i) * 2 ^ i"
  have IH: "\<bar>?s\<bar> < B ^ n" "\<bar>?t\<bar> < 2 ^ n" "0 \<le> ?t \<longleftrightarrow> 0 \<le> ?s" using Suc by auto
  have dn: "\<bar>d n\<bar> \<le> B - 1" using Suc.prems [of n] by simp
  have p: "0 \<le> B ^ n" using IH(1) by linarith
  have "\<bar>d n\<bar> * B ^ n \<le> (B - 1) * B ^ n" using dn p by (intro mult_right_mono) auto
  then have "\<bar>d n * B ^ n\<bar> \<le> B * B ^ n - B ^ n" using p by (simp add: abs_mult algebra_simps)
  moreover have "\<bar>signum (d n) * 2 ^ n\<bar> \<le> 2 ^ n" by (simp add: signum_def)
  moreover have "0 \<le> signum (d n) * 2 ^ n + ?t \<longleftrightarrow> 0 \<le> d n * B ^ n + ?s"
  proof (cases "d n" "0 :: int" rule: linorder_cases)
    case less
    then have "d n * B ^ n \<le> - 1 * B ^ n" using p by (intro mult_right_mono) auto
    moreover have "signum (d n) = - 1" using less by (simp add: signum_def)
    ultimately show ?thesis using IH(1,2) by auto
  next
    case greater
    then have "1 * B ^ n \<le> d n * B ^ n" using p by (intro mult_right_mono) auto
    moreover have "signum (d n) = 1" using greater by (simp add: signum_def)
    ultimately show ?thesis using IH(1,2) by auto
  qed (use IH in \<open>simp add: signum_def\<close>)
  moreover have "(\<Sum>i<Suc n. d i * B ^ i) = d n * B ^ n + ?s" "(\<Sum>i<Suc n. signum (d i) * 2 ^ i) = signum (d n) * 2 ^ n + ?t"
    by simp_all
  ultimately show ?case unfolding power_Suc using IH by (intro conjI) linarith+
qed simp

lemma load_4_digit:
  assumes "4 * i + 3 < length s"
  shows "sint (load_4 s (4 * i)) = int (take_bit 32 (drop_bit (32 * i) (le_nat s)))"
proof (rule sint_bits)
  show "bit (load_4 s (4 * i)) n \<longleftrightarrow> bit (take_bit 32 (drop_bit (32 * i) (le_nat s))) n" for n
    using assms by (auto simp: bit_load_4 bit_simps)
qed (simp add: bit_simps)

lemma sum_digits: "(\<Sum>i<k. int (take_bit 32 (drop_bit (32 * i) N)) * 4294967296 ^ i) = int (take_bit (32 * k) N)"
proof (induction k)
  case (Suc k)
  have "int (take_bit (32 * Suc k) N) = int (take_bit (32 * k) N) + 2 ^ (32 * k) * int (take_bit 32 (drop_bit (32 * k) N))"
    using take_bit_add [of "32 * k" 32 N] by (simp add: add.commute)
  moreover have "(2 :: int) ^ (32 * k) = 4294967296 ^ k" by (simp add: power_mult)
  ultimately show ?case using Suc by simp
qed simp

lemma sc_check_value:
  assumes "length s = 32"
  shows "sc_check s = (if int (le_nat s) < sc_order then 0 else - 1)"
proof -
  define L :: "int list" where "L = [1559614444, 1477600026, 2734136534, 350157278, 0, 0, 0, 268435456]"
  define w where "w i = int (take_bit 32 (drop_bit (32 * i) (le_nat s)))" for i
  define d where "d i = L ! i - w i" for i
  have w: "0 \<le> w i" "w i < 4294967296" for i
  proof -
    have "take_bit 32 (drop_bit (32 * i) (le_nat s)) < 2 ^ 32" by (rule take_bit_nat_less_exp)
    then show "w i < 4294967296" by (simp add: w_def)
  qed (simp add: w_def)
  have i8: "i < 8 \<Longrightarrow> i \<in> {0, 1, 2, 3, 4, 5, 6, 7}" for i :: nat by auto
  have L: "0 \<le> L ! i \<and> L ! i < 4294967296" if "i < 8" for i
    using i8 [OF that] by (elim insertE emptyE) (simp_all add: L_def)
  have "\<bar>d i\<bar> < 4294967296" if "i < 8" for i using w [of i] L [OF that] unfolding d_def by linarith
  note x = lex_sign [of 8 d, OF this]
  have "(\<Sum>i<8. L ! i * 4294967296 ^ i) = sc_order - 1"
    by (simp add: L_def sc_order_def eval_nat_numeral)
  moreover have "(\<Sum>i<8. w i * 4294967296 ^ i) = int (le_nat s)"
    using sum_digits [of "le_nat s" 8] le_nat_bits [OF assms] by (simp add: w_def take_bit_nat_eq_self)
  ultimately have D: "(\<Sum>i<8. d i * 4294967296 ^ i) = sc_order - 1 - int (le_nat s)"
    by (simp add: d_def left_diff_distrib sum_subtractf)
  have "sint (load_4 s (4 * i)) = w i" if "i < 8" for i using load_4_digit [of i s] that assms by (simp add: w_def)
  from this [of 0] this [of 1] this [of 2] this [of 3] this [of 4] this [of 5] this [of 6] this [of 7]
  have "sc_check s = drop_bit 8 (\<Sum>i<8. signum (d i) * 2 ^ i)"
    by (simp add: sc_check_def d_def L_def push_bit_eq_mult eval_nat_numeral)
  moreover have "drop_bit 8 y = (if 0 \<le> y then 0 else - 1)" if "\<bar>y\<bar> < 256" for y :: int
    using that div_minus_one [of 256 y] by (simp add: drop_bit_eq_div)
  ultimately show ?thesis using x D by auto
qed

lemma foldl_or_zero: "foldl (OR) (x :: u8) xs = 0 \<longleftrightarrow> x = 0 \<and> (\<forall>y \<in> set xs. y = 0)"
  by (induction xs arbitrary: x) (auto simp: or_eq_0_iff)

lemma le_nat_zero: "le_nat s = 0 \<longleftrightarrow> (\<forall>b \<in> set s. b = 0)"
  by (induction s) (auto simp: unat_eq_zero)

lemma sc_isnonzero_value:
  assumes "length s = 32"
  shows "sc_isnonzero s = (if le_nat s = 0 then 0 else 1)"
proof -
  let ?x = "foldl (OR) (s ! 0) (map (\<lambda>i. s ! i) [1..<32])"
  have "s = s ! 0 # map (\<lambda>i. s ! i) [1..<32]"
    using assms by (intro nth_equalityI) (auto simp: nth_Cons' simp del: upt_rec_numeral)
  then have "set s = insert (s ! 0) (set (map (\<lambda>i. s ! i) [1..<32]))" by (metis list.simps(15))
  then have z: "?x = 0 \<longleftrightarrow> le_nat s = 0" unfolding foldl_or_zero le_nat_zero by simp
  obtain u where u: "uint ?x = u" "0 \<le> u" "u < 256" using uint_bounded [of ?x] by fastforce
  have "u = 0 \<longleftrightarrow> le_nat s = 0" unfolding z [symmetric] u(1) [symmetric] by (rule uint_0_iff)
  moreover have "drop_bit 8 (u - 1) = (if u = 0 then - 1 else 0)"
    using u(2,3) div_minus_one [of 256 "- 1"] by (simp add: drop_bit_eq_div)
  ultimately show ?thesis unfolding sc_isnonzero_def u(1) by simp
qed

section \<open>The arithmetic as its users see it\<close>

text \<open>
  Well-formed scalars with their values, and operations that return the canonical scalar of the
  value modulo \<open>q\<close>. The signature code computes a response \<open>r = k - c x\<close> and checks with
  \<open>c x + r\<close>.
\<close>

locale scalar_arith =
  fixes wf :: "'s \<Rightarrow> bool" and val :: "'s \<Rightarrow> int" and q :: int
    and add sub mul :: "'s \<Rightarrow> 's \<Rightarrow> 's option" and muladd mulsub :: "'s \<Rightarrow> 's \<Rightarrow> 's \<Rightarrow> 's option"
  assumes q_pos: "0 < q"
    and val_nonneg: "0 \<le> val a"
    and val_inj: "wf a \<Longrightarrow> wf b \<Longrightarrow> val a = val b \<Longrightarrow> a = b"
    and add_law: "wf a \<Longrightarrow> wf b \<Longrightarrow> \<exists>r. add a b = Some r \<and> wf r \<and> val r = (val a + val b) mod q"
    and sub_law: "wf a \<Longrightarrow> wf b \<Longrightarrow> \<exists>r. sub a b = Some r \<and> wf r \<and> val r = (val a - val b) mod q"
    and mul_law: "wf a \<Longrightarrow> wf b \<Longrightarrow> \<exists>r. mul a b = Some r \<and> wf r \<and> val r = val a * val b mod q"
    and muladd_law: "wf a \<Longrightarrow> wf b \<Longrightarrow> wf c \<Longrightarrow> \<exists>r. muladd a b c = Some r \<and> wf r \<and> val r = (val c + val a * val b) mod q"
    and mulsub_law: "wf a \<Longrightarrow> wf b \<Longrightarrow> wf c \<Longrightarrow> \<exists>r. mulsub a b c = Some r \<and> wf r \<and> val r = (val c - val a * val b) mod q"
begin

lemma canonical_eq: "wf a \<Longrightarrow> wf b \<Longrightarrow> val a < q \<Longrightarrow> val b = val a mod q \<Longrightarrow> a = b"
  using val_inj val_nonneg [of a] by simp

lemma response:
  assumes "wf c" and "wf x" and "wf k" and "val k < q"
  shows "\<exists>r. mulsub c x k = Some r \<and> wf r \<and> val r < q \<and> muladd c x r = Some k"
proof -
  obtain r where r: "mulsub c x k = Some r" "wf r" "val r = (val k - val c * val x) mod q"
    using mulsub_law assms(1-3) by blast
  obtain s where s: "muladd c x r = Some s" "wf s" "val s = (val r + val c * val x) mod q"
    using muladd_law assms(1,2) r(2) by blast
  have "val s = val k mod q" unfolding s(3) r(3) by (simp add: mod_simps)
  then have "k = s" using canonical_eq assms(3,4) s(2) by blast
  then show ?thesis using r s(1) q_pos by simp
qed

lemma muladd_decomposes:
  assumes "wf a" and "wf b" and "wf c"
  shows "\<exists>p. mul a b = Some p \<and> wf p \<and> muladd a b c = add c p"
proof -
  obtain p where p: "mul a b = Some p" "wf p" "val p = val a * val b mod q" using mul_law assms by blast
  obtain s where s: "muladd a b c = Some s" "wf s" "val s = (val c + val a * val b) mod q" using muladd_law assms by blast
  obtain t where t: "add c p = Some t" "wf t" "val t = (val c + val p) mod q" using add_law assms(3) p(2) by blast
  have "val s = val t" unfolding s(3) t(3) p(3) by (simp add: mod_simps)
  then show ?thesis using p s t val_inj by metis
qed

lemma sub_add:
  assumes "wf a" and "wf b" and "val a < q"
  shows "\<exists>d. sub a b = Some d \<and> wf d \<and> add d b = Some a"
proof -
  obtain d where d: "sub a b = Some d" "wf d" "val d = (val a - val b) mod q" using sub_law assms by blast
  obtain t where t: "add d b = Some t" "wf t" "val t = (val d + val b) mod q" using add_law assms(2) d(2) by blast
  have "val t = val a mod q" unfolding t(3) d(3) by (simp add: mod_simps)
  then show ?thesis using d t canonical_eq assms(1,3) by metis
qed

end

interpretation sc: scalar_arith "\<lambda>s. length s = 32" "\<lambda>s. int (le_nat s)" sc_order sc_add sc_sub sc_mul sc_muladd sc_mulsub
proof
  show "0 < sc_order" by (simp add: sc_order_def)
  have n: "int (nat (x mod sc_order)) = x mod sc_order" for x by (simp add: sc_order_def)
  fix a b c :: bytes
  show "0 \<le> int (le_nat a)" by simp
  show "length a = 32 \<Longrightarrow> length b = 32 \<Longrightarrow> int (le_nat a) = int (le_nat b) \<Longrightarrow> a = b" by (simp add: le_nat_inj)
  show "length a = 32 \<Longrightarrow> length b = 32 \<Longrightarrow> \<exists>r. sc_add a b = Some r \<and> length r = 32 \<and>
      int (le_nat r) = (int (le_nat a) + int (le_nat b)) mod sc_order"
    using sc_narrow_values(2) [of a b] n by metis
  show "length a = 32 \<Longrightarrow> length b = 32 \<Longrightarrow> \<exists>r. sc_sub a b = Some r \<and> length r = 32 \<and>
      int (le_nat r) = (int (le_nat a) - int (le_nat b)) mod sc_order"
    using sc_narrow_values(3) [of a b] n by metis
  show "length a = 32 \<Longrightarrow> length b = 32 \<Longrightarrow> \<exists>r. sc_mul a b = Some r \<and> length r = 32 \<and>
      int (le_nat r) = int (le_nat a) * int (le_nat b) mod sc_order"
    using sc_product_values(1) [of a b "replicate 32 0"] n length_replicate by metis
  show "length a = 32 \<Longrightarrow> length b = 32 \<Longrightarrow> length c = 32 \<Longrightarrow> \<exists>r. sc_muladd a b c = Some r \<and> length r = 32 \<and>
      int (le_nat r) = (int (le_nat c) + int (le_nat a) * int (le_nat b)) mod sc_order"
    using sc_product_values(2) [of a b c] n by metis
  show "length a = 32 \<Longrightarrow> length b = 32 \<Longrightarrow> length c = 32 \<Longrightarrow> \<exists>r. sc_mulsub a b c = Some r \<and> length r = 32 \<and>
      int (le_nat r) = (int (le_nat c) - int (le_nat a) * int (le_nat b)) mod sc_order"
    using sc_product_values(3) [of a b c] n by metis
qed

section \<open>Properties\<close>

text \<open>C7. Reduction of a 64 byte number is exact: \<open>sc_reduce\<close> performs no overflowing operation and
  returns the 32 bytes of the number modulo the group order.\<close>
theorem sc_reduce_exact:
  assumes "length s = 64"
  shows "\<exists>r. sc_reduce s = Some r \<and> length r = 32 \<and> int (le_nat r) = int (le_nat s) mod sc_order"
  using sc_reduce_value [OF assms] by (auto simp: zmod_int sc_order_def)

theorem sc_reduce_exact_witness:
  "length (replicate 64 255 :: bytes) = 64 \<and>
   (\<exists>r. sc_reduce (replicate 64 255) = Some r \<and> int (le_nat r) = int (le_nat (replicate 64 255)) mod sc_order)"
  using sc_reduce_exact [of "replicate 64 255", OF length_replicate] by (intro conjI length_replicate) blast

text \<open>C2. The arithmetic of 32 byte scalars is exact: none of \<open>sc_reduce32\<close>, \<open>sc_add\<close>, \<open>sc_sub\<close>,
  \<open>sc_mul\<close>, \<open>sc_muladd\<close> and \<open>sc_mulsub\<close> performs an overflowing operation, whatever the bytes, and each
  returns the canonical bytes of \<open>a\<close>, \<open>a + b\<close>, \<open>a - b\<close>, \<open>a b\<close>, \<open>c + a b\<close> and \<open>c - a b\<close> modulo the
  group order.\<close>
theorem sc_arithmetic_exact:
  assumes "length a = 32" and "length b = 32" and "length c = 32"
  shows "\<exists>t x y z u v.
    sc_reduce32 a = Some t \<and> length t = 32 \<and> int (le_nat t) = int (le_nat a) mod sc_order \<and>
    sc_add a b = Some x \<and> length x = 32 \<and> int (le_nat x) = (int (le_nat a) + int (le_nat b)) mod sc_order \<and>
    sc_sub a b = Some y \<and> length y = 32 \<and> int (le_nat y) = (int (le_nat a) - int (le_nat b)) mod sc_order \<and>
    sc_mul a b = Some z \<and> length z = 32 \<and> int (le_nat z) = int (le_nat a) * int (le_nat b) mod sc_order \<and>
    sc_muladd a b c = Some u \<and> length u = 32 \<and> int (le_nat u) = (int (le_nat c) + int (le_nat a) * int (le_nat b)) mod sc_order \<and>
    sc_mulsub a b c = Some v \<and> length v = 32 \<and> int (le_nat v) = (int (le_nat c) - int (le_nat a) * int (le_nat b)) mod sc_order"
proof -
  have "\<exists>t. sc_reduce32 a = Some t \<and> length t = 32 \<and> int (le_nat t) = int (le_nat a) mod sc_order"
    using sc_narrow_values(1) [OF assms(1,2)] sc.q_pos by auto
  then show ?thesis
    using sc.add_law [OF assms(1,2)] sc.sub_law [OF assms(1,2)] sc.mul_law [OF assms(1,2)] sc.muladd_law [OF assms] sc.mulsub_law [OF assms]
    by (elim exE conjE, intro exI conjI)
qed

theorem sc_arithmetic_exact_witness:
  "length (replicate 32 255 :: bytes) = 32 \<and>
   (\<exists>v. sc_mulsub (replicate 32 255) (replicate 32 255) (replicate 32 0) = Some v \<and>
      int (le_nat v) = (int (le_nat (replicate 32 0)) - int (le_nat (replicate 32 255)) * int (le_nat (replicate 32 255))) mod sc_order)"
  using sc_arithmetic_exact [of "replicate 32 255" "replicate 32 255" "replicate 32 0", OF length_replicate length_replicate length_replicate]
  by (intro conjI length_replicate) blast

text \<open>C20. Signature responses check out: for a reduced nonce \<open>k\<close>, the response that \<open>sc_mulsub\<close> computes
  from the challenge and the secret is a reduced scalar, and \<open>sc_muladd\<close> of challenge, secret and
  response gives back the nonce, byte for byte.\<close>
theorem sc_response_roundtrip:
  assumes "length c = 32" and "length x = 32" and "length k = 32" and "sc_check k = 0"
  shows "\<exists>r. sc_mulsub c x k = Some r \<and> length r = 32 \<and> sc_check r = 0 \<and> sc_muladd c x r = Some k"
proof -
  have "int (le_nat k) < sc_order" using assms(4) sc_check_value [OF assms(3)] by (simp split: if_splits)
  then obtain r where r: "sc_mulsub c x k = Some r" "length r = 32" "int (le_nat r) < sc_order" "sc_muladd c x r = Some k"
    using sc.response [OF assms(1-3)] by blast
  then show ?thesis using sc_check_value [of r] by simp
qed

theorem sc_response_roundtrip_witness:
  "sc_check (replicate 32 1) = 0 \<and>
   (\<exists>r. sc_mulsub (replicate 32 7) (replicate 32 9) (replicate 32 1) = Some r \<and>
      sc_muladd (replicate 32 7) (replicate 32 9) r = Some (replicate 32 1))"
proof -
  have "sc_check (replicate 32 1) = 0" by code_simp
  then show ?thesis
    using sc_response_roundtrip [of "replicate 32 7" "replicate 32 9" "replicate 32 1", OF length_replicate length_replicate length_replicate]
    by blast
qed

lemma le_nat_ones: "le_nat (replicate n 255) = 256 ^ n - 1"
proof (induction n)
  case (Suc n)
  have "unat (255 :: u8) = 255" by simp
  moreover have "(1 :: nat) \<le> 256 ^ n" by simp
  ultimately show ?case using Suc by (simp only: replicate_Suc le_nat.simps power_Suc)
qed simp

text \<open>C28. The range test accepts exactly the canonical scalars, and the zero test the non-zero ones:
  \<open>sc_check\<close> is 0 for a number below the group order and -1 otherwise, \<open>sc_isnonzero\<close> is 0 for zero
  and 1 otherwise.\<close>
theorem sc_check_exact:
  assumes "length s = 32"
  shows "sc_check s = (if int (le_nat s) < sc_order then 0 else - 1) \<and> sc_isnonzero s = (if le_nat s = 0 then 0 else 1)"
  using sc_check_value [OF assms] sc_isnonzero_value [OF assms] by simp

theorem sc_check_exact_witness:
  "sc_check (replicate 32 255) = - 1 \<and> sc_isnonzero (replicate 32 255) = 1"
proof -
  have "\<not> int (le_nat (replicate 32 255)) < sc_order" "le_nat (replicate 32 255) \<noteq> 0"
    unfolding le_nat_ones sc_order_def by simp_all
  then show ?thesis using sc_check_exact [of "replicate 32 255", OF length_replicate] by (simp only: if_False simp_thms)
qed

end
