(* ===== verification/Hardfork.thy ===== *)
theory Hardfork
  imports Cpp_Prelude
begin

text \<open>
  The hard fork state machine, \<open>src/cryptonote_basic/hardfork.cpp\<close>, with the fork tables of
  \<open>src/hardforks/hardforks.cpp\<close> and the parts of the block database it reads and writes. Heights are
  natural numbers. The class is a record; \<open>last_versions\<close> is an array of 256 counters of type
  \<open>unsigned int\<close>. A thrown exception, a read from an empty queue and an endless loop are \<open>None\<close>.
\<close>

section \<open>Data\<close>

record hardfork_t =
  hf_version :: u8
  hf_height :: nat
  hf_threshold :: u8
  hf_time :: int

record block =
  major_version :: u8
  minor_version :: u8

text \<open>What the database stores: the blocks from the genesis block on, and a version per height.\<close>

record hf_db =
  db_blocks :: "block list"
  db_versions :: "nat \<rightharpoonup> u8"

record HardFork =
  forked_time :: int
  update_time :: int
  window_size :: nat
  default_threshold_percent :: u8
  original_version :: u8
  original_version_till_height :: nat
  heights :: "hardfork_t list"
  versions :: "u8 list"
  last_versions :: "u8 \<Rightarrow> u32"
  current_fork_index :: nat

datatype hf_state = LikelyForked | UpdateNeeded | Ready

section \<open>Database\<close>

definition db_height :: "hf_db \<Rightarrow> nat" where
  "db_height db = length (db_blocks db)"

definition get_block_from_height :: "hf_db \<Rightarrow> nat \<Rightarrow> block option" where
  "get_block_from_height db h = (if h < db_height db then Some (db_blocks db ! h) else None)"

definition set_hard_fork_version :: "hf_db \<Rightarrow> nat \<Rightarrow> u8 \<Rightarrow> hf_db" where
  "set_hard_fork_version db h v = db\<lparr>db_versions := (db_versions db)(h \<mapsto> v)\<rparr>"

definition get_hard_fork_version :: "hf_db \<Rightarrow> nat \<Rightarrow> u8 option" where
  "get_hard_fork_version db h = db_versions db h"

section \<open>The class\<close>

definition get_block_vote :: "block \<Rightarrow> u8" where
  "get_block_vote b = (if minor_version b = 0 then 1 else minor_version b)"

definition HardFork_init :: "u8 \<Rightarrow> nat \<Rightarrow> int \<Rightarrow> int \<Rightarrow> nat \<Rightarrow> u8 \<Rightarrow> HardFork option" where
  "HardFork_init orig till forked update window percent =
     (if window = 0 then None
      else if percent > 100 then None
      else Some \<lparr>forked_time = forked, update_time = update, window_size = window, default_threshold_percent = percent,
                 original_version = orig, original_version_till_height = till, heights = [], versions = [],
                 last_versions = (\<lambda>_. 0), current_fork_index = 0\<rparr>)"

definition add_fork :: "HardFork \<Rightarrow> u8 \<Rightarrow> nat \<Rightarrow> u8 \<Rightarrow> int \<Rightarrow> bool \<times> HardFork" where
  "add_fork hf version height threshold time =
     (if version = 0 then (False, hf)
      else if heights hf \<noteq> [] \<and>
              (version \<le> hf_version (last (heights hf)) \<or> height \<le> hf_height (last (heights hf)) \<or>
               time \<le> hf_time (last (heights hf))) then (False, hf)
      else if threshold > 100 then (False, hf)
      else (True, hf\<lparr>heights := heights hf @ [\<lparr>hf_version = version, hf_height = height, hf_threshold = threshold, hf_time = time\<rparr>]\<rparr>))"

definition get_effective_version :: "HardFork \<Rightarrow> u8 \<Rightarrow> u8" where
  "get_effective_version hf voting_version =
     (if heights hf \<noteq> [] \<and> voting_version > hf_version (last (heights hf)) then hf_version (last (heights hf))
      else voting_version)"

definition do_check :: "HardFork \<Rightarrow> u8 \<Rightarrow> u8 \<Rightarrow> bool" where
  "do_check hf block_version voting_version \<longleftrightarrow>
     block_version = hf_version (heights hf ! current_fork_index hf) \<and>
     voting_version \<ge> hf_version (heights hf ! current_fork_index hf)"

definition check :: "HardFork \<Rightarrow> block \<Rightarrow> bool" where
  "check hf b = do_check hf (major_version b) (get_block_vote b)"

text \<open>The loop of \<open>get_voted_fork_index\<close>, over the forks below index \<open>n\<close>.\<close>

fun voted_loop :: "HardFork \<Rightarrow> nat \<Rightarrow> nat \<Rightarrow> u32 \<Rightarrow> nat" where
  "voted_loop hf height 0 accumulated_votes = current_fork_index hf"
| "voted_loop hf height (Suc n) accumulated_votes =
     (let fork = heights hf ! n;
          accumulated_votes = accumulated_votes + last_versions hf (hf_version fork);
          threshold = (ucast ((of_nat (window_size hf) * ucast (hf_threshold fork) + 99) div 100 :: u64) :: u32)
      in if height \<ge> hf_height fork \<and> accumulated_votes \<ge> threshold then n
         else voted_loop hf height n accumulated_votes)"

definition get_voted_fork_index :: "HardFork \<Rightarrow> nat \<Rightarrow> nat" where
  "get_voted_fork_index hf height = voted_loop hf height (length (heights hf)) 0"

definition check_for_height :: "HardFork \<Rightarrow> block \<Rightarrow> nat \<Rightarrow> bool" where
  "check_for_height hf b height =
     (let fork_index = get_voted_fork_index hf height
      in major_version b = hf_version (heights hf ! fork_index) \<and>
         get_block_vote b \<ge> hf_version (heights hf ! fork_index))"

text \<open>The loop that makes room in the window.\<close>

fun trim_window :: "nat \<Rightarrow> u8 list \<Rightarrow> (u8 \<Rightarrow> u32) \<Rightarrow> u8 list \<times> (u8 \<Rightarrow> u32)" where
  "trim_window w [] c = ([], c)"
| "trim_window w (v # vs) c = (if length (v # vs) \<ge> w then trim_window w vs (c(v := c v - 1)) else (v # vs, c))"

definition push_vote :: "HardFork \<Rightarrow> u8 \<Rightarrow> HardFork" where
  "push_vote hf v = hf\<lparr>last_versions := (last_versions hf)(v := last_versions hf v + 1), versions := versions hf @ [v]\<rparr>"

text \<open>The step to the voted fork; the index goes through a \<open>uint8_t\<close>.\<close>

definition raise_index :: "HardFork \<Rightarrow> nat \<Rightarrow> HardFork" where
  "raise_index hf height =
     (let voted = get_voted_fork_index hf height mod 256
      in if voted > current_fork_index hf then hf\<lparr>current_fork_index := voted\<rparr> else hf)"

definition add :: "HardFork \<Rightarrow> hf_db \<Rightarrow> u8 \<Rightarrow> u8 \<Rightarrow> nat \<Rightarrow> bool \<times> HardFork \<times> hf_db" where
  "add hf db block_version voting_version height =
     (if \<not> do_check hf block_version voting_version then (False, hf, db)
      else
        let db = set_hard_fork_version db height (hf_version (heights hf ! current_fork_index hf));
            voting_version = get_effective_version hf voting_version;
            (vs, c) = trim_window (window_size hf) (versions hf) (last_versions hf);
            hf = push_vote (hf\<lparr>versions := vs, last_versions := c\<rparr>) voting_version
        in (True, raise_index hf (height + 1), db))"

definition clear_window :: "HardFork \<Rightarrow> HardFork" where
  "clear_window hf = hf\<lparr>versions := [], last_versions := (\<lambda>_. 0)\<rparr>"

fun scan_blocks :: "HardFork \<Rightarrow> hf_db \<Rightarrow> nat list \<Rightarrow> HardFork option" where
  "scan_blocks hf db [] = Some hf"
| "scan_blocks hf db (h # hs) =
     (case get_block_from_height db h of
        None \<Rightarrow> None
      | Some b \<Rightarrow> scan_blocks (push_vote hf (get_effective_version hf (get_block_vote b))) db hs)"

fun find_version :: "hardfork_t list \<Rightarrow> u8 \<Rightarrow> nat \<Rightarrow> nat" where
  "find_version [] lastv i = i"
| "find_version (f # fs) lastv i = (if fs \<noteq> [] \<and> hf_version f \<noteq> lastv then find_version fs lastv (i + 1) else i)"

definition rescan_from_block_height :: "HardFork \<Rightarrow> hf_db \<Rightarrow> nat \<Rightarrow> (bool \<times> HardFork) option" where
  "rescan_from_block_height hf db height =
     (if height \<ge> db_height db then Some (False, hf)
      else
        case scan_blocks (clear_window hf) db [height..<db_height db] of
          None \<Rightarrow> None
        | Some hf \<Rightarrow>
            (case get_hard_fork_version db (db_height db - 1) of
               None \<Rightarrow> None
             | Some lastv \<Rightarrow>
                 let hf = hf\<lparr>current_fork_index := find_version (heights hf) lastv 0\<rparr>
                 in Some (True, raise_index hf (db_height db))))"

definition rescan_from_chain_height :: "HardFork \<Rightarrow> hf_db \<Rightarrow> nat \<Rightarrow> (bool \<times> HardFork) option" where
  "rescan_from_chain_height hf db height =
     (if height = 0 then Some (False, hf) else rescan_from_block_height hf db (height - 1))"

definition init :: "HardFork \<Rightarrow> hf_db \<Rightarrow> HardFork option" where
  "init hf db =
     (let hf = (if heights hf = []
                then hf\<lparr>heights := [\<lparr>hf_version = original_version hf, hf_height = 0, hf_threshold = 0, hf_time = 0\<rparr>]\<rparr> else hf);
          hf = (clear_window hf)\<lparr>current_fork_index := 0\<rparr>;
          height = (if db_height db > window_size hf then db_height db - (window_size hf - 1) else 1)
      in map_option snd (rescan_from_chain_height hf db height))"

fun lower_index :: "hardfork_t list \<Rightarrow> u8 \<Rightarrow> nat \<Rightarrow> nat" where
  "lower_index hs start_version 0 = 0"
| "lower_index hs start_version (Suc i) =
     (if hf_version (hs ! Suc i) > start_version then lower_index hs start_version i else Suc i)"

fun add_blocks :: "HardFork \<Rightarrow> hf_db \<Rightarrow> nat list \<Rightarrow> (HardFork \<times> hf_db) option" where
  "add_blocks hf db [] = Some (hf, db)"
| "add_blocks hf db (h # hs) =
     (case get_block_from_height db h of
        None \<Rightarrow> None
      | Some b \<Rightarrow> let (_, hf, db) = add hf db (major_version b) (get_block_vote b) h in add_blocks hf db hs)"

definition get_block_version :: "HardFork \<Rightarrow> hf_db \<Rightarrow> nat \<Rightarrow> u8 option" where
  "get_block_version hf db height =
     (if height \<le> original_version_till_height hf then Some (original_version hf)
      else map_option major_version (get_block_from_height db height))"

definition reorganize_from_block_height :: "HardFork \<Rightarrow> hf_db \<Rightarrow> nat \<Rightarrow> (bool \<times> HardFork \<times> hf_db) option" where
  "reorganize_from_block_height hf db height =
     (if height \<ge> db_height db then Some (False, hf, db)
      else
        let rescan_height = (if height \<ge> window_size hf - 1 then height - (window_size hf - 1) else 0)
        in case (if height = 0 then Some (original_version hf) else get_hard_fork_version db height) of
             None \<Rightarrow> None
           | Some start_version \<Rightarrow>
               let hf = (clear_window hf)\<lparr>current_fork_index := lower_index (heights hf) start_version (current_fork_index hf)\<rparr>
               in case scan_blocks hf db [rescan_height..<Suc height] of
                    None \<Rightarrow> None
                  | Some hf \<Rightarrow>
                      map_option (\<lambda>(hf, db). (True, hf, db))
                        (add_blocks (raise_index hf (height + 1)) db [Suc height..<db_height db]))"

definition reorganize_from_chain_height :: "HardFork \<Rightarrow> hf_db \<Rightarrow> nat \<Rightarrow> (bool \<times> HardFork \<times> hf_db) option" where
  "reorganize_from_chain_height hf db height =
     (if height = 0 then Some (False, hf, db) else reorganize_from_block_height hf db (height - 1))"

text \<open>The loop of \<open>on_block_popped\<close> over the popped heights.\<close>

fun pop_votes :: "HardFork \<Rightarrow> hf_db \<Rightarrow> nat list \<Rightarrow> HardFork option" where
  "pop_votes hf db [] = Some hf"
| "pop_votes hf db (h # hs) =
     (if versions hf = [] then None
      else
        let v = last (versions hf);
            hf = hf\<lparr>last_versions := (last_versions hf)(v := last_versions hf v - 1), versions := butlast (versions hf)\<rparr>
        in case get_hard_fork_version db h of
             None \<Rightarrow> None
           | Some v \<Rightarrow>
               pop_votes (hf\<lparr>versions := v # versions hf, last_versions := (last_versions hf)(v := last_versions hf v + 1)\<rparr>) db hs)"

fun scheduled_index :: "hardfork_t list \<Rightarrow> nat \<Rightarrow> nat \<Rightarrow> nat" where
  "scheduled_index hs height 0 = 0"
| "scheduled_index hs height (Suc i) = (if height \<ge> hf_height (hs ! Suc i) then Suc i else scheduled_index hs height i)"

text \<open>With \<open>new_chain_height = 0\<close> the unsigned loop condition \<open>height >= new_chain_height\<close> never fails.\<close>

definition on_block_popped :: "HardFork \<Rightarrow> hf_db \<Rightarrow> nat \<Rightarrow> HardFork option" where
  "on_block_popped hf db nblocks =
     (if nblocks = 0 then None
      else
        let new_chain_height = db_height db;
            old_chain_height = new_chain_height + nblocks
        in if new_chain_height = 0 then None
           else
             map_option (\<lambda>hf. hf\<lparr>current_fork_index := scheduled_index (heights hf) new_chain_height (length (heights hf) - 1)\<rparr>)
               (pop_votes hf db (rev [new_chain_height..<old_chain_height])))"

definition get_state :: "HardFork \<Rightarrow> int \<Rightarrow> hf_state" where
  "get_state hf t =
     (if length (heights hf) \<le> 1 then Ready
      else
        let t_last_fork = hf_time (last (heights hf))
        in if t \<ge> t_last_fork + forked_time hf then LikelyForked
           else if t \<ge> t_last_fork + update_time hf then UpdateNeeded
           else Ready)"

definition get_current_version :: "HardFork \<Rightarrow> u8" where
  "get_current_version hf = hf_version (heights hf ! current_fork_index hf)"

definition get :: "HardFork \<Rightarrow> hf_db \<Rightarrow> nat \<Rightarrow> u8 option" where
  "get hf db height =
     (if height > db_height db then Some 255
      else if height = db_height db then Some (get_current_version hf)
      else get_hard_fork_version db height)"

definition get_latest_ideal_version :: "HardFork \<Rightarrow> u8" where
  "get_latest_ideal_version hf = hf_version (last (heights hf))"

fun ideal_version_loop :: "HardFork \<Rightarrow> nat \<Rightarrow> nat \<Rightarrow> u8" where
  "ideal_version_loop hf height 0 = original_version hf"
| "ideal_version_loop hf height (Suc n) =
     (if height \<ge> hf_height (heights hf ! Suc n) then hf_version (heights hf ! Suc n) else ideal_version_loop hf height n)"

definition get_ideal_version :: "HardFork \<Rightarrow> nat \<Rightarrow> u8" where
  "get_ideal_version hf height = ideal_version_loop hf height (length (heights hf) - 1)"

fun earliest_loop :: "hardfork_t list \<Rightarrow> u8 \<Rightarrow> nat \<Rightarrow> nat" where
  "earliest_loop [] version height = height"
| "earliest_loop (f # fs) version height = (if hf_version f \<ge> version then earliest_loop fs version (hf_height f) else height)"

definition get_earliest_ideal_height_for_version :: "HardFork \<Rightarrow> u8 \<Rightarrow> nat" where
  "get_earliest_ideal_height_for_version hf version = earliest_loop (rev (heights hf)) version (2 ^ 64 - 1)"

fun next_version_loop :: "hardfork_t list \<Rightarrow> nat \<Rightarrow> u8 option \<Rightarrow> u8 \<Rightarrow> u8" where
  "next_version_loop [] height prev orig = orig"
| "next_version_loop (f # fs) height prev orig =
     (if height \<ge> hf_height f then (case prev of None \<Rightarrow> hf_version f | Some v \<Rightarrow> v)
      else next_version_loop fs height (Some (hf_version f)) orig)"

definition get_next_version :: "HardFork \<Rightarrow> hf_db \<Rightarrow> u8" where
  "get_next_version hf db = next_version_loop (rev (heights hf)) (db_height db) None (original_version hf)"

definition get_voting_info :: "HardFork \<Rightarrow> u8 \<Rightarrow> bool \<times> u32 \<times> u32 \<times> u32 \<times> nat \<times> u8" where
  "get_voting_info hf version =
     (let current_version = hf_version (heights hf ! current_fork_index hf);
          window = (of_nat (length (versions hf)) :: u32);
          votes = sum_list (map (\<lambda>n. last_versions hf (of_nat n)) [unat version..<256]);
          threshold = (window * ucast (hf_threshold (heights hf ! current_fork_index hf)) + 99) div 100
      in (current_version \<ge> version, window, votes, threshold, get_earliest_ideal_height_for_version hf version,
          hf_version (last (heights hf))))"

section \<open>The users of the class\<close>

text \<open>Storing a block: \<open>BlockchainDB::add_block\<close> appends it and tells the hard fork object the height
  the block has got.\<close>

definition db_add_block :: "HardFork \<Rightarrow> hf_db \<Rightarrow> block \<Rightarrow> bool \<times> HardFork \<times> hf_db" where
  "db_add_block hf db b =
     (let prev_height = db_height db
      in add hf (db\<lparr>db_blocks := db_blocks db @ [b]\<rparr>) (major_version b) (get_block_vote b) prev_height)"

text \<open>Popping a block; the genesis block stays.\<close>

definition pop_block_from_blockchain :: "HardFork \<Rightarrow> hf_db \<Rightarrow> (HardFork \<times> hf_db) option" where
  "pop_block_from_blockchain hf db =
     (if \<not> db_height db > 1 then None
      else
        let db = db\<lparr>db_blocks := butlast (db_blocks db)\<rparr>
        in map_option (\<lambda>hf. (hf, db)) (on_block_popped hf db 1))"

section \<open>The tables\<close>

definition fork :: "u8 \<Rightarrow> nat \<Rightarrow> u8 \<Rightarrow> int \<Rightarrow> hardfork_t" where
  "fork v h t s = \<lparr>hf_version = v, hf_height = h, hf_threshold = t, hf_time = s\<rparr>"

definition mainnet_hard_forks :: "hardfork_t list" where
  "mainnet_hard_forks =
     [fork 1 1 0 1532344521, fork 2 20 0 1532345299, fork 3 40 0 1532348216, fork 4 60 0 1532351344,
      fork 5 80 0 1532352706, fork 6 100 0 1532353879, fork 7 120 0 1532356226, fork 8 5800 0 1541572216,
      fork 9 5850 0 1541846405, fork 10 5900 0 1542911469, fork 11 5950 0 1556115272, fork 12 6000 0 1556201672,
      fork 13 152500 0 1605752204, fork 14 550000 0 1654089255]"

definition mainnet_hard_fork_version_1_till :: nat where
  "mainnet_hard_fork_version_1_till = 1009826"

definition testnet_hard_fork_version_1_till :: nat where
  "testnet_hard_fork_version_1_till = 624633"

definition testnet_hard_forks :: "hardfork_t list" where
  "testnet_hard_forks =
     [fork 1 1 0 1341378000, fork 2 15 0 1442763710, fork 3 30 0 1458558528, fork 4 45 0 1483574400,
      fork 5 60 0 1489520158, fork 6 75 0 1540190226, fork 7 90 0 1540193826, fork 8 105 0 1540197426,
      fork 9 115 0 1540201026, fork 10 130 0 1542903118, fork 11 145 0 1554478208, fork 12 160 0 1554488208,
      fork 13 200 0 1605752204, fork 14 260 0 1654089255]"

definition stagenet_hard_forks :: "hardfork_t list" where
  "stagenet_hard_forks =
     [fork 1 1 0 1341378000, fork 2 20 0 1521000000, fork 3 40 0 1521120000, fork 4 60 0 1521240000,
      fork 5 80 0 1521360000, fork 6 100 0 1521480000, fork 7 120 0 1521600000, fork 8 140 0 1537821770,
      fork 9 160 0 1537821771, fork 10 180 0 1542903118, fork 11 200 0 1554478208, fork 12 220 0 1554488208,
      fork 13 260 0 1554478208, fork 14 300 0 1554488208]"

text \<open>The loops of \<open>Blockchain::init\<close> that add the forks and ignore the results.\<close>

fun add_forks :: "HardFork \<Rightarrow> hardfork_t list \<Rightarrow> HardFork" where
  "add_forks hf [] = hf"
| "add_forks hf (f # fs) = add_forks (snd (add_fork hf (hf_version f) (hf_height f) (hf_threshold f) (hf_time f))) fs"

text \<open>The object that \<open>Blockchain::init\<close> constructs with the default values of the class.\<close>

definition fresh_hardfork :: "nat \<Rightarrow> HardFork" where
  "fresh_hardfork till =
     \<lparr>forked_time = 31557600, update_time = 15778800, window_size = 10080, default_threshold_percent = 80,
      original_version = 1, original_version_till_height = till, heights = [], versions = [],
      last_versions = (\<lambda>_. 0), current_fork_index = 0\<rparr>"

end
