(* ===== verification/Hardfork_Correct.thy ===== *)
theory Hardfork_Correct
  imports Hardfork
begin

text \<open>
  Correctness of the hard fork state machine. The window of votes and its counters agree after every
  operation. With the thresholds of the shipped tables, which are all 0, the machine refines the
  schedule: after any sequence of accepted blocks, pops, reorganisations and restarts, the current
  version is the scheduled one, and every stored block has the version scheduled for its height.
\<close>

section \<open>The window\<close>

definition counts :: "u8 list \<Rightarrow> u8 \<Rightarrow> u32" where
  "counts vs v = of_nat (count_list vs v)"

definition window_inv :: "HardFork \<Rightarrow> bool" where
  "window_inv hf \<longleftrightarrow> 0 < window_size hf \<and> length (versions hf) \<le> window_size hf \<and> last_versions hf = counts (versions hf)"

lemma counts_Nil [simp]: "counts [] = (\<lambda>_. 0)"
  by (simp add: counts_def fun_eq_iff)

lemma counts_Cons: "counts (v # vs) = (counts vs)(v := counts vs v + 1)"
  by (auto simp: counts_def fun_eq_iff)

lemma counts_snoc: "counts (vs @ [v]) = (counts vs)(v := counts vs v + 1)"
  by (auto simp: counts_def fun_eq_iff)

lemma trim_window_counts:
  "trim_window w vs (counts vs) = (vs', c) \<Longrightarrow> c = counts vs' \<and> (0 < w \<longrightarrow> length vs' < w)"
proof (induction vs)
  case (Cons v vs)
  have "(counts (v # vs))(v := counts (v # vs) v - 1) = counts vs" by (simp add: counts_Cons fun_eq_iff)
  then show ?case using Cons by (auto split: if_splits)
qed simp

lemma push_vote_simps [simp]:
  "heights (push_vote hf v) = heights hf" "current_fork_index (push_vote hf v) = current_fork_index hf"
  "window_size (push_vote hf v) = window_size hf" "original_version (push_vote hf v) = original_version hf"
  "versions (push_vote hf v) = versions hf @ [v]"
  "last_versions (push_vote hf v) = (last_versions hf)(v := last_versions hf v + 1)"
  by (simp_all add: push_vote_def)

lemma raise_index_simps [simp]:
  "heights (raise_index hf h) = heights hf" "window_size (raise_index hf h) = window_size hf"
  "original_version (raise_index hf h) = original_version hf"
  "versions (raise_index hf h) = versions hf" "last_versions (raise_index hf h) = last_versions hf"
  by (simp_all add: raise_index_def Let_def)

lemma clear_window_simps [simp]:
  "heights (clear_window hf) = heights hf" "window_size (clear_window hf) = window_size hf"
  "original_version (clear_window hf) = original_version hf" "current_fork_index (clear_window hf) = current_fork_index hf"
  "versions (clear_window hf) = []" "last_versions (clear_window hf) = (\<lambda>_. 0)"
  by (simp_all add: clear_window_def)

text \<open>What the object relies on of \<open>BlockchainDB\<close>: a version that is set is read back, and setting one
  changes neither another version nor the blocks.\<close>

locale version_store =
  fixes height_of :: "'s \<Rightarrow> nat" and block_at :: "'s \<Rightarrow> nat \<Rightarrow> 'b option"
    and set_version :: "'s \<Rightarrow> nat \<Rightarrow> 'v \<Rightarrow> 's" and get_version :: "'s \<Rightarrow> nat \<Rightarrow> 'v option"
  assumes get_set: "get_version (set_version s h v) h' = (if h' = h then Some v else get_version s h')"
    and set_height: "height_of (set_version s h v) = height_of s"
    and set_block: "block_at (set_version s h v) h' = block_at s h'"
    and block_iff: "block_at s h \<noteq> None \<longleftrightarrow> h < height_of s"
begin

lemma rewrite_same: "get_version s h = Some v \<Longrightarrow> get_version (set_version s h v) = get_version s"
  by (auto simp: get_set fun_eq_iff)

end

interpretation db: version_store db_height get_block_from_height set_hard_fork_version get_hard_fork_version
  by unfold_locales (auto simp: set_hard_fork_version_def db_height_def get_hard_fork_version_def get_block_from_height_def)

lemma db_blocks_set [simp]: "db_blocks (set_hard_fork_version db h v) = db_blocks db"
  by (simp add: set_hard_fork_version_def)

lemmas db_simps [simp] = db.get_set db.set_height db.set_block

section \<open>The schedule\<close>

text \<open>Fork tables as \<open>add_fork\<close> builds them.\<close>

definition table_ok :: "hardfork_t list \<Rightarrow> bool" where
  "table_ok hs \<longleftrightarrow> hs \<noteq> [] \<and> sorted_wrt (\<lambda>f g. hf_version f < hf_version g \<and> hf_height f < hf_height g) hs"

definition no_voting :: "hardfork_t list \<Rightarrow> bool" where
  "no_voting hs \<longleftrightarrow> (\<forall>f \<in> set hs. hf_threshold f = 0)"

text \<open>The last fork whose height has been reached, the first one if there is none.\<close>

definition sched :: "hardfork_t list \<Rightarrow> nat \<Rightarrow> nat" where
  "sched hs h = length (takeWhile (\<lambda>f. hf_height f \<le> h) hs) - 1"

lemma table_less: "table_ok hs \<Longrightarrow> i < j \<Longrightarrow> j < length hs \<Longrightarrow> hf_version (hs ! i) < hf_version (hs ! j) \<and> hf_height (hs ! i) < hf_height (hs ! j)"
  using sorted_wrt_nth_less [of "\<lambda>f g. hf_version f < hf_version g \<and> hf_height f < hf_height g" hs i j]
  by (simp add: table_ok_def)

lemma table_mono:
  assumes "table_ok hs" and "i \<le> j" and "j < length hs"
  shows "hf_version (hs ! i) \<le> hf_version (hs ! j)" and "hf_height (hs ! i) \<le> hf_height (hs ! j)"
  using table_less [OF assms(1), of i j] assms(2,3) by (auto simp: le_less)

lemma table_version_inj: "table_ok hs \<Longrightarrow> i < length hs \<Longrightarrow> j < length hs \<Longrightarrow> hf_version (hs ! i) = hf_version (hs ! j) \<Longrightarrow> i = j"
  using table_less [of hs i j] table_less [of hs j i] by (cases i j rule: linorder_cases) auto

lemma fork_table_length:
  assumes "table_ok hs"
  shows "length hs \<le> 256"
proof -
  have "distinct (map (\<lambda>f. unat (hf_version f)) hs)"
    using table_version_inj [OF assms] by (auto simp: distinct_conv_nth word_unat_eq_iff [symmetric])
  moreover have "set (map (\<lambda>f. unat (hf_version f)) hs) \<subseteq> {..<256}"
  proof
    fix x assume "x \<in> set (map (\<lambda>f. unat (hf_version f)) hs)"
    then obtain f :: hardfork_t where "x = unat (hf_version f)" by auto
    then show "x \<in> {..<256}" using unat_bound [of "hf_version f"] by simp
  qed
  ultimately have "card (set (map (\<lambda>f. unat (hf_version f)) hs)) \<le> card {..<256 :: nat}"
    by (intro card_mono) auto
  then show ?thesis using distinct_card [OF \<open>distinct (map (\<lambda>f. unat (hf_version f)) hs)\<close>] by simp
qed

lemma reached_iff:
  assumes "table_ok hs" and "n < length hs"
  shows "hf_height (hs ! n) \<le> h \<longleftrightarrow> n < length (takeWhile (\<lambda>f. hf_height f \<le> h) hs)" (is "_ \<longleftrightarrow> n < ?k")
proof
  assume "n < ?k"
  then show "hf_height (hs ! n) \<le> h" 
    using nth_mem [of n "takeWhile (\<lambda>f. hf_height f \<le> h) hs"] by (auto simp: takeWhile_nth dest!: set_takeWhileD)
next
  assume n: "hf_height (hs ! n) \<le> h"
  show "n < ?k"
  proof (rule ccontr)
    assume "\<not> n < ?k"
    then have k: "?k \<le> n" "?k < length hs" using assms(2) by auto
    then have "\<not> hf_height (hs ! ?k) \<le> h" by (intro nth_length_takeWhile) simp
    then show False using table_mono(2) [OF assms(1) k(1) assms(2)] n by simp
  qed
qed

lemma sched_less: "table_ok hs \<Longrightarrow> sched hs h < length hs"
  using length_takeWhile_le [of "\<lambda>f. hf_height f \<le> h" hs] by (cases hs) (auto simp: sched_def table_ok_def)

lemma sched_reached:
  assumes "table_ok hs" and "n < length hs" and "hf_height (hs ! n) \<le> h"
  shows "n \<le> sched hs h" and "hf_height (hs ! sched hs h) \<le> h"
proof -
  have n: "n < length (takeWhile (\<lambda>f. hf_height f \<le> h) hs)" using reached_iff [OF assms(1,2)] assms(3) by simp
  then show "n \<le> sched hs h" by (simp add: sched_def)
  show "hf_height (hs ! sched hs h) \<le> h"
    unfolding reached_iff [OF assms(1) sched_less [OF assms(1)]] using n by (simp add: sched_def)
qed

lemma sched_mono:
  assumes "table_ok hs" and "h \<le> h'"
  shows "sched hs h \<le> sched hs h'"
proof (cases "sched hs h = 0")
  case False
  then have "hf_height (hs ! sched hs h) \<le> h"
    unfolding reached_iff [OF assms(1) sched_less [OF assms(1)]] by (simp add: sched_def)
  then show ?thesis using sched_reached(1) [OF assms(1) sched_less [OF assms(1)]] assms(2) by (meson le_trans)
qed simp

lemma sched_unique:
  assumes "table_ok hs" and "n < length hs" and "hf_height (hs ! n) \<le> h" and "\<And>m. n < m \<Longrightarrow> m < length hs \<Longrightarrow> h < hf_height (hs ! m)"
  shows "sched hs h = n"
proof (rule ccontr)
  assume "sched hs h \<noteq> n"
  then have "n < sched hs h" using sched_reached(1) [OF assms(1-3)] by simp
  then show False using assms(4) [OF _ sched_less [OF assms(1)]] sched_reached(2) [OF assms(1-3)] by fastforce
qed

lemma sched_before: "table_ok hs \<Longrightarrow> h < hf_height (hs ! 0) \<Longrightarrow> sched hs h = 0"
  by (cases hs) (auto simp: sched_def table_ok_def)

lemma sched_zero: "table_ok hs \<Longrightarrow> sched hs 0 = 0"
proof -
  assume t: "table_ok hs"
  show ?thesis
  proof (cases "hf_height (hs ! 0) = 0")
    case True
    then show ?thesis using t table_less [OF t, of 0] by (intro sched_unique) (auto simp: table_ok_def)
  qed (use sched_before [OF t] in simp)
qed

subsection \<open>The loops of the code\<close>

lemma scheduled_index_eq:
  assumes "table_ok hs" and "i < length hs" and "\<And>m. i < m \<Longrightarrow> m < length hs \<Longrightarrow> h < hf_height (hs ! m)"
  shows "scheduled_index hs h i = sched hs h"
  using assms(2,3)
proof (induction i)
  case 0
  then show ?case using sched_before [OF assms(1)] sched_unique [OF assms(1), of 0 h] by (cases "hf_height (hs ! 0) \<le> h") auto
next
  case (Suc i)
  show ?case
  proof (cases "hf_height (hs ! Suc i) \<le> h")
    case True
    then show ?thesis using sched_unique [OF assms(1) Suc.prems(1)] Suc.prems(2) by simp
  next
    case False
    have "h < hf_height (hs ! m)" if "i < m" "m < length hs" for m using that False Suc.prems(2) [of m] by (cases "m = Suc i") auto
    then show ?thesis using False Suc.IH Suc.prems(1) by simp
  qed
qed

lemma voted_loop_eq:
  assumes "table_ok (heights hf)" and "no_voting (heights hf)" and "n \<le> length (heights hf)"
    and "\<And>m. n \<le> m \<Longrightarrow> m < length (heights hf) \<Longrightarrow> h < hf_height (heights hf ! m)"
  shows "voted_loop hf h n a = (if hf_height (heights hf ! 0) \<le> h then sched (heights hf) h else current_fork_index hf)"
  using assms(3,4)
proof (induction n arbitrary: a)
  case 0
  then have "h < hf_height (heights hf ! 0)" using assms(1) by (auto simp: table_ok_def)
  then show ?case by simp
next
  case (Suc n)
  have "hf_threshold (heights hf ! n) = 0" using assms(2) Suc.prems(1) by (simp add: no_voting_def)
  then have t: "voted_loop hf h (Suc n) a = (if hf_height (heights hf ! n) \<le> h then n else voted_loop hf h n (a + last_versions hf (hf_version (heights hf ! n))))"
    by (simp add: Let_def)
  show ?case
  proof (cases "hf_height (heights hf ! n) \<le> h")
    case True
    have n: "n < length (heights hf)" using Suc.prems(1) by simp
    then have "sched (heights hf) h = n" using sched_unique [OF assms(1) n True] Suc.prems(2) by simp
    moreover have "hf_height (heights hf ! 0) \<le> h" using table_mono(2) [OF assms(1) _ n, of 0] True by simp
    ultimately show ?thesis unfolding t using True by simp
  next
    case False
    have "h < hf_height (heights hf ! m)" if "n \<le> m" "m < length (heights hf)" for m
      using that False Suc.prems(2) [of m] by (cases "m = n") auto
    then show ?thesis unfolding t using False Suc.IH Suc.prems(1) by simp
  qed
qed

lemma voted_eq:
  assumes "table_ok (heights hf)" and "no_voting (heights hf)"
  shows "get_voted_fork_index hf h = (if hf_height (heights hf ! 0) \<le> h then sched (heights hf) h else current_fork_index hf)"
  unfolding get_voted_fork_index_def using assms by (intro voted_loop_eq) auto

lemma raise_index_eq:
  assumes "table_ok (heights hf)" and "no_voting (heights hf)" and "current_fork_index hf = sched (heights hf) h" and "h \<le> h'"
  shows "current_fork_index (raise_index hf h') = sched (heights hf) h'"
proof -
  have "sched (heights hf) h' < 256" using sched_less [OF assms(1), of h'] fork_table_length [OF assms(1)] by simp
  moreover have "sched (heights hf) h < 256" using sched_less [OF assms(1), of h] fork_table_length [OF assms(1)] by simp
  moreover have "sched (heights hf) h \<le> sched (heights hf) h'" using sched_mono [OF assms(1,4)] .
  moreover have "h' < hf_height (heights hf ! 0) \<Longrightarrow> sched (heights hf) h' = 0 \<and> sched (heights hf) h = 0"
    using sched_before [OF assms(1)] assms(4) by simp
  ultimately show ?thesis
    using assms(3) voted_eq [OF assms(1,2), of h'] by (auto simp: raise_index_def Let_def split: if_splits)
qed

lemma lower_index_eq:
  assumes "table_ok hs" and "j \<le> i" and "i < length hs" and "start = hf_version (hs ! j)"
  shows "lower_index hs start i = j"
  using assms(2,3)
proof (induction i)
  case (Suc i)
  show ?case
  proof (cases "j = Suc i")
    case False
    then have "hf_version (hs ! j) < hf_version (hs ! Suc i)" using Suc.prems table_less [OF assms(1), of j "Suc i"] by simp
    then show ?thesis using Suc False assms(4) by simp
  qed (use assms(4) in simp)
qed simp

lemma find_version_eq:
  assumes "distinct (map hf_version fs)" and "j < length fs"
  shows "find_version fs (hf_version (fs ! j)) i = i + j"
  using assms
proof (induction fs arbitrary: i j)
  case (Cons f fs)
  show ?case
  proof (cases j)
    case (Suc k)
    then have "k < length fs" "hf_version f \<noteq> hf_version (fs ! k)" using Cons.prems by (auto simp: image_iff)
    then show ?thesis using Suc Cons by auto
  qed simp
qed simp

lemma table_distinct: "table_ok hs \<Longrightarrow> distinct (map hf_version hs)"
  using table_version_inj [of hs] by (auto simp: distinct_conv_nth)

lemma ideal_version_eq:
  assumes "i < length (heights hf)"
  shows "ideal_version_loop hf h i = (if scheduled_index (heights hf) h i = 0 then original_version hf
     else hf_version (heights hf ! scheduled_index (heights hf) h i))"
  by (induction i) auto

section \<open>Operations\<close>

text \<open>The version scheduled for a height, and blocks that have it.\<close>

definition ver :: "hardfork_t list \<Rightarrow> nat \<Rightarrow> u8" where
  "ver hs h = hf_version (hs ! sched hs h)"

definition block_ok :: "hardfork_t list \<Rightarrow> nat \<Rightarrow> block \<Rightarrow> bool" where
  "block_ok hs h b \<longleftrightarrow> major_version b = ver hs h \<and> ver hs h \<le> get_block_vote b"

definition chain_ok :: "hardfork_t list \<Rightarrow> hf_db \<Rightarrow> bool" where
  "chain_ok hs db \<longleftrightarrow> (\<forall>h < db_height db. get_hard_fork_version db h = Some (ver hs h) \<and> block_ok hs h (db_blocks db ! h))"

text \<open>The object is ready for the block of height \<open>h\<close>.\<close>

definition configured :: "HardFork \<Rightarrow> bool" where
  "configured hf \<longleftrightarrow> table_ok (heights hf) \<and> no_voting (heights hf) \<and> hf_version (heights hf ! 0) = original_version hf"

definition ready :: "HardFork \<Rightarrow> nat \<Rightarrow> bool" where
  "ready hf h \<longleftrightarrow> configured hf \<and> window_inv hf \<and> current_fork_index hf = sched (heights hf) h"

definition same_config :: "HardFork \<Rightarrow> HardFork \<Rightarrow> bool" where
  "same_config hf hf' \<longleftrightarrow> heights hf' = heights hf \<and> original_version hf' = original_version hf \<and> window_size hf' = window_size hf"

lemma same_config_trans: "same_config a b \<Longrightarrow> same_config b c \<Longrightarrow> same_config a c"
  by (simp add: same_config_def)

lemma same_config_configured: "same_config a b \<Longrightarrow> configured a \<Longrightarrow> configured b"
  by (simp add: same_config_def configured_def)

lemma check_ready: "ready hf h \<Longrightarrow> check hf b \<longleftrightarrow> block_ok (heights hf) h b"
  by (simp add: check_def do_check_def ready_def block_ok_def ver_def)

lemma add_ready:
  assumes "ready hf h" and "block_ok (heights hf) h b"
  shows "\<exists>hf'. add hf db (major_version b) (get_block_vote b) h = (True, hf', set_hard_fork_version db h (ver (heights hf) h)) \<and>
      ready hf' (Suc h) \<and> same_config hf hf' \<and> versions hf' \<noteq> []"
proof -
  have idx: "current_fork_index hf = sched (heights hf) h" and su: "configured hf" and w: "window_inv hf" using assms(1) by (auto simp: ready_def)
  obtain vs c where tr: "trim_window (window_size hf) (versions hf) (last_versions hf) = (vs, c)" by fastforce
  then have vs: "c = counts vs" "length vs < window_size hf"
    using trim_window_counts [of "window_size hf" "versions hf" vs c] w by (auto simp: window_inv_def)
  let ?g = "push_vote (hf\<lparr>versions := vs, last_versions := c\<rparr>) (get_effective_version hf (get_block_vote b))"
  let ?r = "raise_index ?g (h + 1)"
  have "add hf db (major_version b) (get_block_vote b) h = (True, ?r, set_hard_fork_version db h (ver (heights hf) h))"
    using assms(2) tr by (simp add: add_def do_check_def idx block_ok_def ver_def Let_def)
  moreover have "same_config hf ?r" by (simp add: same_config_def)
  moreover have "window_inv ?r" using vs w by (simp add: window_inv_def counts_snoc)
  moreover have "current_fork_index ?r = sched (heights hf) (Suc h)"
    using raise_index_eq [of ?g h "h + 1"] su idx by (simp add: configured_def)
  ultimately show ?thesis using same_config_configured [OF _ su] by (auto simp: ready_def same_config_def)
qed

lemma scan_blocks_ok:
  assumes "\<forall>h \<in> set hs. h < db_height db" and "last_versions hf = counts (versions hf)"
  shows "\<exists>hf'. scan_blocks hf db hs = Some hf' \<and> same_config hf hf' \<and> current_fork_index hf' = current_fork_index hf \<and>
      last_versions hf' = counts (versions hf') \<and> length (versions hf') = length (versions hf) + length hs"
  using assms
proof (induction hs arbitrary: hf)
  case (Cons h hs)
  let ?b = "db_blocks db ! h"
  let ?g = "push_vote hf (get_effective_version hf (get_block_vote ?b))"
  have "last_versions ?g = counts (versions ?g)" using Cons.prems(2) by (simp add: counts_snoc)
  then obtain hf' where "scan_blocks ?g db hs = Some hf' \<and> same_config ?g hf' \<and> current_fork_index hf' = current_fork_index ?g \<and>
      last_versions hf' = counts (versions hf') \<and> length (versions hf') = length (versions ?g) + length hs"
    using Cons.IH [of ?g] Cons.prems(1) by auto
  then show ?case using Cons.prems(1) by (simp add: get_block_from_height_def same_config_def)
qed (simp add: same_config_def)

lemma add_blocks_ok:
  assumes "ready hf h" and "chain_ok (heights hf) db" and "h \<le> db_height db" and "h < db_height db \<or> versions hf \<noteq> []"
  shows "\<exists>hf' db'. add_blocks hf db [h..<db_height db] = Some (hf', db') \<and> ready hf' (db_height db) \<and> same_config hf hf' \<and>
      db_blocks db' = db_blocks db \<and> chain_ok (heights hf) db' \<and> versions hf' \<noteq> []"
  using assms
proof (induction "db_height db - h" arbitrary: hf db h)
  case 0
  then have "h = db_height db" by simp
  then show ?case using 0 by (auto simp: same_config_def)
next
  case (Suc n)
  then have h: "h < db_height db" by simp
  then have l: "[h..<db_height db] = h # [Suc h..<db_height db]" by (simp add: upt_conv_Cons)
  have ok: "block_ok (heights hf) h (db_blocks db ! h)" "get_hard_fork_version db h = Some (ver (heights hf) h)"
    using Suc.prems(2) h by (auto simp: chain_ok_def)
  let ?db = "set_hard_fork_version db h (ver (heights hf) h)" and ?b = "db_blocks db ! h"
  obtain g where g: "add hf db (major_version ?b) (get_block_vote ?b) h = (True, g, ?db)" "ready g (Suc h)" "same_config hf g" "versions g \<noteq> []"
    using add_ready [OF Suc.prems(1) ok(1)] by blast
  have "chain_ok (heights g) ?db" using Suc.prems(2) g(3) db.rewrite_same [OF ok(2)] by (simp add: chain_ok_def same_config_def)
  moreover have "n = db_height ?db - Suc h" "Suc h \<le> db_height ?db" using Suc.hyps(2) h by auto
  ultimately obtain hf' db' where "add_blocks g ?db [Suc h..<db_height db] = Some (hf', db')" "ready hf' (db_height db)" "same_config g hf'"
      "db_blocks db' = db_blocks db" "chain_ok (heights g) db'" "versions hf' \<noteq> []"
    using Suc.hyps(1) [of ?db "Suc h" g] g by auto
  then show ?case
    using g h same_config_trans [OF g(3)] unfolding l by (auto simp: get_block_from_height_def same_config_def)
qed

definition follows :: "HardFork \<Rightarrow> hf_db \<Rightarrow> bool" where
  "follows hf db \<longleftrightarrow> ready hf (db_height db) \<and> chain_ok (heights hf) db \<and> (db_blocks db \<noteq> [] \<longrightarrow> versions hf \<noteq> [])"

lemma follows_add:
  assumes "follows hf db" and "check hf b"
  shows "\<exists>hf' db'. db_add_block hf db b = (True, hf', db') \<and> follows hf' db' \<and> same_config hf hf' \<and> db_blocks db' = db_blocks db @ [b]"
proof -
  let ?h = "db_height db" and ?db = "db\<lparr>db_blocks := db_blocks db @ [b]\<rparr>"
  have r: "ready hf ?h" and c: "chain_ok (heights hf) db" using assms(1) by (auto simp: follows_def)
  have b: "block_ok (heights hf) ?h b" using check_ready [OF r] assms(2) by simp
  obtain hf' where hf': "add hf ?db (major_version b) (get_block_vote b) ?h = (True, hf', set_hard_fork_version ?db ?h (ver (heights hf) ?h))"
      "ready hf' (Suc ?h)" "same_config hf hf'" "versions hf' \<noteq> []"
    using add_ready [OF r b] by blast
  let ?d = "set_hard_fork_version ?db ?h (ver (heights hf) ?h)"
  have h: "db_height ?db = Suc ?h" by (simp add: db_height_def)
  have "chain_ok (heights hf) ?d"
    unfolding chain_ok_def
  proof (intro allI impI)
    fix k assume "k < db_height ?d"
    then consider "k = ?h" | "k < ?h" using h by fastforce
    then show "get_hard_fork_version ?d k = Some (ver (heights hf) k) \<and> block_ok (heights hf) k (db_blocks ?d ! k)"
    proof cases
      case 2
      moreover have "get_hard_fork_version ?db k = get_hard_fork_version db k" by (simp add: get_hard_fork_version_def)
      ultimately show ?thesis using c by (auto simp: chain_ok_def nth_append db_height_def)
    qed (use b in \<open>simp add: nth_append db_height_def\<close>)
  qed
  then show ?thesis using hf' h by (auto simp: db_add_block_def follows_def same_config_def)
qed

lemma follows_pop:
  assumes "follows hf db" and "1 < db_height db"
  shows "\<exists>hf' db'. pop_block_from_blockchain hf db = Some (hf', db') \<and> follows hf' db' \<and> same_config hf hf' \<and> db_blocks db' = butlast (db_blocks db)"
proof -
  let ?db = "db\<lparr>db_blocks := butlast (db_blocks db)\<rparr>" and ?h = "db_height db - 1"
  have r: "ready hf (db_height db)" and c: "chain_ok (heights hf) db" and v: "versions hf \<noteq> []"
    using assms by (auto simp: follows_def db_height_def)
  have h: "db_height ?db = ?h" "0 < ?h" "Suc ?h = db_height db" using assms(2) by (auto simp: db_height_def)
  have g: "get_hard_fork_version ?db ?h = Some (ver (heights hf) ?h)"
    using c assms(2) by (simp add: chain_ok_def get_hard_fork_version_def)
  let ?v = "ver (heights hf) ?h" and ?l = "last (versions hf)" and ?vs = "butlast (versions hf)"
  let ?g = "hf\<lparr>last_versions := (last_versions hf)(?l := last_versions hf ?l - 1), versions := ?vs\<rparr>"
  let ?r = "?g\<lparr>versions := ?v # ?vs, last_versions := (last_versions ?g)(?v := last_versions ?g ?v + 1)\<rparr>"
  have p: "pop_votes hf ?db [?h] = Some ?r" using v g by (simp add: Let_def)
  have "counts (versions hf) = (counts ?vs)(?l := counts ?vs ?l + 1)"
    using counts_snoc [of ?vs ?l] v by simp
  then have "last_versions ?r = counts (?v # ?vs)" using r by (auto simp: ready_def window_inv_def counts_Cons fun_eq_iff)
  then have w: "window_inv ?r" using r v by (auto simp: ready_def window_inv_def)
  let ?f = "?r\<lparr>current_fork_index := scheduled_index (heights hf) ?h (length (heights hf) - 1)\<rparr>"
  have t: "table_ok (heights hf)" using r by (auto simp: ready_def configured_def)
  have "scheduled_index (heights hf) ?h (length (heights hf) - 1) = sched (heights hf) ?h"
    using t by (intro scheduled_index_eq) (auto simp: table_ok_def)
  then have "ready ?f ?h" using r w by (simp add: ready_def configured_def window_inv_def)
  moreover have "chain_ok (heights hf) ?db"
    using c h by (auto simp: chain_ok_def get_hard_fork_version_def db_height_def nth_butlast)
  moreover have "rev [?h..<?h + 1] = [?h]" by simp
  then have "on_block_popped hf ?db 1 = Some ?f" using p h(1,2) by (simp add: on_block_popped_def Let_def del: pop_votes.simps)
  ultimately have "pop_block_from_blockchain hf db = Some (?f, ?db) \<and> follows ?f ?db"
    using assms(2) h(1) by (simp add: pop_block_from_blockchain_def follows_def Let_def)
  then show ?thesis by (intro exI [of _ ?f] exI [of _ ?db]) (simp add: same_config_def)
qed

lemma follows_reorganize:
  assumes "follows hf db"
  shows "\<exists>r hf' db'. reorganize_from_chain_height hf db h = Some (r, hf', db') \<and> follows hf' db' \<and> same_config hf hf' \<and> db_blocks db' = db_blocks db"
proof (cases "h = 0 \<or> db_height db \<le> h - 1")
  case True
  then have "reorganize_from_chain_height hf db h = Some (False, hf, db)"
    by (auto simp: reorganize_from_chain_height_def reorganize_from_block_height_def)
  then show ?thesis using assms by (auto simp: same_config_def)
next
  case False
  define k where "k = h - 1"
  then have k: "k < db_height db" using False by simp
  have r: "ready hf (db_height db)" and c: "chain_ok (heights hf) db" using assms by (auto simp: follows_def)
  have t: "table_ok (heights hf)" "no_voting (heights hf)" "hf_version (heights hf ! 0) = original_version hf"
    and w: "0 < window_size hf" and i: "current_fork_index hf = sched (heights hf) (db_height db)"
    using r by (auto simp: ready_def configured_def window_inv_def)
  have sv: "(if k = 0 then Some (original_version hf) else get_hard_fork_version db k) = Some (ver (heights hf) k)"
    using c k t(3) sched_zero [OF t(1)] by (auto simp: chain_ok_def ver_def)
  have li: "lower_index (heights hf) (ver (heights hf) k) (current_fork_index hf) = sched (heights hf) k"
    unfolding i using k by (intro lower_index_eq [OF t(1)] sched_mono [OF t(1)] sched_less [OF t(1)]) (auto simp: ver_def)
  define rs where "rs = (if k \<ge> window_size hf - 1 then k - (window_size hf - 1) else 0)"
  let ?g = "(clear_window hf)\<lparr>current_fork_index := sched (heights hf) k\<rparr>"
  have rl: "rs \<le> k" "Suc k - rs \<le> window_size hf" using w by (auto simp: rs_def)
  obtain g where g: "scan_blocks ?g db [rs..<Suc k] = Some g" "same_config ?g g" "current_fork_index g = sched (heights hf) k"
      "last_versions g = counts (versions g)" "length (versions g) = length (versions ?g) + length [rs..<Suc k]"
  proof -
    have "\<forall>h \<in> set [rs..<Suc k]. h < db_height db" using k by (auto simp del: upt_Suc)
    from scan_blocks_ok [OF this, of ?g] show thesis using that by (auto simp del: upt_Suc)
  qed
  have hg: "heights g = heights hf" "original_version g = original_version hf" "window_size g = window_size hf" using g(2) by (auto simp: same_config_def)
  have vg: "length (versions g) = Suc k - rs" using g(5) by (simp del: upt_Suc)
  let ?f = "raise_index g (k + 1)"
  have f: "ready ?f (Suc k)" "same_config hf ?f" "versions ?f \<noteq> []"
    using raise_index_eq [of g k "k + 1"] t g hg vg rl w
    by (auto simp: ready_def configured_def window_inv_def same_config_def)
  obtain hf' db' where a: "add_blocks ?f db [Suc k..<db_height db] = Some (hf', db')" "ready hf' (db_height db)" "same_config ?f hf'"
      "db_blocks db' = db_blocks db" "chain_ok (heights ?f) db'" "versions hf' \<noteq> []"
    using add_blocks_ok [OF f(1), of db] f(2,3) c k by (auto simp: same_config_def)
  have "reorganize_from_block_height hf db k = Some (True, hf', db')"
    unfolding reorganize_from_block_height_def Let_def sv li rs_def [symmetric] option.case g(1) a(1) using k by simp
  then have "reorganize_from_chain_height hf db h = Some (True, hf', db')"
    using False by (simp add: reorganize_from_chain_height_def k_def)
  moreover have "follows hf' db'" using a f(2) by (auto simp: follows_def same_config_def db_height_def)
  ultimately show ?thesis using a same_config_trans [OF f(2)] by blast
qed

lemma follows_init:
  assumes "follows hf db"
  shows "\<exists>hf'. init hf db = Some hf' \<and> follows hf' db \<and> same_config hf hf'"
proof -
  have r: "ready hf (db_height db)" and c: "chain_ok (heights hf) db" using assms by (auto simp: follows_def)
  have t: "table_ok (heights hf)" "no_voting (heights hf)" "hf_version (heights hf ! 0) = original_version hf"
    and w: "0 < window_size hf" and ne: "heights hf \<noteq> []"
    using r by (auto simp: ready_def configured_def window_inv_def table_ok_def)
  let ?g = "(clear_window hf)\<lparr>current_fork_index := 0\<rparr>"
  define h where "h = (if db_height db > window_size hf then db_height db - (window_size hf - 1) else 1)"
  have e: "init hf db = map_option snd (rescan_from_block_height ?g db (h - 1))"
    using ne w by (auto simp: init_def Let_def rescan_from_chain_height_def h_def)
  show ?thesis
  proof (cases "db_height db = 0")
    case True
    then have "init hf db = Some ?g" unfolding e by (simp add: rescan_from_block_height_def)
    moreover have "ready ?g 0" using t w sched_zero [OF t(1)] by (simp add: ready_def configured_def window_inv_def)
    ultimately show ?thesis using True c by (auto simp: follows_def same_config_def db_height_def)
  next
    case False
    define d where "d = db_height db"
    have hd: "h - 1 < d" "d - (h - 1) \<le> window_size hf" using False w by (auto simp: h_def d_def)
    obtain g where g: "scan_blocks (clear_window ?g) db [h - 1..<d] = Some g" "same_config (clear_window ?g) g" "current_fork_index g = 0"
        "last_versions g = counts (versions g)" "length (versions g) = length [h - 1..<d]"
      using scan_blocks_ok [of "[h - 1..<d]" db "clear_window ?g"] by (auto simp: d_def)
    have hg: "heights g = heights hf" "original_version g = original_version hf" "window_size g = window_size hf" using g(2) by (auto simp: same_config_def)
    have lv: "get_hard_fork_version db (d - 1) = Some (ver (heights hf) (d - 1))" using c False by (simp add: chain_ok_def d_def)
    let ?i = "g\<lparr>current_fork_index := sched (heights hf) (d - 1)\<rparr>"
    have "find_version (heights g) (ver (heights hf) (d - 1)) 0 = sched (heights hf) (d - 1)"
      using find_version_eq [OF table_distinct [OF t(1)] sched_less [OF t(1)]] by (simp add: ver_def hg)
    then have "init hf db = Some (raise_index ?i d)"
      unfolding e using hd g(1) lv by (simp add: rescan_from_block_height_def Let_def flip: d_def)
    moreover have "current_fork_index (raise_index ?i d) = sched (heights hf) d"
      using raise_index_eq [of ?i "d - 1" d] t hg by simp
    then have "ready (raise_index ?i d) d" using t hg g(4,5) hd w by (simp add: ready_def configured_def window_inv_def)
    moreover have "versions g \<noteq> []" using g(5) hd by auto
    ultimately show ?thesis using c hg by (auto simp: follows_def same_config_def d_def)
  qed
qed

section \<open>Reachable states\<close>

inductive hf_step :: "HardFork \<times> hf_db \<Rightarrow> HardFork \<times> hf_db \<Rightarrow> bool" where
  Accept: "check hf b \<Longrightarrow> db_add_block hf db b = (r, hf', db') \<Longrightarrow> hf_step (hf, db) (hf', db')"
| Pop: "pop_block_from_blockchain hf db = Some (hf', db') \<Longrightarrow> hf_step (hf, db) (hf', db')"
| Reorganize: "reorganize_from_chain_height hf db h = Some (r, hf', db') \<Longrightarrow> hf_step (hf, db) (hf', db')"
| Restart: "init hf db = Some hf' \<Longrightarrow> hf_step (hf, db) (hf', db)"

inductive_cases hf_stepE [elim]: "hf_step (hf, db) (hf', db')"

definition empty_db :: hf_db where
  "empty_db = \<lparr>db_blocks = [], db_versions = Map.empty\<rparr>"

text \<open>States of a node that starts with the fork table \<open>hs\<close> on an empty database; \<open>till\<close> is the
  height up to which the object's \<open>get_block_version\<close> answers with the original version.\<close>

definition hf_reachable :: "nat \<Rightarrow> hardfork_t list \<Rightarrow> HardFork \<Rightarrow> hf_db \<Rightarrow> bool" where
  "hf_reachable till hs hf db \<longleftrightarrow>
     (\<exists>hf0. init (add_forks (fresh_hardfork till) hs) empty_db = Some hf0 \<and> hf_step\<^sup>*\<^sup>* (hf0, empty_db) (hf, db))"

lemma follows_step:
  assumes "hf_step (hf, db) (hf', db')" and "follows hf db"
  shows "follows hf' db' \<and> same_config hf hf'"
  using assms(1)
proof cases
  case (Accept b r)
  then show ?thesis using follows_add [OF assms(2), of b] by auto
next
  case Pop
  then have "1 < db_height db" by (auto simp: pop_block_from_blockchain_def split: if_splits)
  then show ?thesis using follows_pop [OF assms(2)] Pop by auto
next
  case (Reorganize h r)
  then show ?thesis using follows_reorganize [OF assms(2), of h] by auto
next
  case Restart
  then show ?thesis using follows_init [OF assms(2)] by auto
qed

lemma follows_start:
  assumes "configured hf" and "0 < window_size hf"
  shows "\<exists>hf'. init hf empty_db = Some hf' \<and> follows hf' empty_db \<and> same_config hf hf'"
proof -
  let ?g = "(clear_window hf)\<lparr>current_fork_index := 0\<rparr>"
  have "heights hf \<noteq> []" using assms(1) by (auto simp: configured_def table_ok_def)
  then have "init hf empty_db = Some ?g"
    by (simp add: init_def Let_def rescan_from_chain_height_def rescan_from_block_height_def empty_db_def db_height_def)
  moreover have "follows ?g empty_db"
    using assms sched_zero [of "heights hf"]
    by (simp add: follows_def ready_def configured_def window_inv_def chain_ok_def empty_db_def db_height_def)
  ultimately show ?thesis by (auto simp: same_config_def)
qed

lemma add_forks_simps [simp]:
  "window_size (add_forks hf hs) = window_size hf" "original_version (add_forks hf hs) = original_version hf"
proof -
  have "window_size (add_forks hf hs) = window_size hf \<and> original_version (add_forks hf hs) = original_version hf"
    by (induction hf hs rule: add_forks.induct) (auto simp: add_fork_def)
  then show "window_size (add_forks hf hs) = window_size hf" "original_version (add_forks hf hs) = original_version hf" by auto
qed

lemma follows_reachable:
  assumes "hf_reachable till hs hf db" and "configured (add_forks (fresh_hardfork till) hs)"
  shows "follows hf db \<and> same_config (add_forks (fresh_hardfork till) hs) hf"
proof -
  obtain hf0 where i: "init (add_forks (fresh_hardfork till) hs) empty_db = Some hf0" and st: "hf_step\<^sup>*\<^sup>* (hf0, empty_db) (hf, db)"
    using assms(1) by (auto simp: hf_reachable_def)
  have f0: "follows hf0 empty_db \<and> same_config (add_forks (fresh_hardfork till) hs) hf0"
    using follows_start [OF assms(2)] i by (simp add: fresh_hardfork_def)
  from st show ?thesis
  proof (induction rule: rtranclp_induct2)
    case refl
    show ?case by (rule f0)
  next
    case (step a b c d)
    then show ?case using follows_step [of a b c d] same_config_trans by blast
  qed
qed

lemma ideal_version_ver: "configured hf \<Longrightarrow> get_ideal_version hf h = ver (heights hf) h"
proof -
  assume c: "configured hf"
  then have t: "table_ok (heights hf)" by (simp add: configured_def)
  then have l: "length (heights hf) - 1 < length (heights hf)" by (auto simp: table_ok_def)
  have "scheduled_index (heights hf) h (length (heights hf) - 1) = sched (heights hf) h"
    using t l by (intro scheduled_index_eq) auto
  then show ?thesis using ideal_version_eq [OF l, of h] c by (simp add: get_ideal_version_def ver_def configured_def)
qed

lemma follows_version: "follows hf db \<Longrightarrow> get_current_version hf = get_ideal_version hf (db_height db)"
  using ideal_version_ver [of hf] by (simp add: follows_def ready_def get_current_version_def ver_def)

section \<open>Voting\<close>

definition votes_from :: "HardFork \<Rightarrow> nat \<Rightarrow> nat" where
  "votes_from hf n = (\<Sum>m \<in> {n..<length (heights hf)}. count_list (versions hf) (hf_version (heights hf ! m)))"

text \<open>A fork qualifies when its height is reached and the votes for it or a later fork in the window
  are at least its percentage of the window, rounded up.\<close>

definition eligible :: "HardFork \<Rightarrow> nat \<Rightarrow> nat \<Rightarrow> bool" where
  "eligible hf h n \<longleftrightarrow> hf_height (heights hf ! n) \<le> h \<and>
     (window_size hf * unat (hf_threshold (heights hf ! n)) + 99) div 100 \<le> votes_from hf n"

lemma sum_count_le: "finite A \<Longrightarrow> (\<Sum>v \<in> A. count_list xs v) \<le> length xs"
proof (induction xs)
  case (Cons x xs)
  have "(\<Sum>v \<in> A. count_list (x # xs) v) = (\<Sum>v \<in> A. count_list xs v + (if v = x then 1 else 0))"
    by (rule sum.cong) auto
  also have "\<dots> = (\<Sum>v \<in> A. count_list xs v) + (\<Sum>v \<in> A. if v = x then 1 else 0)" by (rule sum.distrib)
  also have "(\<Sum>v \<in> A. if v = x then 1 else 0 :: nat) \<le> 1" using Cons.prems by simp
  finally show ?case using Cons by simp
qed simp

lemma votes_bound:
  assumes "table_ok (heights hf)"
  shows "votes_from hf n \<le> length (versions hf)"
proof -
  let ?f = "\<lambda>m. hf_version (heights hf ! m)" and ?A = "{n..<length (heights hf)}"
  have "inj_on ?f ?A" using table_version_inj [OF assms] by (auto simp: inj_on_def)
  then have "votes_from hf n = (\<Sum>v \<in> ?f ` ?A. count_list (versions hf) v)"
    by (simp add: votes_from_def sum.reindex)
  then show ?thesis using sum_count_le [of "?f ` ?A" "versions hf"] by simp
qed

lemma threshold_value:
  assumes "window_size hf < 2 ^ 32" and "t \<le> (100 :: u8)"
  shows "unat (ucast ((of_nat (window_size hf) * ucast t + 99) div 100 :: u64) :: u32) = (window_size hf * unat t + 99) div 100"
proof -
  have t: "unat t \<le> 100" using assms(2) by (simp add: word_le_nat_alt)
  have w: "unat (of_nat (window_size hf) :: u64) = window_size hf"
    using assms(1) unfolding unat_of_nat by (intro mod_less) simp
  have ut: "unat (ucast t :: u64) = unat t" by (rule unat_ucast_up) simp
  have p: "window_size hf * unat t \<le> window_size hf * 100" using t by (rule mult_le_mono2)
  then have b: "window_size hf * unat t + 99 < 2 ^ 64" "(window_size hf * unat t + 99) div 100 < 2 ^ 32"
    using assms(1) by (simp, linarith)+
  have m: "unat (of_nat (window_size hf) * ucast t :: u64) = window_size hf * unat t"
    using b(1) w ut by (subst unat_mult_noov) auto
  have "unat (of_nat (window_size hf) * ucast t + 99 :: u64) = window_size hf * unat t + 99"
    using b(1) m by (subst unat_add_noov) auto
  then have "unat ((of_nat (window_size hf) * ucast t + 99) div 100 :: u64) = (window_size hf * unat t + 99) div 100"
    by (simp add: unat_div)
  then show ?thesis using b(2) by (subst unat_ucast_small) auto
qed

lemma voted_loop_spec:
  assumes "window_inv hf" and "window_size hf < 2 ^ 32" and "table_ok (heights hf)" and "\<forall>f \<in> set (heights hf). hf_threshold f \<le> 100"
    and "n \<le> length (heights hf)" and "unat a = votes_from hf n"
  shows "(voted_loop hf h n a < n \<and> eligible hf h (voted_loop hf h n a) \<or> voted_loop hf h n a = current_fork_index hf \<and> (\<forall>m < n. \<not> eligible hf h m)) \<and>
    (\<forall>m < n. voted_loop hf h n a < m \<longrightarrow> \<not> eligible hf h m)"
  using assms(5,6)
proof (induction n arbitrary: a)
  case (Suc n)
  let ?f = "heights hf ! n"
  have "?f \<in> set (heights hf)" using Suc.prems(1) by simp
  then have th: "unat (ucast ((of_nat (window_size hf) * ucast (hf_threshold ?f) + 99) div 100 :: u64) :: u32) =
      (window_size hf * unat (hf_threshold ?f) + 99) div 100"
    using assms(4) by (intro threshold_value [OF assms(2)]) blast
  let ?c = "count_list (versions hf) (hf_version ?f)"
  have v: "votes_from hf n = votes_from hf (Suc n) + ?c"
    using Suc.prems(1) by (simp add: votes_from_def sum.atLeast_Suc_lessThan [of n])
  have lv: "last_versions hf (hf_version ?f) = of_nat ?c" and len: "length (versions hf) < 2 ^ 32"
    using assms(1,2) by (auto simp: window_inv_def counts_def)
  have "votes_from hf n < 2 ^ 32" using votes_bound [OF assms(3), of n] len by simp
  then have "unat (last_versions hf (hf_version ?f)) = ?c" "unat a + ?c < 2 ^ 32"
    using v Suc.prems(2) unfolding lv unat_of_nat by auto
  then have a: "unat (a + last_versions hf (hf_version ?f)) = votes_from hf n"
    using v Suc.prems(2) by (subst unat_add_noov) auto
  have s: "voted_loop hf h (Suc n) a = (if eligible hf h n then n else voted_loop hf h n (a + last_versions hf (hf_version ?f)))"
    unfolding voted_loop.simps Let_def eligible_def word_le_nat_alt th a by simp
  show ?case
  proof (cases "eligible hf h n")
    case False
    then show ?thesis unfolding s using Suc.IH [OF _ a] Suc.prems(1) by (auto simp: less_Suc_eq)
  qed (unfold s, simp)
qed simp

section \<open>Properties\<close>

text \<open>The entries of a table that \<open>add_fork\<close> accepts after the entry \<open>prev\<close>.\<close>

fun accepted :: "hardfork_t option \<Rightarrow> hardfork_t list \<Rightarrow> hardfork_t list" where
  "accepted prev [] = []"
| "accepted prev (f # fs) =
     (if hf_version f \<noteq> 0 \<and> hf_threshold f \<le> 100 \<and>
         (case prev of None \<Rightarrow> True
          | Some p \<Rightarrow> hf_version p < hf_version f \<and> hf_height p < hf_height f \<and> hf_time p < hf_time f)
      then f # accepted (Some f) fs else accepted prev fs)"

lemma add_fork_heights:
  "heights (snd (add_fork hf (hf_version f) (hf_height f) (hf_threshold f) (hf_time f))) =
     heights hf @ accepted (if heights hf = [] then None else Some (last (heights hf))) [f]"
  by (auto simp: add_fork_def not_le not_less)

lemma add_forks_heights:
  "heights (add_forks hf fs) = heights hf @ accepted (if heights hf = [] then None else Some (last (heights hf))) fs"
proof (induction fs arbitrary: hf)
  case (Cons f fs)
  show ?case unfolding add_forks.simps Cons add_fork_heights by (auto split: if_splits)
qed simp

lemma fresh_heights: "heights (add_forks (fresh_hardfork till) fs) = accepted None fs"
  unfolding add_forks_heights by (simp add: fresh_hardfork_def)

lemma heights_mainnet: "heights (add_forks (fresh_hardfork till) mainnet_hard_forks) = mainnet_hard_forks"
  unfolding fresh_heights by (simp add: mainnet_hard_forks_def fork_def)

lemma configured_mainnet: "configured (add_forks (fresh_hardfork till) mainnet_hard_forks)"
  unfolding configured_def heights_mainnet add_forks_simps
  by (simp add: mainnet_hard_forks_def table_ok_def no_voting_def fork_def fresh_hardfork_def)

lemma reachable_start: "configured (add_forks (fresh_hardfork till) hs) \<Longrightarrow> \<exists>hf. hf_reachable till hs hf empty_db"
  using follows_start [of "add_forks (fresh_hardfork till) hs"] by (auto simp: hf_reachable_def fresh_hardfork_def)

text \<open>C3. Hard forks follow the schedule. Take a node that starts on an empty database with a fork table
  that \<open>add_fork\<close> accepts, whose thresholds are 0 and whose first version is the original one, and
  let it accept and pop blocks, reorganise and restart in any order. Then the current version is the
  ideal version for the height of the chain, every stored block carries the version that is ideal
  for its height and votes for no lower one, the database records that version, and the vote
  counters count the votes in the window, which is never longer than its size.\<close>
theorem hardfork_follows_schedule:
  assumes "hf_reachable till hs hf db" and "configured (add_forks (fresh_hardfork till) hs)"
  shows "get_current_version hf = get_ideal_version hf (db_height db) \<and>
    (\<forall>h < db_height db. get hf db h = Some (get_ideal_version hf h) \<and>
       major_version (db_blocks db ! h) = get_ideal_version hf h \<and> get_ideal_version hf h \<le> get_block_vote (db_blocks db ! h)) \<and>
    length (versions hf) \<le> window_size hf \<and> (\<forall>v. last_versions hf v = of_nat (count_list (versions hf) v))"
proof -
  have f: "follows hf db" using follows_reachable [OF assms] by simp
  then have "configured hf" by (simp add: follows_def ready_def)
  then have "\<forall>h < db_height db. get hf db h = Some (get_ideal_version hf h) \<and>
      major_version (db_blocks db ! h) = get_ideal_version hf h \<and> get_ideal_version hf h \<le> get_block_vote (db_blocks db ! h)"
    using f ideal_version_ver by (auto simp: follows_def chain_ok_def block_ok_def get_def)
  moreover have "length (versions hf) \<le> window_size hf \<and> (\<forall>v. last_versions hf v = of_nat (count_list (versions hf) v))"
    using f by (simp add: follows_def ready_def window_inv_def counts_def)
  ultimately show ?thesis using follows_version [OF f] by blast
qed

theorem hardfork_follows_schedule_witness:
  "\<exists>hf db. hf_reachable mainnet_hard_fork_version_1_till mainnet_hard_forks hf db \<and> get_current_version hf = get_ideal_version hf (db_height db)"
proof -
  obtain hf where "hf_reachable mainnet_hard_fork_version_1_till mainnet_hard_forks hf empty_db" using reachable_start [OF configured_mainnet] by blast
  then show ?thesis using hardfork_follows_schedule [OF _ configured_mainnet] by blast
qed

text \<open>C8. The hard fork object never gets stuck: in every reachable state, popping a block above the
  genesis block, reorganising from any height and restarting return without an exception, and the
  version check accepts exactly the blocks of the version that is ideal for the current height that
  vote for no lower one.\<close>
theorem hardfork_never_fails:
  assumes "hf_reachable till hs hf db" and "configured (add_forks (fresh_hardfork till) hs)"
  shows "(1 < db_height db \<longrightarrow> pop_block_from_blockchain hf db \<noteq> None) \<and>
    reorganize_from_chain_height hf db h \<noteq> None \<and> init hf db \<noteq> None \<and>
    (check hf b \<longleftrightarrow> major_version b = get_ideal_version hf (db_height db) \<and> get_ideal_version hf (db_height db) \<le> get_block_vote b)"
proof -
  have f: "follows hf db" using follows_reachable [OF assms] by simp
  have "1 < db_height db \<Longrightarrow> pop_block_from_blockchain hf db \<noteq> None" using follows_pop [OF f] by auto
  moreover have "reorganize_from_chain_height hf db h \<noteq> None" using follows_reorganize [OF f, of h] by auto
  moreover have "init hf db \<noteq> None" using follows_init [OF f] by auto
  moreover have r: "ready hf (db_height db)" using f by (simp add: follows_def)
  then have "check hf b \<longleftrightarrow> block_ok (heights hf) (db_height db) b" by (rule check_ready)
  ultimately show ?thesis using ideal_version_ver [of hf "db_height db"] r by (auto simp: block_ok_def ready_def)
qed

theorem hardfork_never_fails_witness:
  "\<exists>hf. hf_reachable mainnet_hard_fork_version_1_till mainnet_hard_forks hf empty_db \<and> reorganize_from_chain_height hf empty_db 3 \<noteq> None \<and> init hf empty_db \<noteq> None"
proof -
  obtain hf where "hf_reachable mainnet_hard_fork_version_1_till mainnet_hard_forks hf empty_db" using reachable_start [OF configured_mainnet] by blast
  then show ?thesis using hardfork_never_fails [OF _ configured_mainnet, of _ hf empty_db 3] by blast
qed

lemma accept_one:
  assumes "follows hf db"
  shows "\<exists>hf' db'. hf_step (hf, db) (hf', db') \<and> follows hf' db' \<and> db_height db' = Suc (db_height db)"
proof -
  let ?v = "ver (heights hf) (db_height db)"
  let ?b = "\<lparr>major_version = ?v, minor_version = 255\<rparr>"
  have "?v \<le> (255 :: u8)" by (simp add: word_le_nat_alt) (use unat_bound [of ?v] in simp)
  then have "block_ok (heights hf) (db_height db) ?b" by (simp add: block_ok_def get_block_vote_def)
  then have b: "check hf ?b" using assms check_ready [of hf "db_height db"] by (simp add: follows_def)
  obtain hf' db' where a: "db_add_block hf db ?b = (True, hf', db')" "follows hf' db'" "db_blocks db' = db_blocks db @ [?b]"
    using follows_add [OF assms b] by blast
  have "db_height db' = Suc (db_height db)" using a(3) by (simp add: db_height_def)
  then show ?thesis using Accept [OF b a(1)] a(2) by blast
qed

lemma accept_many:
  assumes "follows hf db"
  shows "\<exists>hf' db'. hf_step\<^sup>*\<^sup>* (hf, db) (hf', db') \<and> follows hf' db' \<and> db_height db' = db_height db + n"
proof (induction n)
  case 0
  then show ?case using assms by auto
next
  case (Suc n)
  then obtain hf1 db1 where s: "hf_step\<^sup>*\<^sup>* (hf, db) (hf1, db1)" "follows hf1 db1" "db_height db1 = db_height db + n" by blast
  obtain hf2 db2 where "hf_step (hf1, db1) (hf2, db2)" "follows hf2 db2" "db_height db2 = Suc (db_height db1)"
    using accept_one [OF s(2)] by blast
  then show ?case using s rtranclp.rtrancl_into_rtrancl [OF s(1)] by fastforce
qed

text \<open>C17. Every scheduled fork can take effect: from any reachable state whose chain has not passed the
  height of a fork of the table, the node can accept blocks up to that height, and there the current
  version is the version of the fork.\<close>
theorem hardfork_activates:
  assumes "hf_reachable till hs hf db" and "configured (add_forks (fresh_hardfork till) hs)"
    and "f \<in> set (heights (add_forks (fresh_hardfork till) hs))" and "db_height db \<le> hf_height f"
  shows "\<exists>hf' db'. hf_step\<^sup>*\<^sup>* (hf, db) (hf', db') \<and> db_height db' = hf_height f \<and> get_current_version hf' = hf_version f"
proof -
  have f: "follows hf db" "same_config (add_forks (fresh_hardfork till) hs) hf" using follows_reachable [OF assms(1,2)] by auto
  obtain hf' db' where s: "hf_step\<^sup>*\<^sup>* (hf, db) (hf', db')" "follows hf' db'" "db_height db' = hf_height f"
    using accept_many [OF f(1), of "hf_height f - db_height db"] assms(4) by auto
  have "hf_reachable till hs hf' db'" using assms(1) s(1) by (auto simp: hf_reachable_def intro: rtranclp_trans)
  then have h: "heights hf' = heights (add_forks (fresh_hardfork till) hs)"
    using follows_reachable [OF _ assms(2)] by (auto simp: same_config_def)
  have t: "table_ok (heights hf')" and i: "current_fork_index hf' = sched (heights hf') (hf_height f)"
    using s(2,3) by (auto simp: follows_def ready_def configured_def)
  obtain n where n: "n < length (heights hf')" "heights hf' ! n = f" using assms(3) h by (auto simp: in_set_conv_nth)
  have "n \<le> sched (heights hf') (hf_height f)" "hf_height (heights hf' ! sched (heights hf') (hf_height f)) \<le> hf_height f"
    using sched_reached [OF t n(1)] n(2) by auto
  then have "sched (heights hf') (hf_height f) = n"
    using table_less [OF t, of n] sched_less [OF t, of "hf_height f"] n(2) by (cases "n < sched (heights hf') (hf_height f)") fastforce+
  then have "get_current_version hf' = hf_version f" using i n(2) by (simp add: get_current_version_def)
  then show ?thesis using s by blast
qed

theorem hardfork_activates_witness:
  "\<exists>hf db. hf_reachable mainnet_hard_fork_version_1_till mainnet_hard_forks hf db \<and> db_height db = 550000 \<and> get_current_version hf = 14"
proof -
  obtain hf where r: "hf_reachable mainnet_hard_fork_version_1_till mainnet_hard_forks hf empty_db" using reachable_start [OF configured_mainnet] by blast
  have "fork 14 550000 0 1654089255 \<in> set (heights (add_forks (fresh_hardfork mainnet_hard_fork_version_1_till) mainnet_hard_forks))"
    unfolding heights_mainnet by (simp add: mainnet_hard_forks_def)
  moreover have "db_height empty_db \<le> hf_height (fork 14 550000 0 1654089255)" by (simp add: empty_db_def db_height_def)
  ultimately obtain hf' db' where "hf_step\<^sup>*\<^sup>* (hf, empty_db) (hf', db')" "db_height db' = 550000" "get_current_version hf' = 14"
    using hardfork_activates [OF r configured_mainnet, of "fork 14 550000 0 1654089255"] by (auto simp: fork_def)
  then show ?thesis using r by (auto simp: hf_reachable_def intro: rtranclp_trans)
qed

text \<open>C14. The vote: with the counters of a window below \<open>2^32\<close> and thresholds of at most 100, the voted
  fork is the latest one whose height is reached and for which at least its percentage of the
  window, rounded up, votes for it or for a later fork; when no fork qualifies it is the current
  one. No counter wraps around.\<close>
theorem hardfork_vote:
  assumes "window_inv hf" and "window_size hf < 2 ^ 32" and "table_ok (heights hf)" and "\<forall>f \<in> set (heights hf). hf_threshold f \<le> 100"
  shows "(eligible hf h (get_voted_fork_index hf h) \<or>
       get_voted_fork_index hf h = current_fork_index hf \<and> (\<forall>m < length (heights hf). \<not> eligible hf h m)) \<and>
     (\<forall>m < length (heights hf). get_voted_fork_index hf h < m \<longrightarrow> \<not> eligible hf h m)"
  using voted_loop_spec [OF assms, of "length (heights hf)" 0 h] by (auto simp: get_voted_fork_index_def votes_from_def)

definition vote_example :: HardFork where
  "vote_example = (fresh_hardfork 0)\<lparr>window_size := 4, heights := [fork 1 1 0 10, fork 2 5 75 20],
     versions := [1, 2, 2, 2], last_versions := counts [1, 2, 2, 2]\<rparr>"

theorem hardfork_vote_witness:
  "eligible vote_example 5 1 \<and> get_voted_fork_index vote_example 5 = 1"
proof -
  have e: "eligible vote_example 5 1"
    by (simp add: eligible_def votes_from_def vote_example_def fork_def)
  have "window_inv vote_example" "window_size vote_example < 2 ^ 32" "table_ok (heights vote_example)"
    "\<forall>f \<in> set (heights vote_example). hf_threshold f \<le> 100"
    by (simp_all add: vote_example_def window_inv_def table_ok_def fork_def)
  from hardfork_vote [OF this, of 5]
  have "\<not> get_voted_fork_index vote_example 5 < 1" "get_voted_fork_index vote_example 5 < 2"
    using e by (auto simp: vote_example_def get_voted_fork_index_def Let_def fresh_hardfork_def numeral_2_eq_2)
  then show ?thesis using e by simp
qed


end
