(* ===== verification/Weight_Limit.thy ===== *)
theory Weight_Limit
  imports Rolling_Median_Correct Emission "HOL-Library.Monad_Syntax"
begin

text \<open>
  Block weights, \<open>src/cryptonote_core/blockchain.cpp\<close>: the long term weight of a block, the medians
  and the weight limit, and the cache of the long term median, a rolling median tagged with the hash
  of the last block it covers. The database part keeps per block the fields of \<open>mdb_block_info\<close> that
  these functions read. The version is the one the hard fork object gives for the height of the
  chain. A thrown exception is \<open>None\<close>.
\<close>

section \<open>Data\<close>

record mdb_block_info =
  bi_weight :: u64
  bi_long_term_block_weight :: u64
  bi_hash :: bytes

record weights =
  infos :: "mdb_block_info list"
  max_block_size :: "u64 option"
  long_term_block_weights_window :: nat
  long_term_effective_median_block_weight :: u64
  cache_tip_hash :: bytes
  cache_rolling_median :: rolling_median
  current_block_cumul_weight_median :: u64
  current_block_cumul_weight_limit :: u64

definition null_hash :: bytes where
  "null_hash = replicate 32 0"

definition CRYPTONOTE_REWARD_BLOCKS_WINDOW :: nat where
  "CRYPTONOTE_REWARD_BLOCKS_WINDOW = 100"

definition CRYPTONOTE_LONG_TERM_BLOCK_WEIGHT_WINDOW_SIZE :: nat where
  "CRYPTONOTE_LONG_TERM_BLOCK_WEIGHT_WINDOW_SIZE = 100000"

definition CRYPTONOTE_SHORT_TERM_BLOCK_WEIGHT_SURGE_FACTOR :: u64 where
  "CRYPTONOTE_SHORT_TERM_BLOCK_WEIGHT_SURGE_FACTOR = 50"

definition HF_VERSION_LONG_TERM_BLOCK_WEIGHT :: u8 where
  "HF_VERSION_LONG_TERM_BLOCK_WEIGHT = 10"

section \<open>Database\<close>

definition get_block_info_64bit_fields :: "weights \<Rightarrow> nat \<Rightarrow> nat \<Rightarrow> (mdb_block_info \<Rightarrow> u64) \<Rightarrow> u64 list option" where
  "get_block_info_64bit_fields s start_height cnt field =
     (if start_height \<ge> length (infos s) then None else Some (map field (take cnt (drop start_height (infos s)))))"

definition get_block_weights :: "weights \<Rightarrow> nat \<Rightarrow> nat \<Rightarrow> u64 list option" where
  "get_block_weights s start_height cnt = get_block_info_64bit_fields s start_height cnt bi_weight"

definition get_long_term_block_weights :: "weights \<Rightarrow> nat \<Rightarrow> nat \<Rightarrow> u64 list option" where
  "get_long_term_block_weights s start_height cnt = get_block_info_64bit_fields s start_height cnt bi_long_term_block_weight"

definition get_block_weight :: "weights \<Rightarrow> nat \<Rightarrow> u64 option" where
  "get_block_weight s h = (if h < length (infos s) then Some (bi_weight (infos s ! h)) else None)"

definition get_block_long_term_weight :: "weights \<Rightarrow> nat \<Rightarrow> u64 option" where
  "get_block_long_term_weight s h = (if h < length (infos s) then Some (bi_long_term_block_weight (infos s ! h)) else None)"

definition get_block_hash_from_height :: "weights \<Rightarrow> nat \<Rightarrow> bytes option" where
  "get_block_hash_from_height s h = (if h < length (infos s) then Some (bi_hash (infos s ! h)) else None)"

definition add_max_block_size :: "u64 \<Rightarrow> weights \<Rightarrow> weights" where
  "add_max_block_size sz s =
     (let m = (case max_block_size s of None \<Rightarrow> 0 | Some m \<Rightarrow> m)
      in s\<lparr>max_block_size := Some (if sz > m then sz else m)\<rparr>)"

section \<open>Medians and limits\<close>

definition get_last_n_blocks_weights :: "weights \<Rightarrow> nat \<Rightarrow> u64 list option" where
  "get_last_n_blocks_weights s cnt =
     (let h = length (infos s)
      in if h = 0 then Some [] else get_block_weights s (h - min h cnt) cnt)"

definition get_long_term_block_weight_median :: "weights \<Rightarrow> nat \<Rightarrow> nat \<Rightarrow> (u64 \<times> weights) option" where
  "get_long_term_block_weight_median s start_height cnt =
     (if cnt = 0 then None
      else
        let blockchain_height = length (infos s);
            tip_height = start_height + cnt - 1;
            same_size = int cnt = rm_size (cache_rolling_median s)
        in do {
          tip_hash \<leftarrow> (if tip_height < blockchain_height \<and> same_size then get_block_hash_from_height s tip_height else Some null_hash);
          if tip_height < blockchain_height \<and> same_size \<and> tip_hash = cache_tip_hash s
          then Some (rm_median (cache_rolling_median s), s)
          else do {
            incremental \<leftarrow>
              (if tip_height > 0 \<and> same_size \<and> tip_height < blockchain_height
               then map_option (\<lambda>old_tip_hash. old_tip_hash = cache_tip_hash s) (get_block_hash_from_height s (tip_height - 1))
               else Some False);
            if incremental
            then do {
              w \<leftarrow> get_block_long_term_weight s tip_height;
              let r = rm_insert (cache_rolling_median s) w;
              Some (rm_median r, s\<lparr>cache_tip_hash := tip_hash, cache_rolling_median := r\<rparr>)
            }
            else do {
              ws \<leftarrow> get_long_term_block_weights s start_height cnt;
              let r = foldl rm_insert (rm_clear (cache_rolling_median s)) ws;
              Some (rm_median r, s\<lparr>cache_tip_hash := tip_hash, cache_rolling_median := r\<rparr>)
            }
          }
        })"

definition short_term_constraint :: "u64 \<Rightarrow> u64" where
  "short_term_constraint m = m + m * 2 div 5"

definition get_next_long_term_block_weight :: "weights \<Rightarrow> u8 \<Rightarrow> u64 \<Rightarrow> (u64 \<times> weights) option" where
  "get_next_long_term_block_weight s hf_version block_weight =
     (let db_height = length (infos s);
          nblocks = min (long_term_block_weights_window s) db_height
      in if hf_version < HF_VERSION_LONG_TERM_BLOCK_WEIGHT then Some (block_weight, s)
         else do {
           (long_term_median, s) \<leftarrow> get_long_term_block_weight_median s (db_height - nblocks) nblocks;
           let effective = max CRYPTONOTE_BLOCK_GRANTED_FULL_REWARD_ZONE_V5 long_term_median;
           Some (min block_weight (short_term_constraint effective), s)
         })"

text \<open>The medians that \<open>update_next_cumulative_weight_limit\<close> computes from the long term fork on.\<close>

definition update_long_term :: "weights \<Rightarrow> weights option" where
  "update_long_term s =
     (let db_height = length (infos s)
      in if db_height = 0 then None
         else do {
           block_weight \<leftarrow> get_block_weight s (db_height - 1);
           (long_term_median, s) \<leftarrow>
             (if db_height = 1 then Some (CRYPTONOTE_BLOCK_GRANTED_FULL_REWARD_ZONE_V5, s)
              else
                let nblocks = min (long_term_block_weights_window s) db_height;
                    nblocks = (if nblocks = db_height then nblocks - 1 else nblocks)
                in get_long_term_block_weight_median s (db_height - nblocks - 1) nblocks);
           let effective = max CRYPTONOTE_BLOCK_GRANTED_FULL_REWARD_ZONE_V5 long_term_median;
           let long_term_block_weight = min block_weight (short_term_constraint effective);
           (long_term_median, s) \<leftarrow>
             (if db_height = 1 then Some (long_term_block_weight, s)
              else do {
                tip_hash \<leftarrow> get_block_hash_from_height s (db_height - 1);
                let r = rm_insert (cache_rolling_median s) long_term_block_weight;
                Some (rm_median r, s\<lparr>cache_tip_hash := tip_hash, cache_rolling_median := r\<rparr>)
              });
           let effective = max CRYPTONOTE_BLOCK_GRANTED_FULL_REWARD_ZONE_V5 long_term_median;
           ws \<leftarrow> get_last_n_blocks_weights s CRYPTONOTE_REWARD_BLOCKS_WINDOW;
           let short_term_median = median ws;
           Some (s\<lparr>long_term_effective_median_block_weight := effective,
                   current_block_cumul_weight_median :=
                     min (max CRYPTONOTE_BLOCK_GRANTED_FULL_REWARD_ZONE_V5 short_term_median)
                         (CRYPTONOTE_SHORT_TERM_BLOCK_WEIGHT_SURGE_FACTOR * effective)\<rparr>)
         })"

definition update_next_cumulative_weight_limit :: "weights \<Rightarrow> u8 \<Rightarrow> weights option" where
  "update_next_cumulative_weight_limit s hf_version =
     do {
       let full_reward_zone = get_min_block_weight hf_version;
       s \<leftarrow> (if hf_version < HF_VERSION_LONG_TERM_BLOCK_WEIGHT
             then map_option (\<lambda>ws. s\<lparr>current_block_cumul_weight_median := median ws\<rparr>)
                    (get_last_n_blocks_weights s CRYPTONOTE_REWARD_BLOCKS_WINDOW)
             else update_long_term s);
       let s = (if current_block_cumul_weight_median s \<le> full_reward_zone
                then s\<lparr>current_block_cumul_weight_median := full_reward_zone\<rparr> else s);
       let s = s\<lparr>current_block_cumul_weight_limit := current_block_cumul_weight_median s * 2\<rparr>;
       Some (add_max_block_size (current_block_cumul_weight_limit s) s)
     }"

section \<open>The users\<close>

text \<open>A new object on a database; the arrays of the rolling median start uninitialised.\<close>

definition new_weights :: "nat \<Rightarrow> (int \<Rightarrow> u64) \<Rightarrow> (int \<Rightarrow> int) \<Rightarrow> (int \<Rightarrow> int) \<Rightarrow> mdb_block_info list \<Rightarrow> u64 option \<Rightarrow> weights" where
  "new_weights n d p h bis m =
     \<lparr>infos = bis, max_block_size = m, long_term_block_weights_window = n, long_term_effective_median_block_weight = 0,
      cache_tip_hash = null_hash, cache_rolling_median = rolling_median_t n d p h,
      current_block_cumul_weight_median = 0, current_block_cumul_weight_limit = 0\<rparr>"

text \<open>The weights part of \<open>handle_block_to_main_chain\<close>, \<open>pop_block_from_blockchain\<close> and
  \<open>reset_and_set_genesis_block\<close>; \<open>version h\<close> is the version the hard fork object gives when the
  chain has height \<open>h\<close>.\<close>

definition store_block :: "(nat \<Rightarrow> u8) \<Rightarrow> weights \<Rightarrow> u64 \<Rightarrow> bytes \<Rightarrow> weights option" where
  "store_block version s block_weight blk_id =
     do {
       (long_term_block_weight, s) \<leftarrow> get_next_long_term_block_weight s (version (length (infos s))) block_weight;
       let s = s\<lparr>infos := infos s @ [\<lparr>bi_weight = block_weight, bi_long_term_block_weight = long_term_block_weight, bi_hash = blk_id\<rparr>]\<rparr>;
       update_next_cumulative_weight_limit s (version (length (infos s)))
     }"

definition pop_block :: "(nat \<Rightarrow> u8) \<Rightarrow> weights \<Rightarrow> weights option" where
  "pop_block version s =
     (if \<not> length (infos s) > 1 then None
      else
        let s = s\<lparr>infos := butlast (infos s)\<rparr>
        in update_next_cumulative_weight_limit s (version (length (infos s))))"

definition reset_and_set_genesis_block :: "(nat \<Rightarrow> u8) \<Rightarrow> weights \<Rightarrow> u64 \<Rightarrow> bytes \<Rightarrow> weights option" where
  "reset_and_set_genesis_block version s block_weight blk_id =
     do {
       s \<leftarrow> store_block version (s\<lparr>infos := []\<rparr>) block_weight blk_id;
       update_next_cumulative_weight_limit s (version (length (infos s)))
     }"

end
