(* ===== verification/Weight_Limit_Correct.thy ===== *)
theory Weight_Limit_Correct
  imports Weight_Limit
begin

text \<open>
  The cached computation of the weight limit refines a computation from the weights of the chain
  alone: whatever blocks were stored and popped before and whenever the node was restarted, the
  medians and the limit are the ones that the chain determines.
\<close>

section \<open>The interface of the rolling median\<close>

locale sliding_median =
  fixes inv :: "'m \<Rightarrow> bool" and cap :: "'m \<Rightarrow> nat" and contents :: "'m \<Rightarrow> u64 list"
    and insert :: "'m \<Rightarrow> u64 \<Rightarrow> 'm" and clear :: "'m \<Rightarrow> 'm" and mid :: "'m \<Rightarrow> u64"
  assumes inv_insert: "inv m \<Longrightarrow> inv (insert m v)"
    and inv_clear: "inv m \<Longrightarrow> inv (clear m)"
    and cap_insert: "inv m \<Longrightarrow> cap (insert m v) = cap m"
    and cap_clear: "inv m \<Longrightarrow> cap (clear m) = cap m"
    and cap_pos: "inv m \<Longrightarrow> 0 < cap m"
    and contents_insert: "inv m \<Longrightarrow> contents (insert m v) = last_n (cap m) (contents m @ [v])"
    and contents_clear: "inv m \<Longrightarrow> contents (clear m) = []"
    and mid_contents: "inv m \<Longrightarrow> contents m \<noteq> [] \<Longrightarrow> mid m = median (contents m)"
begin

text \<open>\<open>holds m xs\<close>: the object has seen \<open>xs\<close> and keeps the last of them.\<close>

definition holds :: "'m \<Rightarrow> u64 list \<Rightarrow> bool" where
  "holds m xs \<longleftrightarrow> inv m \<and> contents m = last_n (cap m) xs"

lemma last_n_last_n_snoc: "0 < n \<Longrightarrow> last_n n (last_n n xs @ [v]) = last_n n (xs @ [v])"
  by (cases "length xs \<le> n") (auto simp: last_n_def Suc_diff_le)

lemma holds_insert: "holds m xs \<Longrightarrow> holds (insert m v) (xs @ [v])"
  using cap_pos [of m] by (simp add: holds_def inv_insert cap_insert contents_insert last_n_last_n_snoc)

lemma holds_foldl: "holds m xs \<Longrightarrow> holds (foldl insert m ys) (xs @ ys) \<and> cap (foldl insert m ys) = cap m"
proof (induction ys arbitrary: m xs)
  case (Cons y ys)
  then show ?case using holds_insert [of m xs y] cap_insert [of m y] by (auto simp: holds_def dest!: Cons.IH)
qed simp

lemma holds_clear: "inv m \<Longrightarrow> holds (clear m) []"
  by (simp add: holds_def inv_clear contents_clear last_n_def)

lemma holds_mid: "holds m xs \<Longrightarrow> xs \<noteq> [] \<Longrightarrow> mid m = median (last_n (cap m) xs)"
  using mid_contents [of m] cap_pos [of m] by (cases "length xs \<le> cap m") (auto simp: holds_def last_n_def)

lemma holds_rebuild: "inv m \<Longrightarrow> holds (foldl insert (clear m) ys) ys \<and> cap (foldl insert (clear m) ys) = cap m"
  using holds_foldl [OF holds_clear, of m ys] cap_clear [of m] by simp

end

lemma window_length:
  assumes "rm_inv r"
  shows "rm_size r = int (length (window r))" and "length (window r) \<le> nat (rm_N r)"
  using assms by (auto simp: rm_inv_def rm_counts_def window_def rm_size_def)

lemma window_insert_last:
  assumes "rm_inv r"
  shows "window (rm_insert r v) = last_n (nat (rm_N r)) (window r @ [v])"
proof -
  have l: "rm_sz r = int (length (window r))" "length (window r) \<le> nat (rm_N r)" "1 \<le> rm_N r"
    using window_length [OF assms] assms by (auto simp: rm_size_def rm_inv_def rm_counts_def)
  then have "rm_sz r < rm_N r \<longleftrightarrow> length (window r) < nat (rm_N r)" by auto
  moreover have "length (window r) < nat (rm_N r) \<Longrightarrow> last_n (nat (rm_N r)) (window r) = window r"
    "\<not> length (window r) < nat (rm_N r) \<Longrightarrow> last_n (nat (rm_N r)) (window r) = window r"
    using l(2) by (simp_all add: last_n_def)
  ultimately show ?thesis using l(3) by (simp add: window_insert [OF assms] last_n_snoc)
qed

lemma rm_N_pos: "rm_inv r \<Longrightarrow> 1 \<le> rm_N r"
  by (simp add: rm_inv_def rm_counts_def)

interpretation rm: sliding_median rm_inv "\<lambda>r. nat (rm_N r)" window rm_insert rm_clear rm_median
proof unfold_locales
  fix r v assume r: "rm_inv r"
  then have n: "1 \<le> rm_N r" by (rule rm_N_pos)
  show "rm_inv (rm_insert r v)" "nat (rm_N (rm_insert r v)) = nat (rm_N r)"
    using rm_insert_correct [OF r, of v] by (auto simp: inserted_def)
  show "rm_inv (rm_clear r)" "nat (rm_N (rm_clear r)) = nat (rm_N r)" "window (rm_clear r) = []" using rm_clear_inv [OF n] by auto
  show "0 < nat (rm_N r)" using n by simp
  show "window (rm_insert r v) = last_n (nat (rm_N r)) (window r @ [v])" by (rule window_insert_last [OF r])
next
  fix r assume r: "rm_inv r" and "window r \<noteq> []"
  then have "1 \<le> rm_sz r" using window_length(1) [OF r] by (cases "window r") (auto simp: rm_size_def)
  then show "rm_median r = median (window r)" by (rule rm_median_window [OF r])
qed

section \<open>The weights a chain determines\<close>

definition long_term_weight :: "(nat \<Rightarrow> u8) \<Rightarrow> nat \<Rightarrow> u64 list \<Rightarrow> u64 \<Rightarrow> u64" where
  "long_term_weight version n ls w =
     (if version (length ls) < HF_VERSION_LONG_TERM_BLOCK_WEIGHT then w
      else min w (short_term_constraint (max CRYPTONOTE_BLOCK_GRANTED_FULL_REWARD_ZONE_V5 (median (last_n n ls)))))"

definition long_term_weights :: "(nat \<Rightarrow> u8) \<Rightarrow> nat \<Rightarrow> u64 list \<Rightarrow> u64 list" where
  "long_term_weights version n ws = foldl (\<lambda>ls w. ls @ [long_term_weight version n ls w]) [] ws"

lemma long_term_weights_Nil [simp]: "long_term_weights version n [] = []"
  by (simp add: long_term_weights_def)

lemma long_term_weights_snoc:
  "long_term_weights version n (ws @ [w]) = long_term_weights version n ws @ [long_term_weight version n (long_term_weights version n ws) w]"
  by (simp add: long_term_weights_def)

lemma length_long_term_weights [simp]: "length (long_term_weights version n ws) = length ws"
  by (induction ws rule: rev_induct) (simp_all add: long_term_weights_snoc)

lemma long_term_weights_append: "\<exists>ls. long_term_weights version n (ws @ us) = long_term_weights version n ws @ ls"
proof (induction us rule: rev_induct)
  case (snoc u us)
  then show ?case using long_term_weights_snoc [of version n "ws @ us" u] by auto
qed simp

lemma take_long_term_weights: "take k (long_term_weights version n ws) = long_term_weights version n (take k ws)"
proof -
  obtain ls where "long_term_weights version n (take k ws @ drop k ws) = long_term_weights version n (take k ws) @ ls"
    using long_term_weights_append by blast
  then show ?thesis by (cases "k \<le> length ws") auto
qed

definition effective_long_term_median :: "(nat \<Rightarrow> u8) \<Rightarrow> nat \<Rightarrow> u64 list \<Rightarrow> u64" where
  "effective_long_term_median version n ws =
     max CRYPTONOTE_BLOCK_GRANTED_FULL_REWARD_ZONE_V5
       (if length ws = 1 then min (ws ! 0) (short_term_constraint CRYPTONOTE_BLOCK_GRANTED_FULL_REWARD_ZONE_V5)
        else median (last_n n (long_term_weights version n ws)))"

definition weight_median :: "(nat \<Rightarrow> u8) \<Rightarrow> nat \<Rightarrow> u64 list \<Rightarrow> u64" where
  "weight_median version n ws =
     max (get_min_block_weight (version (length ws)))
       (let m = median (last_n CRYPTONOTE_REWARD_BLOCKS_WINDOW ws)
        in if version (length ws) < HF_VERSION_LONG_TERM_BLOCK_WEIGHT then m
           else min (max CRYPTONOTE_BLOCK_GRANTED_FULL_REWARD_ZONE_V5 m)
                    (CRYPTONOTE_SHORT_TERM_BLOCK_WEIGHT_SURGE_FACTOR * effective_long_term_median version n ws))"

section \<open>The cache\<close>

text \<open>Hashes identify the admissible chains that end in the block; \<open>bid c\<close> is the hash of the last
  block of \<open>c\<close>, which contains the hash of the block before.\<close>

definition identifies :: "('b list \<Rightarrow> bool) \<Rightarrow> ('b list \<Rightarrow> bytes) \<Rightarrow> bool" where
  "identifies adm bid \<longleftrightarrow> (\<forall>c c'. adm c \<longrightarrow> adm c' \<longrightarrow> bid c = bid c' \<longrightarrow> c = c') \<and> (\<forall>c. adm c \<longrightarrow> bid c \<noteq> null_hash)"

text \<open>The database holds the chain.\<close>

definition stored :: "(nat \<Rightarrow> u8) \<Rightarrow> nat \<Rightarrow> ('b \<Rightarrow> u64) \<Rightarrow> ('b list \<Rightarrow> bytes) \<Rightarrow> 'b list \<Rightarrow> weights \<Rightarrow> bool" where
  "stored version n wt bid c s \<longleftrightarrow>
     long_term_block_weights_window s = n \<and> map bi_weight (infos s) = map wt c \<and>
     map bi_long_term_block_weight (infos s) = long_term_weights version n (map wt c) \<and>
     map bi_hash (infos s) = map (\<lambda>i. bid (take (Suc i) c)) [0..<length c]"

definition cache_ok :: "(nat \<Rightarrow> u8) \<Rightarrow> nat \<Rightarrow> ('b \<Rightarrow> u64) \<Rightarrow> ('b list \<Rightarrow> bool) \<Rightarrow> ('b list \<Rightarrow> bytes) \<Rightarrow> bytes \<Rightarrow> rolling_median \<Rightarrow> bool" where
  "cache_ok version n wt adm bid tip r \<longleftrightarrow> rm_inv r \<and> rm_N r = int n \<and>
     (\<forall>c. c \<noteq> [] \<longrightarrow> adm c \<longrightarrow> bid c = tip \<longrightarrow> window r = last_n n (long_term_weights version n (map wt c)))"

lemma stored_length: "stored version n wt bid c s \<Longrightarrow> length (infos s) = length c"
  unfolding stored_def by (metis length_map)

lemma stored_nth:
  assumes "stored version n wt bid c s" and "i < length c"
  shows "bi_weight (infos s ! i) = wt (c ! i)" and "bi_long_term_block_weight (infos s ! i) = long_term_weights version n (map wt c) ! i"
    and "bi_hash (infos s ! i) = bid (take (Suc i) c)"
proof -
  have l: "i < length (infos s)" using stored_length [OF assms(1)] assms(2) by simp
  have m: "map bi_weight (infos s) ! i = map wt c ! i" "map bi_long_term_block_weight (infos s) ! i = long_term_weights version n (map wt c) ! i"
    "map bi_hash (infos s) ! i = map (\<lambda>i. bid (take (Suc i) c)) [0..<length c] ! i"
    using assms(1) by (simp_all add: stored_def)
  show "bi_weight (infos s ! i) = wt (c ! i)" using m(1) l assms(2) by simp
  show "bi_long_term_block_weight (infos s ! i) = long_term_weights version n (map wt c) ! i" using m(2) l by simp
  show "bi_hash (infos s ! i) = bid (take (Suc i) c)" using m(3) l assms(2) by simp
qed

lemma cache_ok_tag:
  assumes "identifies adm bid" and "rm_inv r" and "rm_N r = int n" and "adm c" and "window r = last_n n (long_term_weights version n (map wt c))"
  shows "cache_ok version n wt adm bid (bid c) r"
  using assms by (auto simp: cache_ok_def identifies_def)

lemma cache_ok_null:
  assumes "identifies adm bid" and "rm_inv r" and "rm_N r = int n"
  shows "cache_ok version n wt adm bid null_hash r"
  using assms by (auto simp: cache_ok_def identifies_def)

lemma slice_last_n:
  assumes "0 < k" and "i + k \<le> length ls" and "k = n \<or> i = 0 \<and> k \<le> n"
  shows "take k (drop i ls) = last_n n (take (i + k) ls)"
  using assms by (auto simp: last_n_def drop_take)

text \<open>The three ways through \<open>get_long_term_block_weight_median\<close>.\<close>

lemma ltm_cached:
  assumes "0 < k" and "t = i + k - 1" and "t < length (infos s)" and "int k = rm_size (cache_rolling_median s)"
    and "get_block_hash_from_height s t = Some (cache_tip_hash s)"
  shows "get_long_term_block_weight_median s i k = Some (rm_median (cache_rolling_median s), s)"
  unfolding get_long_term_block_weight_median_def Let_def assms(2) [symmetric] using assms(1,3,4,5) by simp

lemma ltm_incremental:
  assumes "0 < k" and "t = i + k - 1" and "t < length (infos s)" and "int k = rm_size (cache_rolling_median s)"
    and "get_block_hash_from_height s t = Some h" and "h \<noteq> cache_tip_hash s"
    and "0 < t" and "get_block_hash_from_height s (t - 1) = Some (cache_tip_hash s)" and "get_block_long_term_weight s t = Some w"
  shows "get_long_term_block_weight_median s i k =
    Some (rm_median (rm_insert (cache_rolling_median s) w), s\<lparr>cache_tip_hash := h, cache_rolling_median := rm_insert (cache_rolling_median s) w\<rparr>)"
  unfolding get_long_term_block_weight_median_def Let_def assms(2) [symmetric] using assms(1,3-) by simp

lemma ltm_uncached:
  assumes "0 < k" and "t = i + k - 1" and "t < length (infos s)" and "get_block_hash_from_height s t = Some h"
    and "\<not> (int k = rm_size (cache_rolling_median s) \<and> h = cache_tip_hash s)"
    and "0 < t \<Longrightarrow> get_block_hash_from_height s (t - 1) = Some h'"
    and "\<not> (int k = rm_size (cache_rolling_median s) \<and> 0 < t \<and> h' = cache_tip_hash s)"
    and "get_long_term_block_weights s i k = Some ws"
  shows "get_long_term_block_weight_median s i k =
    Some (rm_median (foldl rm_insert (rm_clear (cache_rolling_median s)) ws),
      s\<lparr>cache_tip_hash := (if int k = rm_size (cache_rolling_median s) then h else null_hash),
        cache_rolling_median := foldl rm_insert (rm_clear (cache_rolling_median s)) ws\<rparr>)"
  unfolding get_long_term_block_weight_median_def Let_def assms(2) [symmetric] using assms(1,3-)
  by (cases "int k = rm_size (cache_rolling_median s)"; cases "0 < t") simp_all

lemma median_cached:
  assumes s: "stored version n wt bid c s" and ca: "cache_ok version n wt adm bid (cache_tip_hash s) (cache_rolling_median s)"
    and hid: "identifies adm bid" and adm: "\<forall>k \<in> {1..length c}. adm (take k c)"
    and k: "0 < k" "i + k \<le> length c" "k = n \<or> i = 0 \<and> k \<le> n"
  shows "\<exists>tip r. get_long_term_block_weight_median s i k =
      Some (median (take k (drop i (long_term_weights version n (map wt c)))), s\<lparr>cache_tip_hash := tip, cache_rolling_median := r\<rparr>) \<and>
      cache_ok version n wt adm bid tip r \<and> window r = take k (drop i (long_term_weights version n (map wt c)))"
proof -
  define ls where "ls = long_term_weights version n (map wt c)"
  define t where "t = i + k - 1"
  define W where "W = take k (drop i ls)"
  let ?r = "cache_rolling_median s"
  have t: "t < length c" "Suc t = i + k" using k by (auto simp: t_def)
  have pre: "take m ls = long_term_weights version n (map wt (take m c))" for m
    by (simp add: ls_def take_long_term_weights take_map)
  have W: "W = last_n n (long_term_weights version n (map wt (take (Suc t) c)))"
    unfolding W_def t(2) pre [symmetric] using k by (intro slice_last_n) (simp_all add: ls_def)
  have lW: "length W = k" using k by (simp add: W_def ls_def)
  then have W0: "W \<noteq> []" using k(1) by auto
  have r: "rm_inv ?r" "rm_N ?r = int n" using ca by (simp_all add: cache_ok_def)
  have len: "length (infos s) = length c" using stored_length [OF s] .
  have a: "adm (take (Suc t) c)" "take (Suc t) c \<noteq> []" using adm t(1) by auto
  let ?ss = "int k = rm_size ?r"
  have hash: "get_block_hash_from_height s m = Some (bid (take (Suc m) c))" if "m < length c" for m
    using stored_nth(3) [OF s that] that by (simp add: get_block_hash_from_height_def len)
  let ?tip = "if ?ss then bid (take (Suc t) c) else null_hash"
  have tip_ok: "cache_ok version n wt adm bid ?tip q" if "rm_inv q" "rm_N q = int n" "window q = W" for q
    using that cache_ok_tag [OF hid that(1,2) a(1)] cache_ok_null [OF hid that(1,2)] by (simp add: W)
  consider (cached) "?ss" "bid (take (Suc t) c) = cache_tip_hash s"
    | (incremental) "\<not> (?ss \<and> bid (take (Suc t) c) = cache_tip_hash s)" "?ss" "0 < t" "bid (take t c) = cache_tip_hash s"
    | (uncached) "\<not> (?ss \<and> bid (take (Suc t) c) = cache_tip_hash s)" "\<not> (?ss \<and> 0 < t \<and> bid (take t c) = cache_tip_hash s)"
    by blast
  then show ?thesis
  proof cases
    case cached
    then have w: "window ?r = W" using ca a unfolding W cache_ok_def by blast
    then have "rm_median ?r = median W" using rm.mid_contents [OF r(1)] W0 by simp
    moreover have "get_long_term_block_weight_median s i k = Some (rm_median ?r, s)"
      using cached hash [OF t(1)] t(1) by (intro ltm_cached [OF k(1) t_def]) (simp_all add: len)
    ultimately show ?thesis using ca w by (intro exI [of _ "cache_tip_hash s"] exI [of _ ?r]) (simp add: W_def ls_def)
  next
    case incremental
    have at: "adm (take t c)" "take t c \<noteq> []" using adm t(1) incremental(3) by auto
    then have w: "window ?r = last_n n (long_term_weights version n (map wt (take t c)))"
      using ca incremental(4) unfolding cache_ok_def by blast
    have "k = min n t"
      using incremental(2) window_length(1) [OF r(1)] t(1) unfolding w by (simp add: last_n_def)
    then have kn: "k = n" using k(3) t(2) incremental(3) by auto
    let ?q = "rm_insert ?r (ls ! t)"
    have "rm.holds ?r (take t ls)" using r w by (simp add: rm.holds_def pre)
    then have "rm.holds ?q (take t ls @ [ls ! t])" by (rule rm.holds_insert)
    then have q: "rm.holds ?q (take (Suc t) ls)" using t(1) by (simp add: take_Suc_conv_app_nth ls_def)
    have qn: "rm_N ?q = int n" using rm_insert_correct [OF r(1)] r(2) by (simp add: inserted_def)
    then have wq: "window ?q = W" "rm_inv ?q" using q unfolding W pre [symmetric] by (simp_all add: rm.holds_def)
    then have "rm_median ?q = median W" using rm.mid_contents W0 by simp
    moreover have "get_long_term_block_weight_median s i k = Some (rm_median ?q, s\<lparr>cache_tip_hash := ?tip, cache_rolling_median := ?q\<rparr>)"
      unfolding if_P [OF incremental(2)]
      using incremental hash [OF t(1)] t(1) hash [of "t - 1"] stored_nth(2) [OF s t(1)]
      by (intro ltm_incremental [OF k(1) t_def]) (simp_all add: len get_block_long_term_weight_def ls_def)
    ultimately show ?thesis using tip_ok [OF wq(2) qn wq(1)] wq(1)
      by (intro exI [of _ ?tip] exI [of _ ?q]) (simp add: W_def ls_def)
  next
    case uncached
    let ?q = "foldl rm_insert (rm_clear ?r) W"
    have q: "rm.holds ?q W" "nat (rm_N ?q) = nat (rm_N ?r)" using rm.holds_rebuild [OF r(1), of W] by auto
    have "last_n n W = W" using lW k(3) by (auto simp: last_n_def)
    then have wq: "window ?q = W" "rm_inv ?q" using q r(2) by (simp_all add: rm.holds_def)
    then have qn: "rm_N ?q = int n" using q(2) r(2) rm_N_pos [OF wq(2)] by simp
    have "ls = map bi_long_term_block_weight (infos s)" using s by (simp add: stored_def ls_def)
    then have "get_long_term_block_weights s i k = Some W"
      using k by (simp add: get_long_term_block_weights_def get_block_info_64bit_fields_def len W_def take_map drop_map)
    then have "get_long_term_block_weight_median s i k = Some (rm_median ?q, s\<lparr>cache_tip_hash := ?tip, cache_rolling_median := ?q\<rparr>)"
      using uncached hash [OF t(1)] t(1) hash [of "t - 1"]
      by (intro ltm_uncached [OF k(1) t_def, where h' = "bid (take t c)"]) (simp_all add: len)
    moreover have "rm_median ?q = median W" using rm.mid_contents wq W0 by simp
    ultimately show ?thesis using tip_ok [OF wq(2) qn wq(1)] wq(1)
      by (intro exI [of _ ?tip] exI [of _ ?q]) (simp add: W_def ls_def)
  qed
qed

section \<open>The operations\<close>

text \<open>The last block before the long term fork is not heavier than the first rule of the fork allows.
  Its stored long term weight is its weight, while the cache gets the limited weight.\<close>

definition calm_fork :: "(nat \<Rightarrow> u8) \<Rightarrow> nat \<Rightarrow> ('b \<Rightarrow> u64) \<Rightarrow> ('b list \<Rightarrow> bool) \<Rightarrow> bool" where
  "calm_fork version n wt adm \<longleftrightarrow>
     (\<forall>c b. adm (c @ [b]) \<longrightarrow> c \<noteq> [] \<longrightarrow> version (length c) < HF_VERSION_LONG_TERM_BLOCK_WEIGHT \<longrightarrow>
        HF_VERSION_LONG_TERM_BLOCK_WEIGHT \<le> version (Suc (length c)) \<longrightarrow>
        wt b \<le> short_term_constraint
          (max CRYPTONOTE_BLOCK_GRANTED_FULL_REWARD_ZONE_V5 (median (last_n n (long_term_weights version n (map wt c))))))"

definition limits :: "(nat \<Rightarrow> u8) \<Rightarrow> nat \<Rightarrow> u64 list \<Rightarrow> weights \<Rightarrow> bool" where
  "limits version n ws s \<longleftrightarrow>
     current_block_cumul_weight_median s = weight_median version n ws \<and>
     current_block_cumul_weight_limit s = weight_median version n ws * 2 \<and>
     (HF_VERSION_LONG_TERM_BLOCK_WEIGHT \<le> version (length ws) \<longrightarrow>
        long_term_effective_median_block_weight s = effective_long_term_median version n ws)"

lemma stored_cong:
  "infos s' = infos s \<Longrightarrow> long_term_block_weights_window s' = long_term_block_weights_window s \<Longrightarrow>
     stored version n wt bid c s' \<longleftrightarrow> stored version n wt bid c s"
  by (simp add: stored_def)

lemma next_weight_ok:
  assumes s: "stored version n wt bid c s" and ca: "cache_ok version n wt adm bid (cache_tip_hash s) (cache_rolling_median s)"
    and hid: "identifies adm bid" and adm: "\<forall>k \<in> {1..length c}. adm (take k c)" and n: "0 < n"
    and g: "c \<noteq> [] \<or> version 0 < HF_VERSION_LONG_TERM_BLOCK_WEIGHT"
  shows "\<exists>tip r. get_next_long_term_block_weight s (version (length c)) w =
      Some (long_term_weight version n (long_term_weights version n (map wt c)) w, s\<lparr>cache_tip_hash := tip, cache_rolling_median := r\<rparr>) \<and>
      cache_ok version n wt adm bid tip r"
proof (cases "version (length c) < HF_VERSION_LONG_TERM_BLOCK_WEIGHT")
  case True
  then have "get_next_long_term_block_weight s (version (length c)) w =
      Some (long_term_weight version n (long_term_weights version n (map wt c)) w, s\<lparr>cache_tip_hash := cache_tip_hash s, cache_rolling_median := cache_rolling_median s\<rparr>)"
    by (simp add: get_next_long_term_block_weight_def long_term_weight_def)
  then show ?thesis using ca by blast
next
  case False
  let ?ls = "long_term_weights version n (map wt c)"
  define k where "k = min n (length c)"
  have c: "c \<noteq> []" using g False by auto
  have k: "0 < k" "length c - k + k \<le> length c" "k = n \<or> length c - k = 0 \<and> k \<le> n" using n c by (auto simp: k_def)
  have "take k (drop (length c - k) ?ls) = last_n n ?ls" by (simp add: last_n_def k_def min_def)
  then obtain tip r where m: "get_long_term_block_weight_median s (length c - k) k = Some (median (last_n n ?ls), s\<lparr>cache_tip_hash := tip, cache_rolling_median := r\<rparr>)"
      "cache_ok version n wt adm bid tip r"
    using median_cached [OF s ca hid adm k] unfolding \<open>take k (drop (length c - k) ?ls) = last_n n ?ls\<close> by blast
  have w: "long_term_block_weights_window s = n" "length (infos s) = length c" using s stored_length [OF s] by (auto simp: stored_def)
  have "get_next_long_term_block_weight s (version (length c)) w =
      Some (long_term_weight version n ?ls w, s\<lparr>cache_tip_hash := tip, cache_rolling_median := r\<rparr>)"
    unfolding get_next_long_term_block_weight_def Let_def w k_def [symmetric] if_not_P [OF False] m(1)
    using False by (simp add: long_term_weight_def)
  then show ?thesis using m(2) by blast
qed

lemma last_weights:
  assumes "stored version n wt bid c s" and "c \<noteq> []"
  shows "get_last_n_blocks_weights s CRYPTONOTE_REWARD_BLOCKS_WINDOW = Some (last_n CRYPTONOTE_REWARD_BLOCKS_WINDOW (map wt c))"
proof -
  have l: "length (infos s) = length c" by (rule stored_length [OF assms(1)])
  have m: "map wt c = map bi_weight (infos s)" using assms(1) by (simp add: stored_def)
  show ?thesis
    using assms(2) l unfolding m
    by (cases "length c \<le> 100") (auto simp: get_last_n_blocks_weights_def get_block_weights_def get_block_info_64bit_fields_def last_n_def Let_def
        CRYPTONOTE_REWARD_BLOCKS_WINDOW_def drop_map min_def)
qed

lemma inserted_weight:
  assumes "calm_fork version n wt adm" and "adm (c @ [b])" and "c \<noteq> []"
    and "HF_VERSION_LONG_TERM_BLOCK_WEIGHT \<le> version (Suc (length c))"
  shows "min (wt b) (short_term_constraint (max CRYPTONOTE_BLOCK_GRANTED_FULL_REWARD_ZONE_V5 (median (last_n n (long_term_weights version n (map wt c)))))) =
    long_term_weight version n (long_term_weights version n (map wt c)) (wt b)"
  using assms by (auto simp: calm_fork_def long_term_weight_def min_def)

lemma update_long_term_ok:
  assumes s: "stored version n wt bid c s" and ca: "cache_ok version n wt adm bid (cache_tip_hash s) (cache_rolling_median s)"
    and hid: "identifies adm bid" and adm: "\<forall>k \<in> {1..length c}. adm (take k c)" and n: "0 < n" and c: "c \<noteq> []"
    and calm: "calm_fork version n wt adm" and v: "HF_VERSION_LONG_TERM_BLOCK_WEIGHT \<le> version (length c)"
  shows "\<exists>tip r. update_long_term s =
      Some (s\<lparr>cache_tip_hash := tip, cache_rolling_median := r,
              long_term_effective_median_block_weight := effective_long_term_median version n (map wt c),
              current_block_cumul_weight_median :=
                min (max CRYPTONOTE_BLOCK_GRANTED_FULL_REWARD_ZONE_V5 (median (last_n CRYPTONOTE_REWARD_BLOCKS_WINDOW (map wt c))))
                    (CRYPTONOTE_SHORT_TERM_BLOCK_WEIGHT_SURGE_FACTOR * effective_long_term_median version n (map wt c))\<rparr>) \<and>
      cache_ok version n wt adm bid tip r"
proof -
  have w: "long_term_block_weights_window s = n" "length (infos s) = length c" using s stored_length [OF s] by (auto simp: stored_def)
  have bw: "get_block_weight s (length c - 1) = Some (wt (c ! (length c - 1)))"
    using stored_nth(1) [OF s, of "length c - 1"] c w by (simp add: get_block_weight_def)
  note lw = last_weights [OF s c]
  show ?thesis
  proof (cases "length c = 1")
    case True
    have "update_long_term s = Some (s\<lparr>cache_tip_hash := cache_tip_hash s, cache_rolling_median := cache_rolling_median s,
              long_term_effective_median_block_weight := effective_long_term_median version n (map wt c),
              current_block_cumul_weight_median :=
                min (max CRYPTONOTE_BLOCK_GRANTED_FULL_REWARD_ZONE_V5 (median (last_n CRYPTONOTE_REWARD_BLOCKS_WINDOW (map wt c))))
                    (CRYPTONOTE_SHORT_TERM_BLOCK_WEIGHT_SURGE_FACTOR * effective_long_term_median version n (map wt c))\<rparr>)"
      using True bw lw w by (simp add: update_long_term_def effective_long_term_median_def Let_def)
    then show ?thesis using ca by blast
  next
    case False
    obtain d b where d: "c = d @ [b]" "d \<noteq> []" using c False by (cases c rule: rev_cases) auto
    let ?ls = "long_term_weights version n (map wt c)" and ?ld = "long_term_weights version n (map wt d)"
    define k where "k = (if min n (length c) = length c then min n (length c) - 1 else min n (length c))"
    have k: "0 < k" "length c - k - 1 + k \<le> length c" "k = n \<or> length c - k - 1 = 0 \<and> k \<le> n"
      using n d by (auto simp: k_def min_def)
    have ls: "?ls = ?ld @ [long_term_weight version n ?ld (wt b)]" by (simp add: d(1) long_term_weights_snoc)
    have sl: "take k (drop (length c - k - 1) ?ls) = last_n n ?ld"
    proof -
      have e: "length c - k - 1 + k = length d" using n d by (auto simp: k_def min_def)
      have "take k (drop (length c - k - 1) ?ls) = last_n n (take (length c - k - 1 + k) ?ls)"
        by (rule slice_last_n) (use k in simp_all)
      then show ?thesis unfolding e by (simp add: ls)
    qed
    obtain tip r where m: "get_long_term_block_weight_median s (length c - k - 1) k = Some (median (last_n n ?ld), s\<lparr>cache_tip_hash := tip, cache_rolling_median := r\<rparr>)"
        "cache_ok version n wt adm bid tip r" "window r = last_n n ?ld"
      using median_cached [OF s ca hid adm k] unfolding sl by blast
    define x where "x = long_term_weight version n ?ld (wt b)"
    have ad: "adm (d @ [b])" using adm d(1) by (auto dest!: bspec [of _ _ "length c"])
    have x: "min (wt (c ! (length c - 1))) (short_term_constraint (max CRYPTONOTE_BLOCK_GRANTED_FULL_REWARD_ZONE_V5 (median (last_n n ?ld)))) = x"
      using inserted_weight [OF calm ad d(2)] v d(1) by (simp add: x_def)
    let ?q = "rm_insert r x"
    have r: "rm_inv r" "rm_N r = int n" using m(2) by (simp_all add: cache_ok_def)
    then have "rm.holds r ?ld" using m(3) by (simp add: rm.holds_def)
    then have h: "rm.holds ?q ?ls" using rm.holds_insert [of r ?ld x] ls by (simp add: x_def)
    have qn: "rm_N ?q = int n" "rm_inv ?q" using rm_insert_correct [OF r(1), of x] r(2) by (simp_all add: inserted_def)
    have q: "window ?q = last_n n ?ls" "rm_median ?q = median (last_n n ?ls)"
      using h qn rm.holds_mid [OF h] ls by (simp_all add: rm.holds_def)
    have hash: "get_block_hash_from_height s (length c - 1) = Some (bid c)"
      using stored_nth(3) [OF s, of "length c - 1"] c w by (simp add: get_block_hash_from_height_def)
    have hash': "get_block_hash_from_height (s\<lparr>cache_tip_hash := tip, cache_rolling_median := r\<rparr>) (length c - 1) = Some (bid c)"
      using hash w c by (simp add: get_block_hash_from_height_def)
    have lw': "get_last_n_blocks_weights (s\<lparr>cache_tip_hash := bid c, cache_rolling_median := ?q\<rparr>) CRYPTONOTE_REWARD_BLOCKS_WINDOW =
        Some (last_n CRYPTONOTE_REWARD_BLOCKS_WINDOW (map wt c))"
      by (rule last_weights [of version n _ bid]) (use s c in \<open>simp_all add: stored_def\<close>)
    have "update_long_term s = Some (s\<lparr>cache_tip_hash := bid c, cache_rolling_median := ?q,
              long_term_effective_median_block_weight := effective_long_term_median version n (map wt c),
              current_block_cumul_weight_median :=
                min (max CRYPTONOTE_BLOCK_GRANTED_FULL_REWARD_ZONE_V5 (median (last_n CRYPTONOTE_REWARD_BLOCKS_WINDOW (map wt c))))
                    (CRYPTONOTE_SHORT_TERM_BLOCK_WEIGHT_SURGE_FACTOR * effective_long_term_median version n (map wt c))\<rparr>)"
      unfolding update_long_term_def Let_def w k_def [symmetric] bw Option.bind.simps if_not_P [OF False] m(1) prod.case x q(2) hash'
      using c False q(2) hash' lw' by (simp add: effective_long_term_median_def)
    moreover have "cache_ok version n wt adm bid (bid c) ?q"
      using cache_ok_tag [OF hid qn(2,1) ad] q(1) d(1) by simp
    ultimately show ?thesis by blast
  qed
qed

text \<open>The last steps of \<open>update_next_cumulative_weight_limit\<close>: the minimum and the limit.\<close>

lemma update_finish:
  assumes "(if v < HF_VERSION_LONG_TERM_BLOCK_WEIGHT
       then map_option (\<lambda>ws. s\<lparr>current_block_cumul_weight_median := median ws\<rparr>) (get_last_n_blocks_weights s CRYPTONOTE_REWARD_BLOCKS_WINDOW)
       else update_long_term s) = Some u" and "m = max (get_min_block_weight v) (current_block_cumul_weight_median u)"
  shows "update_next_cumulative_weight_limit s v =
    Some (add_max_block_size (m * 2) (u\<lparr>current_block_cumul_weight_median := m, current_block_cumul_weight_limit := m * 2\<rparr>))"
proof (cases "current_block_cumul_weight_median u \<le> get_min_block_weight v")
  case True
  then have "m = get_min_block_weight v" using assms(2) by (simp add: max_absorb1)
  then show ?thesis using True unfolding update_next_cumulative_weight_limit_def assms(1) by (simp add: Let_def)
next
  case False
  then have "m = current_block_cumul_weight_median u" using assms(2) by (simp add: max_absorb2)
  then show ?thesis using False unfolding update_next_cumulative_weight_limit_def assms(1) by (simp add: Let_def)
qed

lemma update_ok:
  assumes s: "stored version n wt bid c s" and ca: "cache_ok version n wt adm bid (cache_tip_hash s) (cache_rolling_median s)"
    and hid: "identifies adm bid" and adm: "\<forall>k \<in> {1..length c}. adm (take k c)" and n: "0 < n" and c: "c \<noteq> []"
    and calm: "calm_fork version n wt adm"
  shows "\<exists>s'. update_next_cumulative_weight_limit s (version (length c)) = Some s' \<and> stored version n wt bid c s' \<and>
      cache_ok version n wt adm bid (cache_tip_hash s') (cache_rolling_median s') \<and> limits version n (map wt c) s'"
proof (cases "version (length c) < HF_VERSION_LONG_TERM_BLOCK_WEIGHT")
  case True
  let ?u = "s\<lparr>current_block_cumul_weight_median := median (last_n CRYPTONOTE_REWARD_BLOCKS_WINDOW (map wt c))\<rparr>"
  have "update_next_cumulative_weight_limit s (version (length c)) =
      Some (add_max_block_size (weight_median version n (map wt c) * 2)
        (?u\<lparr>current_block_cumul_weight_median := weight_median version n (map wt c),
           current_block_cumul_weight_limit := weight_median version n (map wt c) * 2\<rparr>))"
    by (rule update_finish) (use True last_weights [OF s c] in \<open>simp_all add: weight_median_def\<close>)
  then show ?thesis using s ca True by (auto simp: add_max_block_size_def Let_def stored_def limits_def)
next
  case False
  then have v: "HF_VERSION_LONG_TERM_BLOCK_WEIGHT \<le> version (length c)" by simp
  let ?m = "min (max CRYPTONOTE_BLOCK_GRANTED_FULL_REWARD_ZONE_V5 (median (last_n CRYPTONOTE_REWARD_BLOCKS_WINDOW (map wt c))))
                    (CRYPTONOTE_SHORT_TERM_BLOCK_WEIGHT_SURGE_FACTOR * effective_long_term_median version n (map wt c))"
  let ?u = "\<lambda>tip r. s\<lparr>cache_tip_hash := tip, cache_rolling_median := r,
              long_term_effective_median_block_weight := effective_long_term_median version n (map wt c),
              current_block_cumul_weight_median := ?m\<rparr>"
  obtain tip r where u: "update_long_term s = Some (?u tip r)" "cache_ok version n wt adm bid tip r"
    using update_long_term_ok [OF s ca hid adm n c calm v] by blast
  have "update_next_cumulative_weight_limit s (version (length c)) =
      Some (add_max_block_size (weight_median version n (map wt c) * 2)
        ((?u tip r)\<lparr>current_block_cumul_weight_median := weight_median version n (map wt c),
           current_block_cumul_weight_limit := weight_median version n (map wt c) * 2\<rparr>))"
    by (rule update_finish) (use False u(1) in \<open>simp_all add: weight_median_def Let_def\<close>)
  then show ?thesis using s u(2) by (auto simp: add_max_block_size_def Let_def stored_def limits_def)
qed

section \<open>Runs\<close>

text \<open>A node stores admissible blocks, pops blocks, restarts and starts over. The chain beside the
  state lists the blocks in the database.\<close>

inductive wl_step :: "(nat \<Rightarrow> u8) \<Rightarrow> nat \<Rightarrow> ('b \<Rightarrow> u64) \<Rightarrow> ('b list \<Rightarrow> bool) \<Rightarrow> ('b list \<Rightarrow> bytes) \<Rightarrow> 'b list \<times> weights \<Rightarrow> 'b list \<times> weights \<Rightarrow> bool"
  for version n wt adm bid where
  Store: "adm (c @ [b]) \<Longrightarrow> store_block version s (wt b) (bid (c @ [b])) = Some s' \<Longrightarrow> wl_step version n wt adm bid (c, s) (c @ [b], s')"
| Pop: "pop_block version s = Some s' \<Longrightarrow> wl_step version n wt adm bid (c, s) (butlast c, s')"
| Restart: "update_next_cumulative_weight_limit (new_weights n d p h (infos s) (max_block_size s)) (version (length (infos s))) = Some s' \<Longrightarrow>
    wl_step version n wt adm bid (c, s) (c, s')"
| Reset: "adm [b] \<Longrightarrow> reset_and_set_genesis_block version s (wt b) (bid [b]) = Some s' \<Longrightarrow> wl_step version n wt adm bid (c, s) ([b], s')"

definition wl_reachable :: "(nat \<Rightarrow> u8) \<Rightarrow> nat \<Rightarrow> ('b \<Rightarrow> u64) \<Rightarrow> ('b list \<Rightarrow> bool) \<Rightarrow> ('b list \<Rightarrow> bytes) \<Rightarrow> 'b list \<Rightarrow> weights \<Rightarrow> bool" where
  "wl_reachable version n wt adm bid c s \<longleftrightarrow>
     (\<exists>d p h m b s0. adm [b] \<and> store_block version (new_weights n d p h [] m) (wt b) (bid [b]) = Some s0 \<and>
        (wl_step version n wt adm bid)\<^sup>*\<^sup>* ([b], s0) (c, s))"

text \<open>What the theorems assume: a window, a first block of an old version, and the admissible chains.\<close>

definition wl_env :: "(nat \<Rightarrow> u8) \<Rightarrow> nat \<Rightarrow> ('b \<Rightarrow> u64) \<Rightarrow> ('b list \<Rightarrow> bool) \<Rightarrow> ('b list \<Rightarrow> bytes) \<Rightarrow> bool" where
  "wl_env version n wt adm bid \<longleftrightarrow> 0 < n \<and> version 0 < HF_VERSION_LONG_TERM_BLOCK_WEIGHT \<and>
     (\<forall>c b. c \<noteq> [] \<longrightarrow> adm (c @ [b]) \<longrightarrow> adm c) \<and> identifies adm bid \<and> calm_fork version n wt adm"

definition wl_good :: "(nat \<Rightarrow> u8) \<Rightarrow> nat \<Rightarrow> ('b \<Rightarrow> u64) \<Rightarrow> ('b list \<Rightarrow> bool) \<Rightarrow> ('b list \<Rightarrow> bytes) \<Rightarrow> 'b list \<Rightarrow> weights \<Rightarrow> bool" where
  "wl_good version n wt adm bid c s \<longleftrightarrow> stored version n wt bid c s \<and>
     cache_ok version n wt adm bid (cache_tip_hash s) (cache_rolling_median s) \<and> (c \<noteq> [] \<longrightarrow> adm c)"

lemma good_length: "wl_good version n wt adm bid c s \<Longrightarrow> length (infos s) = length c"
  using stored_length by (simp add: wl_good_def) blast

lemma adm_prefix:
  assumes "wl_env version n wt adm bid" and "c \<noteq> [] \<longrightarrow> adm c"
  shows "\<forall>k \<in> {1..length c}. adm (take k c)"
  using assms(2)
proof (induction c rule: rev_induct)
  case (snoc b c)
  then have "c \<noteq> [] \<longrightarrow> adm c" using assms(1) by (auto simp: wl_env_def)
  then show ?case using snoc by (auto simp: le_Suc_eq)
qed simp

lemma good_update:
  assumes "wl_env version n wt adm bid" and "wl_good version n wt adm bid c s" and "c \<noteq> []" and "v = version (length c)"
  shows "\<exists>s'. update_next_cumulative_weight_limit s v = Some s' \<and> wl_good version n wt adm bid c s' \<and> limits version n (map wt c) s'"
proof -
  have e: "0 < n" "identifies adm bid" "calm_fork version n wt adm" using assms(1) by (auto simp: wl_env_def)
  have g: "stored version n wt bid c s" "cache_ok version n wt adm bid (cache_tip_hash s) (cache_rolling_median s)" "c \<noteq> [] \<longrightarrow> adm c"
    using assms(2) by (auto simp: wl_good_def)
  show ?thesis using update_ok [OF g(1,2) e(2) adm_prefix [OF assms(1) g(3)] e(1) assms(3) e(3)] g(3) assms(4) by (auto simp: wl_good_def)
qed

lemma good_store:
  assumes "wl_env version n wt adm bid" and "wl_good version n wt adm bid c s" and "adm (c @ [b])"
  shows "\<exists>s'. store_block version s (wt b) (bid (c @ [b])) = Some s' \<and> wl_good version n wt adm bid (c @ [b]) s' \<and> limits version n (map wt (c @ [b])) s'"
proof -
  have e: "0 < n" "identifies adm bid" "version 0 < HF_VERSION_LONG_TERM_BLOCK_WEIGHT" using assms(1) by (auto simp: wl_env_def)
  have g: "stored version n wt bid c s" "cache_ok version n wt adm bid (cache_tip_hash s) (cache_rolling_median s)" "c \<noteq> [] \<longrightarrow> adm c"
    using assms(2) by (auto simp: wl_good_def)
  let ?ltw = "long_term_weight version n (long_term_weights version n (map wt c)) (wt b)"
  obtain tip r where x: "get_next_long_term_block_weight s (version (length c)) (wt b) = Some (?ltw, s\<lparr>cache_tip_hash := tip, cache_rolling_median := r\<rparr>)"
      "cache_ok version n wt adm bid tip r"
    using next_weight_ok [OF g(1,2) e(2) adm_prefix [OF assms(1) g(3)] e(1)] e(3) by blast
  let ?i = "\<lparr>bi_weight = wt b, bi_long_term_block_weight = ?ltw, bi_hash = bid (c @ [b])\<rparr>"
  let ?s = "s\<lparr>cache_tip_hash := tip, cache_rolling_median := r, infos := infos s @ [?i]\<rparr>"
  have "map (\<lambda>i. bid (take (Suc i) (c @ [b]))) [0..<length c] = map (\<lambda>i. bid (take (Suc i) c)) [0..<length c]" by (simp add: take_Suc)
  then have "stored version n wt bid (c @ [b]) ?s" using g(1) by (simp add: stored_def long_term_weights_snoc)
  then have "wl_good version n wt adm bid (c @ [b]) ?s" using x(2) assms(3) by (simp add: wl_good_def)
  then obtain s' where "update_next_cumulative_weight_limit ?s (version (length (c @ [b]))) = Some s'" "wl_good version n wt adm bid (c @ [b]) s'"
      "limits version n (map wt (c @ [b])) s'"
    using good_update [OF assms(1)] by blast
  then show ?thesis using x(1) stored_length [OF g(1)] by (simp add: store_block_def Let_def)
qed

lemma good_pop:
  assumes "wl_env version n wt adm bid" and "wl_good version n wt adm bid c s" and "1 < length c"
  shows "\<exists>s'. pop_block version s = Some s' \<and> wl_good version n wt adm bid (butlast c) s' \<and> limits version n (map wt (butlast c)) s'"
proof -
  obtain d b where d: "c = d @ [b]" "d \<noteq> []" using assms(3) by (cases c rule: rev_cases) auto
  have g: "stored version n wt bid c s" "cache_ok version n wt adm bid (cache_tip_hash s) (cache_rolling_median s)" "adm c"
    using assms(2) d by (auto simp: wl_good_def)
  have l: "length (infos s) = Suc (length d)" using stored_length [OF g(1)] d by simp
  have "adm d" using assms(1) g(3) d by (auto simp: wl_env_def)
  moreover have "stored version n wt bid d (s\<lparr>infos := butlast (infos s)\<rparr>)"
  proof -
    have b: "map f (butlast xs) = butlast (map f xs)" for f :: "mdb_block_info \<Rightarrow> 'c" and xs by (rule map_butlast)
    have "map (\<lambda>i. bid (take (Suc i) (d @ [b]))) [0..<length d] = map (\<lambda>i. bid (take (Suc i) d)) [0..<length d]" by simp
    then show ?thesis using g(1) unfolding d(1) by (simp add: stored_def map_butlast long_term_weights_snoc)
  qed
  ultimately have "wl_good version n wt adm bid d (s\<lparr>infos := butlast (infos s)\<rparr>)" using g(2) by (simp add: wl_good_def)
  from good_update [OF assms(1) this d(2)] show ?thesis using l d by (auto simp: pop_block_def Let_def)
qed

lemma new_good:
  assumes "wl_env version n wt adm bid" and "stored version n wt bid c s" and "c \<noteq> [] \<longrightarrow> adm c"
  shows "wl_good version n wt adm bid c (new_weights n d p h (infos s) m)"
proof -
  have n: "0 < n" and hid: "identifies adm bid" using assms(1) by (auto simp: wl_env_def)
  have "rm_inv (rolling_median_t n d p h)" "rm_N (rolling_median_t n d p h) = int n"
    using rm_clear_inv n unfolding rolling_median_t_def by simp_all
  from cache_ok_null [OF hid this] show ?thesis using assms(2,3) by (simp add: wl_good_def new_weights_def stored_def)
qed

lemma empty_good:
  assumes "wl_env version n wt adm bid" and "cache_ok version n wt adm bid (cache_tip_hash s) (cache_rolling_median s)"
    and "long_term_block_weights_window s = n"
  shows "wl_good version n wt adm bid [] (s\<lparr>infos := []\<rparr>)"
  using assms by (simp add: wl_good_def stored_def)

lemma good_reset:
  assumes "wl_env version n wt adm bid" and "wl_good version n wt adm bid c s" and "adm [b]"
  shows "\<exists>s'. reset_and_set_genesis_block version s (wt b) (bid [b]) = Some s' \<and> wl_good version n wt adm bid [b] s' \<and> limits version n (map wt [b]) s'"
proof -
  have "wl_good version n wt adm bid [] (s\<lparr>infos := []\<rparr>)"
    using assms(2) by (intro empty_good [OF assms(1)]) (auto simp: wl_good_def stored_def)
  then obtain s1 where s1: "store_block version (s\<lparr>infos := []\<rparr>) (wt b) (bid [b]) = Some s1" "wl_good version n wt adm bid [b] s1"
    using good_store [OF assms(1), of "[]" _ b] assms(3) by auto
  then have "length (infos s1) = length [b]" using good_length by blast
  then show ?thesis using good_update [OF assms(1) s1(2)] s1(1) by (auto simp: reset_and_set_genesis_block_def)
qed

lemma good_restart:
  assumes "wl_env version n wt adm bid" and "wl_good version n wt adm bid c s" and "c \<noteq> []"
  shows "\<exists>s'. update_next_cumulative_weight_limit (new_weights n d p h (infos s) m) (version (length (infos s))) = Some s' \<and>
    wl_good version n wt adm bid c s' \<and> limits version n (map wt c) s'"
proof -
  have "stored version n wt bid c s" "c \<noteq> [] \<longrightarrow> adm c" using assms(2) by (auto simp: wl_good_def)
  from good_update [OF assms(1) new_good [OF assms(1) this] assms(3)] show ?thesis using good_length [OF assms(2)] by auto
qed

lemma good_step:
  assumes "wl_step version n wt adm bid (c, s) (c', s')" and "wl_env version n wt adm bid" and "wl_good version n wt adm bid c s" and "c \<noteq> []"
  shows "wl_good version n wt adm bid c' s' \<and> limits version n (map wt c') s' \<and> c' \<noteq> []"
  using assms(1)
proof cases
  case (Store b)
  then show ?thesis using good_store [OF assms(2,3), of b] by auto
next
  case Pop
  have "length (infos s) = length c" by (rule good_length [OF assms(3)])
  then have l: "1 < length c" using Pop by (auto simp: pop_block_def split: if_splits)
  then have "butlast c \<noteq> []" by (cases c rule: rev_cases) auto
  then show ?thesis using good_pop [OF assms(2,3) l] Pop by auto
next
  case (Restart d p h)
  then show ?thesis using good_restart [OF assms(2,3,4), of d p h "max_block_size s"] assms(4) by auto
next
  case (Reset b)
  then show ?thesis using good_reset [OF assms(2,3), of b] by auto
qed

lemma good_reachable:
  assumes "wl_reachable version n wt adm bid c s" and "wl_env version n wt adm bid"
  shows "wl_good version n wt adm bid c s \<and> limits version n (map wt c) s \<and> c \<noteq> []"
proof -
  obtain d p h m b s0 where i: "adm [b]" "store_block version (new_weights n d p h [] m) (wt b) (bid [b]) = Some s0"
      and st: "(wl_step version n wt adm bid)\<^sup>*\<^sup>* ([b], s0) (c, s)"
    using assms(1) by (auto simp: wl_reachable_def)
  have "wl_good version n wt adm bid [] (new_weights n d p h [] m)"
    using new_good [OF assms(2), of "[]" "new_weights n d p h [] m"] by (simp add: new_weights_def stored_def)
  then have "wl_good version n wt adm bid [b] s0 \<and> limits version n (map wt [b]) s0"
    using good_store [OF assms(2), of "[]" "new_weights n d p h [] m" b] i by auto
  with st show ?thesis
  proof (induction rule: rtranclp_induct2)
    case (step c1 s1 c2 s2)
    then show ?case using good_step [OF step.hyps(2) assms(2)] by blast
  qed simp
qed

section \<open>Properties\<close>


definition short_version :: "nat \<Rightarrow> u8" where
  "short_version h = (if h = 0 then 9 else 10)"

lemma null_hash_Cons: "null_hash = 0 # replicate 31 0"
  by (simp add: null_hash_def flip: replicate_Suc)

lemma short_env: "wl_env short_version 3 (ucast :: u8 \<Rightarrow> u64) (\<lambda>c. c \<noteq> []) ((#) 1)"
  by (auto simp: wl_env_def identifies_def calm_fork_def short_version_def HF_VERSION_LONG_TERM_BLOCK_WEIGHT_def null_hash_Cons)

lemma short_reachable: "\<exists>s. wl_reachable short_version 3 (ucast :: u8 \<Rightarrow> u64) (\<lambda>c. c \<noteq> []) ((#) 1) [7] s"
proof -
  let ?s = "new_weights 3 (\<lambda>_. 0) (\<lambda>_. 0) (\<lambda>_. 0) [] None"
  have "wl_good short_version 3 (ucast :: u8 \<Rightarrow> u64) (\<lambda>c. c \<noteq> []) ((#) 1) [] ?s"
    using new_good [OF short_env, of "[]" ?s] by (simp add: new_weights_def stored_def)
  then obtain s where "store_block short_version ?s (ucast (7 :: u8)) ((#) 1 [7]) = Some s"
    using good_store [OF short_env, of "[]" ?s 7] by auto
  then show ?thesis unfolding wl_reachable_def by blast
qed


lemma median_le:
  fixes b :: u64
  assumes "\<forall>x \<in> set xs. x \<le> b"
  shows "median xs \<le> b"
proof (cases "length xs \<le> 1")
  case True
  then show ?thesis using assms by (cases xs) (auto simp: median_def)
next
  case False
  define n where "n = length xs div 2"
  have i: "sort xs ! i \<le> b" if "i < length xs" for i using assms that nth_mem [of i "sort xs"] by simp
  have n: "n < length xs" "n - 1 < length xs" using False by (auto simp: n_def)
  have "sort xs ! (n - 1) \<le> sort xs ! n" using n by (intro sorted_nth_mono) auto
  then have "get_mid (sort xs ! (n - 1)) (sort xs ! n) \<le> b" using get_mid_between(2) i [OF n(1)] order_trans by blast
  then show ?thesis using False i [OF n(1)] by (auto simp: median_def Let_def n_def)
qed

lemma median_last_n_le: "\<forall>x \<in> set xs. x \<le> (b :: u64) \<Longrightarrow> median (last_n n xs) \<le> b"
  by (rule median_le) (auto simp: last_n_def dest: in_set_dropD)

lemma long_term_weights_le:
  assumes "\<forall>w \<in> set ws. w \<le> b"
  shows "\<forall>l \<in> set (long_term_weights version n ws). l \<le> b"
  using assms
proof (induction ws rule: rev_induct)
  case (snoc w ws)
  then show ?case by (auto simp: long_term_weights_snoc long_term_weight_def min_def)
qed simp

lemma unat_constraint:
  assumes "m \<le> (2 ^ 56 :: u64)"
  shows "5 * unat (short_term_constraint m) \<le> 7 * unat m"
proof -
  have m: "unat m \<le> 2 ^ 56" using assms by (simp add: word_le_nat_alt)
  have "unat (m * 2) = unat m * 2" using m by (subst unat_mult_noov) simp_all
  then have d: "unat (m * 2 div 5) = unat m * 2 div 5" by (simp add: unat_div_distrib)
  then have "unat (short_term_constraint m) = unat m + unat m * 2 div 5"
    using m unfolding short_term_constraint_def by (subst unat_add_noov) simp_all
  then show ?thesis by linarith
qed

lemma effective_le:
  assumes "\<forall>w \<in> set ws. w \<le> (2 ^ 56 :: u64)"
  shows "effective_long_term_median version n ws \<le> 2 ^ 56"
proof -
  have "median (last_n n (long_term_weights version n ws)) \<le> 2 ^ 56"
    by (rule median_last_n_le [OF long_term_weights_le [OF assms]])
  moreover have "length ws = 1 \<Longrightarrow> ws ! 0 \<le> 2 ^ 56" using assms nth_mem [of 0 ws] by simp
  ultimately show ?thesis
    by (auto simp: effective_long_term_median_def CRYPTONOTE_BLOCK_GRANTED_FULL_REWARD_ZONE_V5_def min_le_iff_disj)
qed

lemma weight_median_le:
  assumes "\<forall>w \<in> set ws. w \<le> (2 ^ 56 :: u64)"
  shows "weight_median version n ws \<le> 2 ^ 56"
proof -
  have "median (last_n CRYPTONOTE_REWARD_BLOCKS_WINDOW ws) \<le> 2 ^ 56"
    by (rule median_last_n_le [OF assms])
  then show ?thesis
    by (auto simp: weight_median_def Let_def get_min_block_weight_def CRYPTONOTE_BLOCK_GRANTED_FULL_REWARD_ZONE_V1_def
        CRYPTONOTE_BLOCK_GRANTED_FULL_REWARD_ZONE_V2_def CRYPTONOTE_BLOCK_GRANTED_FULL_REWARD_ZONE_V5_def min_le_iff_disj)
qed

lemma nth_long_term_weights:
  assumes "h < length ws"
  shows "long_term_weights version n ws ! h = long_term_weight version n (long_term_weights version n (take h ws)) (ws ! h)"
proof -
  have "long_term_weights version n ws ! h = take (Suc h) (long_term_weights version n ws) ! h" using assms by simp
  also have "\<dots> = long_term_weights version n (take h ws @ [ws ! h]) ! h" using assms by (simp add: take_long_term_weights take_Suc_conv_app_nth)
  finally show ?thesis using assms by (simp add: long_term_weights_snoc nth_append)
qed



section \<open>At the fork\<close>

text \<open>A chain whose last block before the fork is heavier than the rule of the fork allows, on a window
  of two blocks, stored by a running node and read again by a restarted one.\<close>

definition fork_version :: "nat \<Rightarrow> u8" where
  "fork_version h = (if h < 3 then 9 else 10)"

definition fork_run :: "weights option" where
  "fork_run = do {
     s \<leftarrow> store_block fork_version (new_weights 2 (\<lambda>_. 0) (\<lambda>_. 0) (\<lambda>_. 0) [] None) 1 [1];
     s \<leftarrow> store_block fork_version s 600000 [2];
     s \<leftarrow> store_block fork_version s 600000 [3];
     store_block fork_version s 600000 [4]
   }"

definition fork_restart :: "weights option" where
  "fork_restart = do {
     s \<leftarrow> fork_run;
     update_next_cumulative_weight_limit (new_weights 2 (\<lambda>_. 0) (\<lambda>_. 0) (\<lambda>_. 0) (infos s) (max_block_size s)) (fork_version (length (infos s)))
   }"


end
