(* ===== verification/Tree_Hash.thy ===== *)
theory Tree_Hash
  imports Keccak
begin

text \<open>
  The tree hash of \<open>src/crypto/tree-hash.c\<close>, the root of the transactions of a block. The array of
  intermediate hashes is a list of 32 byte cells that the loops update in place. The loop that rounds
  the count down to a power of two works on 64 bit words and may run forever; \<open>None\<close> also stands for
  an empty input, which the code excludes by an assertion.

  The lemmas show that the in-place computation is the root of a binary tree over the input, and that
  two inputs of the same length with the same root give a collision of the hash function.
\<close>

section \<open>The code\<close>

partial_function (option) tree_hash_cnt_loop :: "u64 \<Rightarrow> u64 \<Rightarrow> u64 option" where
  "tree_hash_cnt_loop pow cnt = (if pow < cnt then tree_hash_cnt_loop (push_bit 1 pow) cnt else Some (drop_bit 1 pow))"

declare tree_hash_cnt_loop.simps [code]

definition tree_hash_cnt :: "u64 \<Rightarrow> u64 option" where
  "tree_hash_cnt cnt = tree_hash_cnt_loop 2 cnt"

text \<open>The loop over the inputs that are hashed in pairs.\<close>

function tree_hash_leaves :: "bytes list \<Rightarrow> nat \<Rightarrow> nat \<Rightarrow> nat \<Rightarrow> bytes list \<Rightarrow> bytes list option" where
  "tree_hash_leaves hashes i j cnt ints =
     (if j < cnt
      then case cn_fast_hash (hashes ! i @ hashes ! (i + 1)) of
             None \<Rightarrow> None
           | Some h \<Rightarrow> tree_hash_leaves hashes (i + 2) (j + 1) cnt (ints[j := h])
      else Some ints)"
  by auto
termination by (relation "measure (\<lambda>(_, _, j, cnt, _). cnt - j)") auto

text \<open>One level of the tree, in place.\<close>

function tree_hash_level :: "nat \<Rightarrow> nat \<Rightarrow> nat \<Rightarrow> bytes list \<Rightarrow> bytes list option" where
  "tree_hash_level i j cnt ints =
     (if j < cnt
      then case cn_fast_hash (ints ! i @ ints ! (i + 1)) of
             None \<Rightarrow> None
           | Some h \<Rightarrow> tree_hash_level (i + 2) (j + 1) cnt (ints[j := h])
      else Some ints)"
  by auto
termination by (relation "measure (\<lambda>(_, j, cnt, _). cnt - j)") auto

function tree_hash_levels :: "nat \<Rightarrow> bytes list \<Rightarrow> bytes list option" where
  "tree_hash_levels cnt ints =
     (if cnt > 2
      then case tree_hash_level 0 0 (cnt div 2) ints of None \<Rightarrow> None | Some ints \<Rightarrow> tree_hash_levels (cnt div 2) ints
      else Some ints)"
  by auto
termination by (relation "measure fst") auto

declare tree_hash_leaves.simps [simp del] tree_hash_level.simps [simp del] tree_hash_levels.simps [simp del]

definition tree_hash :: "bytes list \<Rightarrow> bytes option" where
  "tree_hash hashes =
     (let cnt0 = length hashes
      in if cnt0 = 0 then None
         else if cnt0 = 1 then Some (hashes ! 0)
         else if cnt0 = 2 then cn_fast_hash (hashes ! 0 @ hashes ! 1)
         else
           case tree_hash_cnt (of_nat cnt0) of
             None \<Rightarrow> None
           | Some w \<Rightarrow>
               let cnt = unat w;
                   ints = take (2 * cnt - cnt0) hashes @ replicate (cnt - (2 * cnt - cnt0)) (replicate HASH_SIZE 0)
               in case tree_hash_leaves hashes (2 * cnt - cnt0) (2 * cnt - cnt0) cnt ints of
                    None \<Rightarrow> None
                  | Some ints \<Rightarrow>
                      (case tree_hash_levels cnt ints of None \<Rightarrow> None | Some ints \<Rightarrow> cn_fast_hash (ints ! 0 @ ints ! 1)))"

section \<open>The tree\<close>

definition node :: "bytes \<Rightarrow> bytes \<Rightarrow> bytes" where
  "node a b = the (cn_fast_hash (a @ b))"

fun pairs :: "bytes list \<Rightarrow> bytes list" where
  "pairs (a # b # xs) = node a b # pairs xs"
| "pairs xs = []"

fun merkle :: "nat \<Rightarrow> bytes list \<Rightarrow> bytes" where
  "merkle 0 xs = hd xs"
| "merkle (Suc k) xs = merkle k (pairs xs)"

lemma fast_node: "cn_fast_hash (a @ b) = Some (node a b)"
  using cn_fast_hash_total [of "a @ b"] by (auto simp: node_def)

lemma length_node [simp]: "length (node a b) = 32"
  using cn_fast_hash_total [of "a @ b"] fast_node [of a b] by auto

lemma length_pairs [simp]: "length (pairs xs) = length xs div 2"
  by (induction xs rule: pairs.induct) auto

lemma nth_pairs: "j < length xs div 2 \<Longrightarrow> pairs xs ! j = node (xs ! (2 * j)) (xs ! (2 * j + 1))"
proof (induction xs arbitrary: j rule: pairs.induct)
  case (1 a b xs)
  then show ?case by (cases j) auto
qed auto

lemma set_pairs_length: "z \<in> set (pairs zs) \<Longrightarrow> length z = 32"
  by (induction zs rule: pairs.induct) auto

lemma leaves_eq:
  assumes "j \<le> cnt" and "length ints = cnt" and "i + 2 * (cnt - j) = length hashes"
  shows "tree_hash_leaves hashes i j cnt ints = Some (take j ints @ pairs (drop i hashes))"
  using assms
proof (induction hashes i j cnt ints rule: tree_hash_leaves.induct)
  case (1 hashes i j cnt ints)
  show ?case
  proof (cases "j < cnt")
    case True
    let ?h = "node (hashes ! i) (hashes ! (i + 1))"
    have l: "Suc i < length hashes" using 1 True by auto
    have d: "drop i hashes = hashes ! i # hashes ! (i + 1) # drop (i + 2) hashes"
      using l by (simp add: Cons_nth_drop_Suc)
    have "tree_hash_leaves hashes (i + 2) (j + 1) cnt (ints[j := ?h]) = Some (take (j + 1) (ints[j := ?h]) @ pairs (drop (i + 2) hashes))"
      using 1 True by (intro "1.IH") (auto simp: fast_node)
    then show ?thesis
      unfolding tree_hash_leaves.simps [of hashes i] d using True 1(3) by (simp add: fast_node take_Suc_conv_app_nth)
  next
    case False
    then show ?thesis using 1 by (simp add: tree_hash_leaves.simps)
  qed
qed

text \<open>Writing cell \<open>j\<close> does not disturb the cells that are still read, which start at \<open>2 j\<close>.\<close>

lemma level_eq:
  assumes "j \<le> cnt" and "2 * cnt \<le> length xs" and "length ints = length xs"
    and "\<forall>l < j. ints ! l = pairs xs ! l" and "\<forall>l. 2 * j \<le> l \<longrightarrow> l < length xs \<longrightarrow> ints ! l = xs ! l"
  shows "\<exists>ints'. tree_hash_level (2 * j) j cnt ints = Some ints' \<and> length ints' = length xs \<and> (\<forall>l < cnt. ints' ! l = pairs xs ! l)"
  using assms
proof (induction "cnt - j" arbitrary: j ints)
  case 0
  then show ?case by (subst tree_hash_level.simps) auto
next
  case (Suc n)
  let ?h = "node (ints ! (2 * j)) (ints ! (2 * j + 1))"
  have j: "j < cnt" "2 * j + 1 < length xs" "n = cnt - (j + 1)" using Suc.hyps(2) Suc.prems(2) by auto
  then have h: "?h = pairs xs ! j" using Suc.prems(5) by (simp add: nth_pairs)
  have a: "\<forall>l < j + 1. ints[j := ?h] ! l = pairs xs ! l" using Suc.prems(3,4) h j(2) by (auto simp: nth_list_update less_Suc_eq)
  have b: "\<forall>l. 2 * (j + 1) \<le> l \<longrightarrow> l < length xs \<longrightarrow> ints[j := ?h] ! l = xs ! l" using Suc.prems(5) by auto
  have c: "j + 1 \<le> cnt" "length (ints[j := ?h]) = length xs" using j(1) Suc.prems(3) by auto
  have "tree_hash_level (2 * j) j cnt ints = tree_hash_level (2 * (j + 1)) (j + 1) cnt (ints[j := ?h])"
    using j(1) by (subst tree_hash_level.simps) (simp add: fast_node)
  then show ?case using Suc.hyps(1) [OF j(3) c(1) Suc.prems(2) c(2) a b] by simp
qed

lemma take_nth_eq: "length xs = n \<Longrightarrow> n \<le> length ys \<Longrightarrow> \<forall>l < n. ys ! l = xs ! l \<Longrightarrow> take n ys = xs"
  by (auto intro: nth_equalityI)

lemma levels_eq:
  assumes "2 ^ Suc k \<le> length ints"
  shows "\<exists>ints'. tree_hash_levels (2 ^ Suc k) ints = Some ints' \<and> node (ints' ! 0) (ints' ! 1) = merkle (Suc k) (take (2 ^ Suc k) ints)"
  using assms
proof (induction k arbitrary: ints)
  case 0
  then have "take 2 ints = [ints ! 0, ints ! 1]" by (cases ints; cases "tl ints") auto
  then show ?case using 0 by (simp add: tree_hash_levels.simps numeral_2_eq_2)
next
  case (Suc k)
  define n where "n = (2 :: nat) ^ Suc k"
  let ?xs = "take (2 * n) ints"
  have l: "2 * n \<le> length ints" "2 < 2 * n" using Suc.prems one_less_power [of "2 :: nat" "Suc k"] by (simp_all add: n_def)
  obtain ints1 where i1: "tree_hash_level 0 0 n ints = Some ints1" "length ints1 = length ints" "\<forall>l < n. ints1 ! l = pairs ints ! l"
    using level_eq [of 0 n ints ints] l by auto
  have p: "pairs ?xs ! l = pairs ints ! l" if "l < n" for l using that l by (simp add: nth_pairs)
  have t: "take n ints1 = pairs ?xs" using i1 l p by (intro take_nth_eq) auto
  obtain ints2 where i2: "tree_hash_levels n ints1 = Some ints2" "node (ints2 ! 0) (ints2 ! 1) = merkle (Suc k) (take n ints1)"
    using Suc.IH [of ints1] i1(2) l unfolding n_def by auto
  have "tree_hash_levels (2 * n) ints = Some ints2" using l i1(1) i2(1) by (subst tree_hash_levels.simps) simp
  moreover have "node (ints2 ! 0) (ints2 ! 1) = merkle (Suc (Suc k)) ?xs" using i2(2) t by simp
  ultimately show ?case unfolding n_def by auto
qed

section \<open>Rounding down\<close>

lemma unat_power_two: "m \<le> 63 \<Longrightarrow> unat (2 ^ m :: u64) = 2 ^ m"
proof -
  assume "m \<le> 63"
  then have "(2 :: nat) ^ m < 2 ^ 64" by (intro power_strict_increasing) auto
  then show ?thesis using unat_of_nat [where ?'a = 64, of "2 ^ m"] by (simp add: take_bit_eq_mod)
qed

lemma cnt_loop_power:
  assumes "2 ^ i < unat cnt" and "unat cnt \<le> 2 ^ (i + d)" and "0 < d" and "i + d \<le> 63"
  shows "\<exists>k. tree_hash_cnt_loop (2 ^ i) cnt = Some (2 ^ k) \<and> 2 ^ k < unat cnt \<and> unat cnt \<le> 2 ^ Suc k \<and> k < 63"
  using assms
proof (induction d arbitrary: i)
  case (Suc d)
  note u = unat_power_two
  have p: "push_bit 1 (2 ^ i :: u64) = 2 ^ Suc i" by (simp add: push_bit_eq_mult mult.commute)
  have s: "tree_hash_cnt_loop (2 ^ i) cnt = tree_hash_cnt_loop (2 ^ Suc i) cnt"
    using Suc.prems u [of i] p by (subst tree_hash_cnt_loop.simps) (simp add: word_less_nat_alt mult.commute)
  show ?case
  proof (cases "unat cnt \<le> 2 ^ Suc i")
    case True
    have "drop_bit 1 (2 ^ Suc i :: u64) = 2 ^ i"
      using Suc.prems(4) u [of i] u [of "Suc i"] by (intro word_unat_eq_iff [THEN iffD2]) (simp add: drop_bit_eq_div unat_div_distrib)
    moreover have "\<not> (2 ^ Suc i :: u64) < cnt" using True u [of "Suc i"] Suc.prems(4) by (simp add: word_less_nat_alt)
    ultimately have "tree_hash_cnt_loop (2 ^ Suc i) cnt = Some (2 ^ i)" by (subst tree_hash_cnt_loop.simps) simp
    then show ?thesis using s True Suc.prems by (intro exI [of _ i]) simp
  next
    case False
    then have "0 < d" using Suc.prems by (cases d) auto
    then show ?thesis using Suc.IH [of "Suc i"] False Suc.prems s by simp
  qed
qed simp

lemma cnt_loop_zero:
  assumes "tree_hash_cnt_loop pow cnt = Some y"
  shows "pow = 0 \<longrightarrow> cnt = 0"
  by (rule tree_hash_cnt_loop.raw_induct [OF _ assms, where P = "\<lambda>pow cnt y. pow = 0 \<longrightarrow> cnt = 0"])
    (auto split: if_splits simp: word_neq_0_conv [symmetric])

lemma cnt_value:
  assumes "2 < unat cnt" and "unat cnt \<le> 2 ^ 63"
  shows "\<exists>k. tree_hash_cnt cnt = Some (2 ^ k) \<and> 2 ^ k < unat cnt \<and> unat cnt \<le> 2 ^ Suc k \<and> k < 63"
  using cnt_loop_power [of 1 cnt 62] assms by (simp add: tree_hash_cnt_def)

lemma cnt_runs_off:
  assumes "2 ^ 63 < unat cnt" and "i \<le> 63"
  shows "tree_hash_cnt_loop (2 ^ i) cnt = None"
  using assms(2)
proof (induction "63 - i" arbitrary: i)
  case 0
  then have i: "i = 63" by simp
  have "tree_hash_cnt_loop 0 cnt = None" using cnt_loop_zero [of 0 cnt] assms(1) by (cases "tree_hash_cnt_loop 0 cnt") auto
  moreover have c: "(2 ^ 63 :: u64) < cnt" using assms(1) unat_power_two [of 63] by (simp add: word_less_nat_alt)
  have p: "push_bit 1 (2 ^ 63 :: u64) = 0" by (simp add: push_bit_eq_mult)
  have "tree_hash_cnt_loop (2 ^ 63) cnt = tree_hash_cnt_loop 0 cnt"
    by (subst tree_hash_cnt_loop.simps) (simp only: c p if_True)
  ultimately show ?case unfolding i by simp
next
  case (Suc n)
  then have "(2 :: nat) ^ i \<le> 2 ^ 63" by (intro power_increasing) auto
  then have "(2 ^ i :: u64) < cnt" using assms(1) unat_power_two [of i] Suc.prems by (simp add: word_less_nat_alt)
  moreover have "push_bit 1 (2 ^ i :: u64) = 2 ^ Suc i" by (simp add: push_bit_eq_mult mult.commute)
  moreover have "tree_hash_cnt_loop (2 ^ Suc i) cnt = None" using Suc by (intro Suc.hyps(1)) auto
  ultimately show ?case by (subst tree_hash_cnt_loop.simps) (simp add: mult.commute)
qed

text \<open>C21. \<open>tree_hash_cnt\<close> returns exactly for counts up to \<open>2^63\<close>, and for a count of at least 3 among them
  it returns the greatest power of two below the count; for a greater count the doubled word wraps
  to 0 and the loop runs forever.\<close>
theorem tree_hash_cnt_terminates:
  "(tree_hash_cnt cnt \<noteq> None \<longleftrightarrow> unat cnt \<le> 2 ^ 63) \<and>
   (2 < unat cnt \<and> unat cnt \<le> 2 ^ 63 \<longrightarrow> (\<exists>k. tree_hash_cnt cnt = Some (2 ^ k) \<and> 2 ^ k < unat cnt \<and> unat cnt \<le> 2 ^ Suc k))"
proof -
  have "tree_hash_cnt cnt = Some 1" if "\<not> 2 < unat cnt"
    using that by (subst tree_hash_cnt_def, subst tree_hash_cnt_loop.simps) (simp add: word_less_nat_alt drop_bit_eq_div)
  moreover have "tree_hash_cnt cnt = None" if "2 ^ 63 < unat cnt" using cnt_runs_off [OF that, of 1] by (simp add: tree_hash_cnt_def)
  ultimately show ?thesis using cnt_value [of cnt] by (cases "2 < unat cnt"; cases "unat cnt \<le> 2 ^ 63") (auto simp: not_le)
qed

theorem tree_hash_cnt_terminates_witness: "\<exists>k. tree_hash_cnt 514 = Some (2 ^ k) \<and> 2 ^ k < (514 :: nat) \<and> (514 :: nat) \<le> 2 ^ Suc k"
  using tree_hash_cnt_terminates [of 514] by simp

section \<open>The root\<close>

lemma tree_hash_value:
  assumes "2 ^ k < length hashes" and "length hashes \<le> 2 ^ Suc k" and "length hashes \<le> 2 ^ 63"
  shows "tree_hash hashes = Some (merkle k (take (2 * 2 ^ k - length hashes) hashes @ pairs (drop (2 * 2 ^ k - length hashes) hashes)))"
proof (cases "length hashes = 2")
  case True
  then obtain a b where h: "hashes = [a, b]" by (cases hashes; cases "tl hashes") auto
  have "k = 0" using assms(1) True by (cases k) auto
  then show ?thesis by (simp add: h tree_hash_def fast_node)
next
  case False
  let ?c = "length hashes" and ?d = "2 * 2 ^ k - length hashes"
  have "(1 :: nat) \<le> 2 ^ k" by simp
  then have c: "2 < ?c" using assms(1) False by linarith
  have u: "unat (of_nat ?c :: u64) = ?c" using assms(3) by (simp add: unat_of_nat)
  obtain k' where k': "tree_hash_cnt (of_nat ?c) = Some (2 ^ k')" "2 ^ k' < ?c" "?c \<le> 2 ^ Suc k'" "k' < 63"
    using cnt_value [of "of_nat ?c"] u c assms(3) by auto
  have "k' = k"
  proof (rule ccontr)
    assume "k' \<noteq> k"
    then consider "Suc k \<le> k'" | "Suc k' \<le> k" by linarith
    then show False
      using assms(1,2) k'(2,3) power_increasing [of "Suc k" k' "2 :: nat"] power_increasing [of "Suc k'" k "2 :: nat"] by cases linarith+
  qed
  then have cnt: "tree_hash_cnt (of_nat ?c) = Some (2 ^ k)" "unat (2 ^ k :: u64) = 2 ^ k" using k' unat_power_two [of k] by auto
  obtain k1 where k1: "k = Suc k1" using c assms(2) by (cases k) auto
  let ?ints = "take ?d hashes @ replicate (2 ^ k - ?d) (replicate HASH_SIZE 0)"
  let ?layer = "take ?d hashes @ pairs (drop ?d hashes)"
  have d: "?d \<le> 2 ^ k" "?d \<le> ?c" "?d + 2 * (2 ^ k - ?d) = ?c" using assms(1,2) by auto
  have "tree_hash_leaves hashes ?d ?d (2 ^ k) ?ints = Some (take ?d ?ints @ pairs (drop ?d hashes))"
    using d by (intro leaves_eq) auto
  then have l: "tree_hash_leaves hashes ?d ?d (2 ^ k) ?ints = Some ?layer" using d by simp
  have len: "length ?layer = 2 ^ k" using d by auto
  obtain ints where i: "tree_hash_levels (2 ^ k) ?layer = Some ints" "node (ints ! 0) (ints ! 1) = merkle k ?layer"
    using levels_eq [of k1 ?layer] len take_all [of ?layer "2 ^ k"] unfolding k1 [symmetric] by (metis order_refl)
  show ?thesis unfolding tree_hash_def Let_def cnt(1) option.case cnt(2) l i(1) fast_node i(2) using c by auto
qed

lemma pairs_inj:
  assumes "\<And>x y. length x = 64 \<Longrightarrow> length y = 64 \<Longrightarrow> cn_fast_hash x = cn_fast_hash y \<Longrightarrow> x = y"
    and "length xs = length ys" and "even (length xs)" and "\<forall>x \<in> set xs \<union> set ys. length x = 32" and "pairs xs = pairs ys"
  shows "xs = ys"
  using assms(2-)
proof (induction xs arbitrary: ys rule: pairs.induct)
  case (1 a b xs)
  then obtain a' b' ys' where ys: "ys = a' # b' # ys'" by (cases ys; cases "tl ys") auto
  then have "cn_fast_hash (a @ b) = cn_fast_hash (a' @ b')" using 1 by (simp add: fast_node)
  moreover have l: "length a = 32" "length b = 32" "length a' = 32" "length b' = 32" using 1 ys by auto
  ultimately have "a @ b = a' @ b'" using assms(1) [of "a @ b" "a' @ b'"] by simp
  then show ?case using 1 ys l by simp
qed auto

lemma merkle_inj:
  assumes "\<And>x y. length x = 64 \<Longrightarrow> length y = 64 \<Longrightarrow> cn_fast_hash x = cn_fast_hash y \<Longrightarrow> x = y"
    and "length xs = 2 ^ k" and "length ys = 2 ^ k" and "\<forall>x \<in> set xs \<union> set ys. length x = 32" and "merkle k xs = merkle k ys"
  shows "xs = ys"
  using assms(2-)
proof (induction k arbitrary: xs ys)
  case 0
  then obtain a b where "xs = [a]" "ys = [b]" by (auto simp: length_Suc_conv)
  then show ?case using 0 by simp
next
  case (Suc k)
  have l: "length (pairs xs) = 2 ^ k" "length (pairs ys) = 2 ^ k" using Suc.prems(1,2) by simp_all
  have b: "\<forall>z \<in> set (pairs xs) \<union> set (pairs ys). length z = 32" using set_pairs_length by blast
  have "merkle k (pairs xs) = merkle k (pairs ys)" using Suc.prems(4) by simp
  then have p: "pairs xs = pairs ys" by (rule Suc.IH [OF l b])
  have e: "length xs = length ys" "even (length xs)" unfolding Suc.prems(1,2) by simp_all
  show ?case by (rule pairs_inj [OF assms(1) e Suc.prems(3) p])
qed

text \<open>C13. The tree hash is the root of a binary tree: with \<open>2^k\<close> the greatest power of two below the count,
  the first inputs and the hashes of the remaining pairs form a layer of \<open>2^k\<close> hashes, and the
  in-place loops compute the root of the complete tree over that layer.\<close>
theorem tree_hash_merkle:
  assumes "2 ^ k < length hashes" and "length hashes \<le> 2 ^ Suc k" and "length hashes \<le> 2 ^ 63"
  shows "tree_hash hashes = Some (merkle k (take (2 * 2 ^ k - length hashes) hashes @ pairs (drop (2 * 2 ^ k - length hashes) hashes)))"
  by (rule tree_hash_value [OF assms])

theorem tree_hash_merkle_witness:
  "tree_hash [[1], [2], [3], [4], [5]] = Some (node (node [1] [2]) (node [3] (node [4] [5])))"
  using tree_hash_merkle [of "Suc (Suc 0)" "[[1], [2], [3], [4], [5]]"] by simp



end
