(* ===== verification/Pruning.thy ===== *)
theory Pruning
  imports Cpp_Prelude
begin

unbundle bit_operations_syntax

text \<open>
  Pruning stripes, \<open>src/common/pruning.cpp\<close> and \<open>src/common/pruning.h\<close>: a pruning node keeps the
  blocks of one stripe of every cycle of stripes, and the last blocks of the chain. A failed
  \<open>CHECK_AND_ASSERT_THROW_MES\<close> is \<open>None\<close>.
\<close>

section \<open>The code\<close>

definition CRYPTONOTE_MAX_BLOCK_NUMBER :: u64 where "CRYPTONOTE_MAX_BLOCK_NUMBER = 500000000"
definition CRYPTONOTE_PRUNING_STRIPE_SIZE :: u64 where "CRYPTONOTE_PRUNING_STRIPE_SIZE = 4096"
definition CRYPTONOTE_PRUNING_LOG_STRIPES :: u64 where "CRYPTONOTE_PRUNING_LOG_STRIPES = 3"
definition CRYPTONOTE_PRUNING_TIP_BLOCKS :: u64 where "CRYPTONOTE_PRUNING_TIP_BLOCKS = 5500"
definition PRUNING_SEED_LOG_STRIPES_SHIFT :: nat where "PRUNING_SEED_LOG_STRIPES_SHIFT = 7"
definition PRUNING_SEED_LOG_STRIPES_MASK :: u32 where "PRUNING_SEED_LOG_STRIPES_MASK = 0x7"
definition PRUNING_SEED_STRIPE_SHIFT :: nat where "PRUNING_SEED_STRIPE_SHIFT = 0"
definition PRUNING_SEED_STRIPE_MASK :: u32 where "PRUNING_SEED_STRIPE_MASK = 0x7f"

definition get_pruning_log_stripes :: "u32 \<Rightarrow> u32" where
  "get_pruning_log_stripes pruning_seed = drop_bit PRUNING_SEED_LOG_STRIPES_SHIFT pruning_seed AND PRUNING_SEED_LOG_STRIPES_MASK"

definition get_pruning_stripe :: "u32 \<Rightarrow> u32" where
  "get_pruning_stripe pruning_seed =
     (if pruning_seed = 0 then 0 else 1 + (drop_bit PRUNING_SEED_STRIPE_SHIFT pruning_seed AND PRUNING_SEED_STRIPE_MASK))"

definition make_pruning_seed :: "u32 \<Rightarrow> u32 \<Rightarrow> u32 option" where
  "make_pruning_seed stripe log_stripes =
     (if \<not> log_stripes \<le> PRUNING_SEED_LOG_STRIPES_MASK then None
      else if \<not> (stripe > 0 \<and> (ucast stripe :: u64) \<le> push_bit (unat log_stripes) 1) then None
      else Some (push_bit PRUNING_SEED_LOG_STRIPES_SHIFT log_stripes OR push_bit PRUNING_SEED_STRIPE_SHIFT (stripe - 1)))"

definition get_block_pruning_stripe :: "u64 \<Rightarrow> u64 \<Rightarrow> u32 \<Rightarrow> u32" where
  "get_block_pruning_stripe block_height blockchain_height log_stripes =
     (if block_height + CRYPTONOTE_PRUNING_TIP_BLOCKS \<ge> blockchain_height then 0
      else ucast ((block_height div CRYPTONOTE_PRUNING_STRIPE_SIZE AND (push_bit (unat log_stripes) 1 - 1)) + 1))"

definition has_unpruned_block :: "u64 \<Rightarrow> u64 \<Rightarrow> u32 \<Rightarrow> bool" where
  "has_unpruned_block block_height blockchain_height pruning_seed =
     (let stripe = get_pruning_stripe pruning_seed
      in if stripe = 0 then True
         else
           let log_stripes = get_pruning_log_stripes pruning_seed;
               block_stripe = get_block_pruning_stripe block_height blockchain_height log_stripes
           in block_stripe = 0 \<or> block_stripe = stripe)"

definition get_pruning_seed :: "u64 \<Rightarrow> u64 \<Rightarrow> u32 \<Rightarrow> u32 option" where
  "get_pruning_seed block_height blockchain_height log_stripes =
     (let stripe = get_block_pruning_stripe block_height blockchain_height log_stripes
      in if stripe = 0 then Some 0 else make_pruning_seed stripe log_stripes)"

definition get_next_unpruned_block_height :: "u64 \<Rightarrow> u64 \<Rightarrow> u32 \<Rightarrow> u64" where
  "get_next_unpruned_block_height block_height blockchain_height pruning_seed =
     (if \<not> block_height \<le> CRYPTONOTE_MAX_BLOCK_NUMBER + 1 then block_height
      else if \<not> blockchain_height \<le> CRYPTONOTE_MAX_BLOCK_NUMBER + 1 then block_height
      else
        let stripe = get_pruning_stripe pruning_seed
        in if stripe = 0 then block_height
           else if block_height + CRYPTONOTE_PRUNING_TIP_BLOCKS \<ge> blockchain_height then block_height
           else
             let seed_log_stripes = get_pruning_log_stripes pruning_seed;
                 log_stripes = (if seed_log_stripes \<noteq> 0 then ucast seed_log_stripes else CRYPTONOTE_PRUNING_LOG_STRIPES) :: u64;
                 mask = push_bit (unat log_stripes) 1 - 1 :: u64;
                 block_pruning_stripe = ucast ((block_height div CRYPTONOTE_PRUNING_STRIPE_SIZE AND mask) + 1) :: u32
             in if block_pruning_stripe = stripe then block_height
                else
                  let cycles = drop_bit (unat log_stripes) (block_height div CRYPTONOTE_PRUNING_STRIPE_SIZE);
                      cycle_start = cycles + (if stripe > block_pruning_stripe then 0 else 1);
                      h = cycle_start * push_bit (unat log_stripes) CRYPTONOTE_PRUNING_STRIPE_SIZE
                          + ucast ((stripe - 1) * ucast CRYPTONOTE_PRUNING_STRIPE_SIZE)
                  in if h + CRYPTONOTE_PRUNING_TIP_BLOCKS > blockchain_height
                     then (if blockchain_height < CRYPTONOTE_PRUNING_TIP_BLOCKS then 0 else blockchain_height - CRYPTONOTE_PRUNING_TIP_BLOCKS)
                     else if \<not> h \<ge> block_height then block_height
                     else h)"

definition get_next_pruned_block_height :: "u64 \<Rightarrow> u64 \<Rightarrow> u32 \<Rightarrow> u64 option" where
  "get_next_pruned_block_height block_height blockchain_height pruning_seed =
     (let stripe = get_pruning_stripe pruning_seed
      in if stripe = 0 then Some blockchain_height
         else if block_height + CRYPTONOTE_PRUNING_TIP_BLOCKS \<ge> blockchain_height then Some blockchain_height
         else
           let seed_log_stripes = get_pruning_log_stripes pruning_seed;
               log_stripes = (if seed_log_stripes \<noteq> 0 then ucast seed_log_stripes else CRYPTONOTE_PRUNING_LOG_STRIPES) :: u64;
               mask = push_bit (unat log_stripes) 1 - 1 :: u64;
               block_pruning_seed = ucast ((block_height div CRYPTONOTE_PRUNING_STRIPE_SIZE AND mask) + 1) :: u32
           in if block_pruning_seed \<noteq> stripe then Some block_height
              else
                let next_stripe = ucast (1 + (ucast block_pruning_seed AND mask)) :: u32
                in map_option (get_next_unpruned_block_height block_height blockchain_height) (make_pruning_seed next_stripe (ucast log_stripes)))"

definition get_random_stripe :: "u8 \<Rightarrow> u32" where
  "get_random_stripe r = ucast (1 + ucast r mod push_bit (unat CRYPTONOTE_PRUNING_LOG_STRIPES) 1 :: u64)"

section \<open>Seeds\<close>

lemmas pruning_defs =
  CRYPTONOTE_MAX_BLOCK_NUMBER_def CRYPTONOTE_PRUNING_STRIPE_SIZE_def CRYPTONOTE_PRUNING_LOG_STRIPES_def CRYPTONOTE_PRUNING_TIP_BLOCKS_def
  PRUNING_SEED_LOG_STRIPES_SHIFT_def PRUNING_SEED_LOG_STRIPES_MASK_def PRUNING_SEED_STRIPE_SHIFT_def PRUNING_SEED_STRIPE_MASK_def

lemma shifted_mask: "push_bit n (1 :: u64) - 1 = mask n"
  by (simp add: mask_eq_exp_minus_1 push_bit_eq_mult)

lemma unat_shift_one: "n < 64 \<Longrightarrow> unat (push_bit n (1 :: u64)) = 2 ^ n"
proof -
  assume "n < 64"
  then have "(2 :: nat) ^ n < 2 ^ 64" by (intro power_strict_increasing) auto
  then show ?thesis unfolding unat_shiftl by simp
qed

lemma make_seed_bounds:
  assumes "make_pruning_seed stripe log_stripes = Some seed"
  shows "unat log_stripes \<le> 7" and "1 \<le> unat stripe" and "unat stripe \<le> 2 ^ unat log_stripes"
    and "unat seed = unat log_stripes * 128 + (unat stripe - 1)" and "unat stripe \<le> 128"
proof -
  show l: "unat log_stripes \<le> 7" and s: "1 \<le> unat stripe"
    using assms by (auto simp: make_pruning_seed_def pruning_defs word_le_nat_alt word_less_nat_alt split: if_splits)
  have "(ucast stripe :: u64) \<le> push_bit (unat log_stripes) 1" using assms by (auto simp: make_pruning_seed_def split: if_splits)
  then show b: "unat stripe \<le> 2 ^ unat log_stripes"
    using l by (simp add: word_le_nat_alt unat_ucast_up unat_shift_one del: push_bit_of_1)
  then show m: "unat stripe \<le> 128" using power_increasing [OF l, of "2 :: nat"] by simp
  have v: "unat (stripe - 1) = unat stripe - 1" using s by (simp add: unat_sub word_le_nat_alt)
  have "seed = push_bit 7 log_stripes OR (stripe - 1)"
    using assms by (auto simp: make_pruning_seed_def PRUNING_SEED_LOG_STRIPES_SHIFT_def PRUNING_SEED_STRIPE_SHIFT_def split: if_splits)
  then show "unat seed = unat log_stripes * 128 + (unat stripe - 1)"
    using unat_shiftl_or [of "stripe - 1" 7 log_stripes] v m l by simp
qed

lemma make_seed_some:
  assumes "unat log_stripes \<le> 7" and "1 \<le> unat stripe" and "unat stripe \<le> 2 ^ unat log_stripes"
  shows "make_pruning_seed stripe log_stripes \<noteq> None"
proof -
  have "(ucast stripe :: u64) \<le> push_bit (unat log_stripes) 1"
    using assms by (simp add: word_le_nat_alt unat_ucast_up unat_shift_one del: push_bit_of_1)
  moreover have "stripe > 0" using assms(2) by (simp add: word_less_nat_alt)
  moreover have "log_stripes \<le> 7" using assms(1) by (simp add: word_le_nat_alt)
  ultimately show ?thesis by (simp add: make_pruning_seed_def PRUNING_SEED_LOG_STRIPES_MASK_def)
qed

lemma seed_fields:
  assumes "make_pruning_seed stripe log_stripes = Some seed" and "log_stripes \<noteq> 0"
  shows "get_pruning_stripe seed = stripe" and "get_pruning_log_stripes seed = log_stripes"
proof -
  note b = make_seed_bounds [OF assms(1)]
  have l: "1 \<le> unat log_stripes" using assms(2) by (simp add: unat_gt_0 Suc_le_eq)
  have m: "PRUNING_SEED_STRIPE_MASK = mask 7" "PRUNING_SEED_LOG_STRIPES_MASK = mask 3" by (simp_all add: pruning_defs mask_eq_exp_minus_1)
  define x where "x = unat stripe - 1"
  have x: "unat seed = unat log_stripes * 128 + x" "x < 128" using b by (simp_all add: x_def)
  have "unat (seed AND mask 7) = unat stripe - 1" using x unfolding unat_and_mask x_def [symmetric] by simp
  then have "unat (1 + (seed AND mask 7)) = unat stripe" using b by (subst unat_add_noov) simp_all
  moreover have "seed \<noteq> 0" using b(4) l by auto
  ultimately show "get_pruning_stripe seed = stripe"
    unfolding get_pruning_stripe_def m PRUNING_SEED_STRIPE_SHIFT_def by (simp add: word_unat_eq_iff)
  have "unat (drop_bit 7 seed AND mask 3) = unat log_stripes" using b(1) x by (simp add: unat_and_mask unat_shiftr)
  then show "get_pruning_log_stripes seed = log_stripes"
    unfolding get_pruning_log_stripes_def m PRUNING_SEED_LOG_STRIPES_SHIFT_def by (simp add: word_unat_eq_iff)
qed

section \<open>Stripes as numbers\<close>

definition stripe_of :: "nat \<Rightarrow> nat \<Rightarrow> nat" where
  "stripe_of l h = h div 4096 mod 2 ^ l + 1"

definition kept :: "nat \<Rightarrow> nat \<Rightarrow> nat \<Rightarrow> nat \<Rightarrow> bool" where
  "kept c l s h \<longleftrightarrow> c \<le> h + 5500 \<or> stripe_of l h = s"

text \<open>The first block of the next occurrence of stripe \<open>s\<close> after height \<open>b\<close>.\<close>

definition next_start :: "nat \<Rightarrow> nat \<Rightarrow> nat \<Rightarrow> nat" where
  "next_start l s b =
     (b div 4096 div 2 ^ l + (if s > stripe_of l b then 0 else 1)) * (4096 * 2 ^ l) + (s - 1) * 4096"

lemma next_residue:
  fixes q n t :: nat
  assumes "t < n" and "q mod n \<noteq> t" and "Q = (q div n + (if t > q mod n then 0 else 1)) * n + t"
  shows "q < Q" and "Q mod n = t" and "q \<le> y \<Longrightarrow> y < Q \<Longrightarrow> y mod n \<noteq> t"
proof -
  have q: "q = q div n * n + q mod n" by simp
  have r: "q mod n < n" using assms(1) by simp
  show "q < Q"
  proof (cases "t > q mod n")
    case True
    then have "Q = q div n * n + t" using assms(3) by simp
    then show ?thesis using q True by linarith
  next
    case False
    have "q < q div n * n + n" using q r by linarith
    then show ?thesis using assms(3) False by simp
  qed
  show "Q mod n = t" using assms(1,3) by simp
  show "y mod n \<noteq> t" if y: "q \<le> y" "y < Q"
  proof
    assume t: "y mod n = t"
    have e: "y = y div n * n + t" using t by (metis div_mult_mod_eq)
    have d: "q div n \<le> y div n" using y(1) by (rule div_le_mono)
    show False
    proof (cases "t > q mod n")
      case True
      then have "y < q div n * n + t" using y(2) assms(3) by simp
      moreover have "q div n * n \<le> y div n * n" using d by simp
      ultimately show False using e by linarith
    next
      case False
      then have "y < (q div n + 1) * n + t" using y(2) assms(3) by simp
      then have "y div n * n < (q div n + 1) * n" using e by linarith
      then have "y div n < q div n + 1" by (metis mult_less_cancel2)
      then have "y div n = q div n" using d by simp
      then have "q mod n \<le> t" using y(1) q e by (metis add_le_cancel_left)
      then show False using False assms(2) by simp
    qed
  qed
qed

lemma next_start_least:
  assumes "1 \<le> s" and "s \<le> 2 ^ l" and "stripe_of l b \<noteq> s"
  shows "b < next_start l s b" and "stripe_of l (next_start l s b) = s"
    and "b \<le> x \<Longrightarrow> x < next_start l s b \<Longrightarrow> stripe_of l x \<noteq> s"
proof -
  let ?n = "2 ^ l :: nat" and ?q = "b div 4096"
  define Q where "Q = (?q div ?n + (if s - 1 > ?q mod ?n then 0 else 1)) * ?n + (s - 1)"
  have t: "s - 1 < ?n" "?q mod ?n \<noteq> s - 1" using assms by (auto simp: stripe_of_def)
  note r = next_residue [OF t Q_def]
  have "(s > stripe_of l b) = (s - 1 > ?q mod ?n)" using assms(1) by (auto simp: stripe_of_def)
  then have h: "next_start l s b = Q * 4096" by (simp add: next_start_def Q_def algebra_simps)
  show "b < next_start l s b" using r(1) unfolding h by (simp add: div_less_iff_less_mult)
  show "stripe_of l (next_start l s b) = s" using r(2) assms(1) unfolding h stripe_of_def by simp
  show "stripe_of l x \<noteq> s" if "b \<le> x" "x < next_start l s b"
  proof -
    have "?q \<le> x div 4096" using that(1) by (rule div_le_mono)
    moreover have "x div 4096 < Q" using that(2) unfolding h by (simp add: div_less_iff_less_mult)
    ultimately have "x div 4096 mod ?n \<noteq> s - 1" by (rule r(3))
    then show ?thesis using assms(1) by (auto simp: stripe_of_def)
  qed
qed

text \<open>The stripe that follows stripe \<open>s\<close> starts with the next group of 4096 blocks.\<close>

lemma next_start_following:
  assumes "1 \<le> l" and "stripe_of l b = s"
  shows "next_start l (s mod 2 ^ l + 1) b = (b div 4096 + 1) * 4096" and "s mod 2 ^ l + 1 \<noteq> s"
proof -
  let ?n = "2 ^ l :: nat" and ?q = "b div 4096"
  have n: "2 \<le> ?n" using power_increasing [OF assms(1), of "2 :: nat"] by simp
  have s: "s = ?q mod ?n + 1" "?q mod ?n < ?n" using assms(2) by (auto simp: stripe_of_def)
  have q: "?q = ?q div ?n * ?n + ?q mod ?n" by (rule div_mult_mod_eq [symmetric])
  have "next_start l (s mod ?n + 1) b = (?q + 1) * 4096 \<and> s mod ?n + 1 \<noteq> s"
  proof (cases "s < ?n")
    case True
    then have "next_start l (s mod ?n + 1) b = (?q div ?n * ?n + s) * 4096"
      using assms(2) by (simp add: next_start_def algebra_simps)
    moreover have "?q div ?n * ?n + s = ?q + 1" using q s(1) by linarith
    ultimately show ?thesis using True by simp
  next
    case False
    then have e: "s = ?n" using s by linarith
    then have "next_start l (s mod ?n + 1) b = (?q div ?n * ?n + ?n) * 4096"
      using assms(2) n by (simp add: next_start_def algebra_simps)
    moreover have "?q div ?n * ?n + ?n = ?q + 1" using q s(1) e by linarith
    ultimately show ?thesis using e n by simp
  qed
  then show "next_start l (s mod 2 ^ l + 1) b = (b div 4096 + 1) * 4096" "s mod 2 ^ l + 1 \<noteq> s" by auto
qed

section \<open>The heights\<close>

lemma small_height:
  fixes x :: u64
  assumes "unat x \<le> 2 ^ 60"
  shows "unat (x + CRYPTONOTE_PRUNING_TIP_BLOCKS) = unat x + 5500"
    and "unat (x div CRYPTONOTE_PRUNING_STRIPE_SIZE) = unat x div 4096"
  using assms by (simp_all add: pruning_defs unat_div_distrib unat_add_noov)

lemma unat_stripe:
  fixes x :: u64
  assumes "l \<le> 7"
  shows "unat (ucast ((x div CRYPTONOTE_PRUNING_STRIPE_SIZE AND (push_bit l 1 - 1)) + 1) :: u32) = stripe_of l (unat x)"
proof -
  have "(2 :: nat) ^ l \<le> 2 ^ 7" using assms by (intro power_increasing) auto
  then have l: "(2 :: nat) ^ l \<le> 128" by simp
  have "unat x div 4096 mod 2 ^ l < 2 ^ l" by simp
  then have m: "unat x div 4096 mod 2 ^ l < 128" using l by linarith
  have a: "unat (x div CRYPTONOTE_PRUNING_STRIPE_SIZE AND mask l) = unat x div 4096 mod 2 ^ l"
    by (simp add: unat_and_mask pruning_defs unat_div_distrib)
  then have "unat ((x div CRYPTONOTE_PRUNING_STRIPE_SIZE AND mask l) + 1) = unat x div 4096 mod 2 ^ l + 1"
    using m by (subst unat_add_noov) simp_all
  then show ?thesis unfolding shifted_mask using m by (subst unat_ucast_small) (simp_all add: stripe_of_def)
qed

lemma has_unpruned_kept:
  assumes "make_pruning_seed stripe log_stripes = Some seed" and "log_stripes \<noteq> 0" and "unat x \<le> 2 ^ 60"
  shows "has_unpruned_block x c seed \<longleftrightarrow> kept (unat c) (unat log_stripes) (unat stripe) (unat x)"
proof -
  note b = make_seed_bounds [OF assms(1)]
  have s: "stripe \<noteq> 0" using b(2) by auto
  have t: "c \<le> x + CRYPTONOTE_PRUNING_TIP_BLOCKS \<longleftrightarrow> unat c \<le> unat x + 5500"
    unfolding word_le_nat_alt small_height(1) [OF assms(3)] by simp
  show ?thesis
    unfolding has_unpruned_block_def get_block_pruning_stripe_def seed_fields [OF assms(1,2)] Let_def t kept_def
    using s unat_stripe [OF b(1), of x] by (auto simp: word_unat_eq_iff stripe_of_def)
qed

lemma next_height_value:
  assumes "make_pruning_seed stripe log_stripes = Some seed" and "log_stripes \<noteq> 0"
    and "unat b \<le> 500000001" and "unat c \<le> 500000001"
  shows "unat (get_next_unpruned_block_height b c seed) =
    (let l = unat log_stripes; s = unat stripe; h = next_start l s (unat b)
     in if unat c \<le> unat b + 5500 \<or> stripe_of l (unat b) = s then unat b else if h + 5500 > unat c then unat c - 5500 else h)"
proof -
  note bd = make_seed_bounds [OF assms(1)]
  let ?l = "unat log_stripes" and ?s = "unat stripe" and ?b = "unat b"
  have s0: "stripe \<noteq> 0" using bd(2) by auto
  have t: "c \<le> b + CRYPTONOTE_PRUNING_TIP_BLOCKS \<longleftrightarrow> unat c \<le> ?b + 5500"
    unfolding word_le_nat_alt using small_height(1) [of b] assms(3) by simp
  have lim: "b \<le> CRYPTONOTE_MAX_BLOCK_NUMBER + 1" "c \<le> CRYPTONOTE_MAX_BLOCK_NUMBER + 1" using assms(3,4) by (simp_all add: word_le_nat_alt pruning_defs)
  define bs where "bs = (ucast ((b div CRYPTONOTE_PRUNING_STRIPE_SIZE AND (push_bit ?l 1 - 1)) + 1) :: u32)"
  have bs: "unat bs = stripe_of ?l ?b" unfolding bs_def by (rule unat_stripe [OF bd(1)])
  have ul: "unat (ucast log_stripes :: u64) = ?l" by (simp add: unat_ucast_up)
  define h where "h = (drop_bit ?l (b div CRYPTONOTE_PRUNING_STRIPE_SIZE) + (if stripe > bs then 0 else 1)) * push_bit ?l CRYPTONOTE_PRUNING_STRIPE_SIZE
      + ucast ((stripe - 1) * ucast CRYPTONOTE_PRUNING_STRIPE_SIZE)"
  have g: "get_next_unpruned_block_height b c seed =
     (if c \<le> b + CRYPTONOTE_PRUNING_TIP_BLOCKS then b else if bs = stripe then b
      else if h + CRYPTONOTE_PRUNING_TIP_BLOCKS > c
      then (if c < CRYPTONOTE_PRUNING_TIP_BLOCKS then 0 else c - CRYPTONOTE_PRUNING_TIP_BLOCKS)
      else if \<not> h \<ge> b then b else h)"
    unfolding get_next_unpruned_block_height_def seed_fields [OF assms(1,2)] Let_def if_P [OF assms(2)] ul bs_def [symmetric] h_def [symmetric]
    using lim s0 by simp
  have p: "2 ^ ?l \<le> (128 :: nat)" using power_increasing [OF bd(1), of "2 :: nat"] by simp
  let ?k = "?b div 4096 div 2 ^ ?l + (if ?s > stripe_of ?l ?b then 0 else 1)"
  have "?b div 4096 div 2 ^ ?l \<le> ?b div 4096" by (rule div_le_dividend)
  moreover have "?b div 4096 \<le> 122071" using assms(3) by simp
  ultimately have "?b div 4096 div 2 ^ ?l \<le> 122071" by linarith
  then have k: "?k \<le> 122072" by simp
  have k4: "?k * (4096 * 2 ^ ?l) \<le> 122072 * (4096 * 128)" using k p by (intro mult_le_mono) auto
  have uh: "unat h = next_start ?l ?s ?b"
  proof -
    have c1: "unat (drop_bit ?l (b div CRYPTONOTE_PRUNING_STRIPE_SIZE)) = ?b div 4096 div 2 ^ ?l"
      unfolding unat_shiftr using small_height(2) [of b] assms(3) by simp
    have "unat (drop_bit ?l (b div CRYPTONOTE_PRUNING_STRIPE_SIZE) + (if stripe > bs then 0 else 1)) = ?k"
      using c1 k bs by (subst unat_add_noov) (auto simp: word_less_nat_alt)
    moreover have "unat (push_bit ?l CRYPTONOTE_PRUNING_STRIPE_SIZE) = 4096 * 2 ^ ?l"
      using p unfolding unat_shiftl by (simp add: pruning_defs)
    moreover note k4
    ultimately have a: "unat ((drop_bit ?l (b div CRYPTONOTE_PRUNING_STRIPE_SIZE) + (if stripe > bs then 0 else 1)) * push_bit ?l CRYPTONOTE_PRUNING_STRIPE_SIZE) = ?k * (4096 * 2 ^ ?l)"
      by (subst unat_mult_noov) simp_all
    have "unat (stripe - 1) = ?s - 1" using bd(2) by (simp add: unat_sub word_le_nat_alt)
    then have "unat ((stripe - 1) * ucast CRYPTONOTE_PRUNING_STRIPE_SIZE) = (?s - 1) * 4096"
      using bd(5) by (subst unat_mult_noov) (simp_all add: pruning_defs)
    then have s4: "unat (ucast ((stripe - 1) * ucast CRYPTONOTE_PRUNING_STRIPE_SIZE :: u32) :: u64) = (?s - 1) * 4096"
      by (simp add: unat_ucast_up)
    define K where "K = ?k * (4096 * 2 ^ ?l)"
    have "K + (?s - 1) * 4096 < 2 ^ LENGTH(64)" using k4 bd(5) unfolding K_def [symmetric] by simp
    then show ?thesis unfolding h_def next_start_def K_def [symmetric] using a s4 unfolding K_def [symmetric] by (subst unat_add_noov) simp_all
  qed
  have h: "unat h \<le> 2 ^ 60"
  proof -
    define K where "K = ?k * (4096 * 2 ^ ?l)"
    show ?thesis using k4 bd(5) unfolding uh next_start_def K_def [symmetric] by simp
  qed
  have ht: "h + CRYPTONOTE_PRUNING_TIP_BLOCKS > c \<longleftrightarrow> next_start ?l ?s ?b + 5500 > unat c"
    unfolding word_less_nat_alt small_height(1) [OF h] uh by simp
  have tip: "unat (if c < CRYPTONOTE_PRUNING_TIP_BLOCKS then 0 else c - CRYPTONOTE_PRUNING_TIP_BLOCKS) = unat c - 5500"
    by (simp add: pruning_defs word_less_nat_alt unat_sub word_le_nat_alt)
  have eq: "bs = stripe \<longleftrightarrow> stripe_of ?l ?b = ?s" unfolding word_unat_eq_iff bs by simp
  have ge: "h \<ge> b" if "stripe_of ?l ?b \<noteq> ?s"
    unfolding word_le_nat_alt uh using next_start_least(1) [OF bd(2,3) that] by simp
  show ?thesis unfolding g t ht eq Let_def using tip ge uh by auto
qed

text \<open>C23. A pruning seed carries its stripe and the number of stripes: for a valid stripe of at least two,
  the fields read from the seed are the ones it was made from, and invalid arguments are refused.\<close>
theorem pruning_seed_roundtrip:
  "(make_pruning_seed stripe log_stripes \<noteq> None \<longleftrightarrow>
      unat log_stripes \<le> 7 \<and> 1 \<le> unat stripe \<and> unat stripe \<le> 2 ^ unat log_stripes) \<and>
   (log_stripes \<noteq> 0 \<longrightarrow> make_pruning_seed stripe log_stripes = Some seed \<longrightarrow>
      get_pruning_stripe seed = stripe \<and> get_pruning_log_stripes seed = log_stripes)"
  using make_seed_bounds [of stripe log_stripes] make_seed_some [of log_stripes stripe] seed_fields [of stripe log_stripes seed] by blast

theorem pruning_seed_roundtrip_witness: "get_pruning_stripe 388 = 5 \<and> get_pruning_log_stripes 388 = 3"
proof -
  have "make_pruning_seed 5 3 = Some 388" by code_simp
  then show ?thesis using pruning_seed_roundtrip [of 5 3 388] by simp
qed

text \<open>C18. \<open>get_next_unpruned_block_height\<close> finds the next block a pruning node keeps: for a valid seed and
  heights up to the maximum, the result is the least height from the given one on for which
  \<open>has_unpruned_block\<close> holds.\<close>
theorem next_unpruned_least:
  assumes "make_pruning_seed stripe log_stripes = Some seed" and "log_stripes \<noteq> 0"
    and "b \<le> CRYPTONOTE_MAX_BLOCK_NUMBER + 1" and "c \<le> CRYPTONOTE_MAX_BLOCK_NUMBER + 1"
    and "r = get_next_unpruned_block_height b c seed"
  shows "b \<le> r \<and> has_unpruned_block r c seed \<and> (\<forall>x. b \<le> x \<and> x < r \<longrightarrow> \<not> has_unpruned_block x c seed)"
proof -
  have bc: "unat b \<le> 500000001" "unat c \<le> 500000001" using assms(3,4) by (simp_all add: word_le_nat_alt pruning_defs)
  note bd = make_seed_bounds [OF assms(1)]
  let ?l = "unat log_stripes" and ?s = "unat stripe" and ?b = "unat b" and ?c = "unat c"
  let ?h = "next_start ?l ?s ?b"
  have r: "unat r = (if ?c \<le> ?b + 5500 \<or> stripe_of ?l ?b = ?s then ?b else if ?h + 5500 > ?c then ?c - 5500 else ?h)"
    using next_height_value [OF assms(1,2) bc] unfolding assms(5) Let_def .
  have rb: "unat r \<le> 500000001" using r bc by (auto split: if_splits)
  have least: "?b \<le> unat r \<and> kept ?c ?l ?s (unat r) \<and> (\<forall>x. ?b \<le> x \<and> x < unat r \<longrightarrow> \<not> kept ?c ?l ?s x)"
  proof (cases "?c \<le> ?b + 5500 \<or> stripe_of ?l ?b = ?s")
    case True
    then show ?thesis using r by (auto simp: kept_def)
  next
    case False
    then have n: "?b < ?h" "stripe_of ?l ?h = ?s" "\<And>x. ?b \<le> x \<Longrightarrow> x < ?h \<Longrightarrow> stripe_of ?l x \<noteq> ?s"
      using next_start_least [OF bd(2,3), of ?b] by auto
    then show ?thesis using r False by (auto simp: kept_def)
  qed
  have k: "has_unpruned_block x c seed \<longleftrightarrow> kept ?c ?l ?s (unat x)" if "unat x \<le> 500000001" for x
    using has_unpruned_kept [OF assms(1,2), of x c] that by simp
  show ?thesis using least k rb by (auto simp: word_le_nat_alt word_less_nat_alt)
qed

theorem next_unpruned_least_witness:
  "has_unpruned_block 16384 100000 388 \<and> get_next_unpruned_block_height 100 100000 388 = 16384"
proof -
  have s: "make_pruning_seed 5 3 = Some 388" by code_simp
  have r: "16384 = get_next_unpruned_block_height 100 100000 388" by code_simp
  show ?thesis using next_unpruned_least [OF s _ _ _ r] r by (simp add: pruning_defs)
qed



end
