(* ===== verification/Include_Dirs.thy ===== *)
theory Include_Dirs
  imports Cpp_Prelude
begin

text \<open>
  The script \<open>external/rapidjson/include_dirs.js\<close>, which prints the include directory of the bundled
  JSON library relative to the working directory, for the POSIX variant of the \<open>path\<close> module of
  Node.js. Paths are strings; the model reads a path as its components, as the documentation of
  \<open>path.normalize\<close>, \<open>path.resolve\<close>, \<open>path.relative\<close> and \<open>path.join\<close> does. The working directory and
  \<open>__dirname\<close> are parameters.
\<close>

section \<open>The path module\<close>

text \<open>The components of a path between its separators.\<close>

fun path_split :: "string \<Rightarrow> string list" where
  "path_split [] = [[]]"
| "path_split (c # cs) =
     (if c = CHR ''/'' then [] # path_split cs
      else case path_split cs of [] \<Rightarrow> [[c]] | p # ps \<Rightarrow> (c # p) # ps)"

fun path_concat :: "string list \<Rightarrow> string" where
  "path_concat [] = []"
| "path_concat [p] = p"
| "path_concat (p # q # ps) = p @ ''/'' @ path_concat (q # ps)"

definition isAbsolute :: "string \<Rightarrow> bool" where
  "isAbsolute p \<longleftrightarrow> p \<noteq> [] \<and> hd p = CHR ''/''"

text \<open>Removal of empty, \<open>.\<close> and \<open>..\<close> components; \<open>acc\<close> holds the components kept so far, the last
  one first.\<close>

fun normalizeString :: "bool \<Rightarrow> string list \<Rightarrow> string list \<Rightarrow> string list" where
  "normalizeString allowAboveRoot acc [] = rev acc"
| "normalizeString allowAboveRoot acc (p # ps) =
     (if p = [] \<or> p = ''.'' then normalizeString allowAboveRoot acc ps
      else if p = ''..'' then
        (if acc \<noteq> [] \<and> hd acc \<noteq> ''..'' then normalizeString allowAboveRoot (tl acc) ps
         else if allowAboveRoot then normalizeString allowAboveRoot (''..'' # acc) ps
         else normalizeString allowAboveRoot acc ps)
      else normalizeString allowAboveRoot (p # acc) ps)"

definition normalize :: "string \<Rightarrow> string" where
  "normalize p =
     (if p = [] then ''.''
      else
        let trailingSeparator = last p = CHR ''/'';
            ps = normalizeString (\<not> isAbsolute p) [] (path_split p)
        in if ps = [] then (if isAbsolute p then ''/'' else if trailingSeparator then ''./'' else ''.'')
           else
             let q = path_concat ps @ (if trailingSeparator then ''/'' else [])
             in if isAbsolute p then ''/'' @ q else q)"

text \<open>The components of \<open>path.resolve(p)\<close> with the working directory \<open>cwd\<close>; the result of
  \<open>path.resolve\<close> is \<open>/\<close> followed by them.\<close>

definition resolve :: "string \<Rightarrow> string \<Rightarrow> string list" where
  "resolve cwd p = normalizeString False [] (path_split (if isAbsolute p then p else cwd @ ''/'' @ p))"

fun path_rest :: "string list \<Rightarrow> string list \<Rightarrow> string list \<times> string list" where
  "path_rest (x # xs) (y # ys) = (if x = y then path_rest xs ys else (x # xs, y # ys))"
| "path_rest xs ys = (xs, ys)"

definition relative :: "string \<Rightarrow> string \<Rightarrow> string \<Rightarrow> string" where
  "relative cwd from to =
     (let (up, down) = path_rest (resolve cwd from) (resolve cwd to)
      in path_concat (map (\<lambda>_. ''..'') up @ down))"

definition path_join :: "string list \<Rightarrow> string" where
  "path_join args =
     (let args = filter (\<lambda>a. a \<noteq> []) args
      in if args = [] then ''.'' else normalize (path_concat args))"

section \<open>The script\<close>

definition include_dirs :: "string \<Rightarrow> string \<Rightarrow> string" where
  "include_dirs cwd dirname = path_join [relative cwd ''.'' dirname, ''include'']"

section \<open>Splitting and joining\<close>

definition plain :: "string \<Rightarrow> bool" where
  "plain p \<longleftrightarrow> CHR ''/'' \<notin> set p"

lemma path_split_nonempty [simp]: "path_split p \<noteq> []"
  by (induction p) (auto split: list.splits)

lemma path_split_append: "path_split (p @ CHR ''/'' # q) = path_split p @ path_split q"
  by (induction p) (auto split: list.splits)

lemma path_split_plain [simp]: "plain p \<Longrightarrow> path_split p = [p]"
  by (induction p) (auto simp: plain_def)

lemma path_split_concat: "ps \<noteq> [] \<Longrightarrow> \<forall>p \<in> set ps. plain p \<Longrightarrow> path_split (path_concat ps) = ps"
  by (induction ps rule: path_concat.induct) (auto simp: path_split_append)

lemma set_path_split: "p \<in> set (path_split s) \<Longrightarrow> plain p"
  by (induction s arbitrary: p) (auto simp: plain_def split: list.splits if_splits)

section \<open>Normalisation\<close>

text \<open>A component that names a directory entry.\<close>

definition entry :: "string \<Rightarrow> bool" where
  "entry p \<longleftrightarrow> p \<noteq> [] \<and> p \<noteq> ''.'' \<and> p \<noteq> ''..'' \<and> plain p"

lemma entryD: "entry p \<Longrightarrow> plain p \<and> p \<noteq> []"
  unfolding entry_def by blast

lemma entry_words [simp]: "plain ''..''" "entry ''include''" "plain ''include''"
  by (simp_all add: entry_def plain_def)

lemma normalizeString_entries:
  assumes "\<forall>p \<in> set acc. entry p" and "\<forall>p \<in> set ps. plain p"
  shows "\<forall>p \<in> set (normalizeString False acc ps). entry p"
  using assms
proof (induction ps arbitrary: acc)
  case (Cons p ps)
  have t: "\<forall>p \<in> set (tl acc). entry p" using Cons.prems(1) by (cases acc) simp_all
  have ps: "\<forall>p \<in> set ps. plain p" and p: "plain p" using Cons.prems(2) by simp_all
  consider "p = [] \<or> p = ''.''" | "p = ''..''" | "entry p" using p unfolding entry_def by blast
  then show ?case
  proof cases
    case 1
    then have "normalizeString False acc (p # ps) = normalizeString False acc ps" by (simp only: normalizeString.simps simp_thms if_True)
    then show ?thesis using Cons.IH [OF Cons.prems(1) ps] by (simp only:)
  next
    case 2
    then show ?thesis using Cons.IH [OF Cons.prems(1) ps] Cons.IH [OF t ps] by simp
  next
    case 3
    then have "normalizeString False acc (p # ps) = normalizeString False (p # acc) ps"
      unfolding entry_def by (simp only: normalizeString.simps simp_thms if_False)
    moreover have "\<forall>q \<in> set (p # acc). entry q" using 3 Cons.prems(1) by (simp only: list.set insert_iff ball_simps simp_thms)
    ultimately show ?thesis using Cons.IH [OF _ ps, of "p # acc"] by (simp only:)
  qed
qed simp

lemma resolve_entries: "\<forall>p \<in> set (resolve cwd p). entry p"
  unfolding resolve_def by (intro normalizeString_entries) (auto dest: set_path_split)

lemma normalize_up: "\<forall>p \<in> set up. entry p \<Longrightarrow> \<forall>p \<in> set acc. entry p \<Longrightarrow>
    normalizeString False (rev up @ acc) (map (\<lambda>_. ''..'') up @ ps) = normalizeString False acc ps"
proof (induction up arbitrary: ps rule: rev_induct)
  case (snoc x xs)
  have "x \<noteq> ''..''" using snoc.prems by (auto simp: entry_def)
  moreover have "map (\<lambda>_. ''..'') (xs @ [x]) = ''..'' # map (\<lambda>_. ''..'') xs"
    by (simp add: map_replicate_const replicate_append_same)
  ultimately show ?case using snoc by simp
qed simp

lemma normalize_entries: "\<forall>p \<in> set ps. entry p \<Longrightarrow> normalizeString b acc (ps @ qs) = normalizeString b (rev ps @ acc) qs"
  by (induction ps arbitrary: acc) (auto simp: entry_def)

lemma normalize_above: "normalizeString True (replicate k ''..'') (replicate n ''..'' @ qs) = normalizeString True (replicate (n + k) ''..'') qs"
proof (induction n arbitrary: k)
  case (Suc n)
  have "normalizeString True (replicate k ''..'') (replicate (Suc n) ''..'' @ qs) =
        normalizeString True (replicate (Suc k) ''..'') (replicate n ''..'' @ qs)"
    by (cases k) simp_all
  also have "\<dots> = normalizeString True (replicate (Suc n + k) ''..'') qs" using Suc [of "Suc k"] by simp
  finally show ?case .
qed simp

lemma path_rest_common: "path_rest xs ys = (up, down) \<Longrightarrow> \<exists>c. xs = c @ up \<and> ys = c @ down"
proof (induction xs ys rule: path_rest.induct)
  case (1 x xs y ys)
  show ?case
  proof (cases "x = y")
    case True
    then obtain c where "xs = c @ up" "ys = c @ down" using 1 by auto
    then show ?thesis using True by (intro exI [of _ "x # c"]) simp
  next
    case False
    then show ?thesis using 1 by (intro exI [of _ "[]"]) simp
  qed
qed auto

lemma normalizeString_append: "normalizeString b acc (xs @ ys) = normalizeString b (rev (normalizeString b acc xs)) ys"
  by (induction b acc xs rule: normalizeString.induct) auto

lemma last_path_concat: "ps \<noteq> [] \<Longrightarrow> last ps \<noteq> [] \<Longrightarrow> path_concat ps \<noteq> [] \<and> last (path_concat ps) = last (last ps)"
  by (induction ps rule: path_concat.induct) auto

lemma hd_path_concat: "ps \<noteq> [] \<Longrightarrow> hd ps \<noteq> [] \<Longrightarrow> path_concat ps \<noteq> [] \<and> hd (path_concat ps) = hd (hd ps)"
  by (induction ps rule: path_concat.induct) auto

text \<open>Paths that go up and then down are already normal.\<close>

lemma normalize_updown:
  assumes "\<forall>p \<in> set down. entry p" and "down \<noteq> []"
  shows "normalize (path_concat (replicate n ''..'' @ down)) = path_concat (replicate n ''..'' @ down)"
    and "\<not> isAbsolute (path_concat (replicate n ''..'' @ down))"
proof -
  let ?ps = "replicate n ''..'' @ down"
  have plain: "\<forall>p \<in> set ?ps. plain p \<and> p \<noteq> []" using assms(1) by (auto dest: entryD)
  have ps: "?ps \<noteq> []" using assms(2) by simp
  have h: "hd ?ps \<in> set ?ps" and l: "last ?ps \<in> set ?ps" using hd_in_set [OF ps] last_in_set [OF ps] by auto
  have "path_concat ?ps \<noteq> []" "hd (path_concat ?ps) = hd (hd ?ps)"
    using hd_path_concat [OF ps] plain h by auto
  moreover have "hd (hd ?ps) \<noteq> CHR ''/''"
    using plain h hd_in_set [of "hd ?ps"] unfolding plain_def by metis
  ultimately show na: "\<not> isAbsolute (path_concat ?ps)" unfolding isAbsolute_def by simp
  have "last (last ?ps) \<noteq> CHR ''/''" using plain l last_in_set [of "last ?ps"] unfolding plain_def by metis
  then have "last (path_concat ?ps) \<noteq> CHR ''/''" using last_path_concat [OF ps] plain l by auto
  moreover have "normalizeString True [] ?ps = ?ps"
    using normalize_above [of 0 n down] normalize_entries [OF assms(1), of True "replicate n ''..''" "[]"] by simp
  moreover have "path_split (path_concat ?ps) = ?ps" using path_split_concat [OF ps] plain by auto
  ultimately show "normalize (path_concat ?ps) = path_concat ?ps"
    using na ps \<open>path_concat ?ps \<noteq> []\<close> by (simp add: normalize_def Let_def)
qed

lemma path_concat_snoc: "ps \<noteq> [] \<Longrightarrow> path_concat [path_concat ps, q] = path_concat (ps @ [q])"
  by (induction ps rule: path_concat.induct) auto

text \<open>C31. The include directory that the script prints, read from the working directory in which the
  script runs, is the directory \<open>include\<close> next to the script, wherever the working directory is.\<close>
theorem include_dirs_resolves: "resolve cwd (include_dirs cwd dirname) = resolve cwd dirname @ [''include'']"
proof -
  obtain up down where r: "path_rest (resolve cwd ''.'') (resolve cwd dirname) = (up, down)" by fastforce
  then obtain c where c: "resolve cwd ''.'' = c @ up" "resolve cwd dirname = c @ down" using path_rest_common by blast
  let ?d = "down @ [''include'']"
  have e: "\<forall>p \<in> set c. entry p" "\<forall>p \<in> set up. entry p" "\<forall>p \<in> set ?d. entry p"
    using resolve_entries [of cwd "''.''"] resolve_entries [of cwd dirname] c by auto
  let ?p = "replicate (length up) ''..'' @ ?d"
  have rel: "relative cwd ''.'' dirname = path_concat (replicate (length up) ''..'' @ down)"
    using r by (simp add: relative_def map_replicate_const)
  have "include_dirs cwd dirname = path_concat ?p"
  proof (cases "replicate (length up) ''..'' @ down = []")
    case True
    then show ?thesis using rel normalize_updown(1) [OF e(3), of "length up"] by (simp add: include_dirs_def path_join_def)
  next
    case False
    have "hd (replicate (length up) ''..'' @ down) \<noteq> []"
      using False e(3) by (cases up; cases down) (auto dest: entryD)
    then have "relative cwd ''.'' dirname \<noteq> []" using hd_path_concat [OF False] rel by simp
    then show ?thesis
      using path_concat_snoc [OF False, of "''include''"] normalize_updown(1) [OF e(3), of "length up"] rel
      by (simp add: include_dirs_def path_join_def)
  qed
  moreover have "path_split (path_concat ?p) = ?p"
    using e(3) by (intro path_split_concat) (auto dest: entryD)
  moreover have "normalizeString False [] (path_split cwd) = c @ up"
    using c(1) by (simp add: resolve_def isAbsolute_def path_split_append normalizeString_append [of _ _ "path_split cwd"])
  ultimately have "resolve cwd (include_dirs cwd dirname) = normalizeString False (rev up @ rev c) (map (\<lambda>_. ''..'') up @ ?d)"
    using normalize_updown(2) [OF e(3), of "length up"]
    by (simp add: resolve_def path_split_append normalizeString_append [of _ _ "path_split cwd"] map_replicate_const)
  also have "\<dots> = c @ ?d"
    using normalize_up [of up "rev c" ?d] normalize_entries [OF e(3), of False "rev c" "[]"] e by simp
  finally show ?thesis using c(2) by simp
qed

end
