(* ===== verification/Spec2Isabelle.thy ===== *)
theory Spec2Isabelle
  imports Difficulty Emission Rolling_Median_Correct Base58 Scalar_Correct Hardfork_Correct Weight_Limit_Correct Tree_Hash Pruning Include_Dirs
begin

text \<open>
  A verification development of the consensus core of the Dinastycoin node. File names below are
  relative to the source tree.

  \<^bold>\<open>The program.\<close> The node keeps a chain of blocks. A block is accepted when the hash of its
  header meets the difficulty, when its version is the one the hard fork object asks for, when its
  miner transaction claims the reward that the emission rules give, and when its transactions are
  valid. The difficulty is computed from the timestamps and the cumulative difficulties of a window
  of blocks; the reward depends on the median weight of a window of blocks. Signatures compute with
  scalars modulo the order of a curve group; identifiers are Keccak hashes; integers in blobs and in
  address tags are variable-length; addresses are base 58 texts with a Keccak checksum.

  \<^bold>\<open>Reading of C and C++.\<close> Theory \<open>Cpp_Prelude\<close> names the integer types as words, so that
  additions and multiplications wrap as they do in the code, and gives the rules that turn them into
  arithmetic on natural numbers when nothing wraps. Byte strings are lists of 8 bit words. Container
  sizes and block heights are natural numbers. The build is a release build: \<open>assert\<close> has no effect.
  A thrown exception, undefined behaviour and a loop that does not end are the value \<open>None\<close>; output
  parameters are components of the result; an object is a record that an operation takes and
  returns.

  \<^bold>\<open>Wide integers.\<close> \<open>Int_Util\<close>: \<open>contrib/epee/include/int-util.h\<close> and \<open>contrib/epee/src/int-util.cpp\<close>,
  multiplication to 128 bits by 32 bit halves, long division of 128 bits by 32 and 64 bits, clamped
  addition and subtraction, byte swapping. Each is shown to compute the arithmetic result. The locale
  \<open>wide_mul\<close> is the contract of a wide multiplication; \<open>mul128\<close> and the \<open>mul\<close> of the difficulty code
  both interpret it, and so agree.

  \<^bold>\<open>Difficulty.\<close> \<open>Difficulty\<close>: \<open>src/cryptonote_basic/difficulty.cpp\<close>. \<open>check_hash\<close> with its 64 bit
  carry chain and its 512 bit path decides exactly whether hash times difficulty stays below
  \<open>2^256\<close>. \<open>next_difficulty\<close> sorts and trims the window and returns the least difficulty that brings
  its work to the target rate; the 64 bit version agrees where it does not overflow.

  \<^bold>\<open>Medians.\<close> \<open>Median\<close>: \<open>contrib/epee/include/misc_language.h\<close>. \<open>Rolling_Median\<close>: the class of
  \<open>contrib/epee/include/rolling_median.h\<close>, two heaps in one circular index array, all of its
  operations. \<open>Sift_Heap\<close> has the theory of such heaps over any strict order as a locale,
  \<open>strict_order\<close>, which the upper and the lower heap interpret. \<open>Rolling_Median_Correct\<close> shows that
  the invariant is kept and that the median returned is the one of the last \<open>N\<close> inserted values.

  \<^bold>\<open>Emission.\<close> \<open>Emission\<close>: \<open>get_block_reward\<close> and \<open>get_min_block_weight\<close> of
  \<open>src/cryptonote_basic/cryptonote_basic_impl.cpp\<close>. The reward is the exact quadratic penalty for
  blocks between one and two medians, refused above, and falls with the weight.

  \<^bold>\<open>Encodings.\<close> \<open>Varint\<close>: \<open>src/common/varint.h\<close> at every word width. \<open>Keccak\<close>:
  \<open>src/crypto/keccak.c\<close> and \<open>src/crypto/hash.c\<close>, where the incremental hash is shown to be the
  one-shot hash of the concatenated input. \<open>Base58\<close>: \<open>src/common/base58.cpp\<close>, where texts and data
  correspond one to one and an address has no second spelling.

  \<^bold>\<open>Scalars.\<close> \<open>Scalar\<close>: the functions \<open>sc_*\<close> of \<open>src/crypto/crypto-ops.c\<close>. Their straight-line
  bodies of several hundred statements on signed 64 bit limbs are lists of statements of a small
  type, run by an interpreter whose operations fail when they leave the 64 bit range.
  \<open>Scalar_Limbs\<close> shows what a statement does to the value of the limbs and that an interval analysis
  of statement lists is sound; \<open>Scalar_Bytes\<close> relates bytes and limbs; \<open>Scalar_Correct\<close> evaluates the
  analysis on the bodies and concludes that no operation overflows and that every result is the
  canonical one modulo the group order. The locale \<open>scalar_arith\<close> is the contract that signature
  code uses.

  \<^bold>\<open>Hard forks.\<close> \<open>Hardfork\<close>: the class of \<open>src/cryptonote_basic/hardfork.cpp\<close>, the tables of
  \<open>src/hardforks/hardforks.cpp\<close>, and the places in \<open>src/blockchain_db\<close> and
  \<open>src/cryptonote_core/blockchain.cpp\<close> that drive it. \<open>Hardfork_Correct\<close>: the step relation \<open>hf_step\<close>
  of accepted blocks, pops, reorganisations and restarts; its reachable states follow the schedule,
  no operation fails in them, every scheduled fork can be reached; the vote count is exact. The
  locale \<open>version_store\<close> is what the class relies on of the database.

  \<^bold>\<open>Block weights.\<close> \<open>Weight_Limit\<close>: the long term weight of a block, the medians and the weight
  limit of \<open>src/cryptonote_core/blockchain.cpp\<close>, with the rolling median that caches the long term
  median and the hash that tags it. \<open>Weight_Limit_Correct\<close>: the locale \<open>sliding_median\<close> is the
  contract of the rolling median, interpreted by it; over it the cached computation is shown to
  refine a computation from the weights of the chain alone, for every order of stored and popped
  blocks, restarts and resets. The hash of a block is a parameter there, a function of the chain it
  ends, assumed to identify the chains that occur.

  \<^bold>\<open>Tree hash.\<close> \<open>Tree_Hash\<close>: \<open>src/crypto/tree-hash.c\<close>. The in-place loops compute the root of a
  binary tree, the root binds the list of transactions up to a collision of the fast hash, and the
  count loop ends exactly for counts up to \<open>2^63\<close>.

  \<^bold>\<open>Pruning.\<close> \<open>Pruning\<close>: \<open>src/common/pruning.cpp\<close>. Seeds carry their fields, and the searches find
  the next block that a pruning node keeps or drops.

  \<^bold>\<open>Include directory.\<close> \<open>Include_Dirs\<close>: the script \<open>external/rapidjson/include_dirs.js\<close> with the
  path functions of its run-time library that it calls.

  \<^bold>\<open>Bounds and fuel.\<close> No definition uses fuel: every loop is a recursion with its termination proof, except the
  loop of \<open>tree_hash_cnt\<close>, a partial function whose domain is shown. The theorems on vote counts assume a
  window below \<open>2^32\<close>, the width of the counters; the window of the code has 10080 blocks. The
  theorems on medians assume a non-empty window. Other theorems bound
  their arguments only where the code's own integer types overflow beyond the bound, and the
  statements say so.

  \<^bold>\<open>Not modelled.\<close> The difficulty algorithm \<open>next_difficulty_13\<close>, which computes in floating point.
  The slow hash, a computation over AES instructions and generated machine code. Ring signatures and
  range proofs, which rest on curve arithmetic. The transaction pool and the validation of
  transactions, which rest on those. The database beyond the operations named above, the network
  layer, wallets, remote procedure calls, devices and multisignatures: input, output and user
  interfaces over libraries outside the tree.
\<close>

end
